(* ===== verification/Prelude.thy ===== *)
theory Prelude
  imports Main "HOL-Library.Monad_Syntax" "HOL-Library.Char_ord" "HOL-Library.Word"
    "HOL-Library.Code_Target_Numeral"
begin

text \<open>
  What every component of the development shares: the model of C memory accesses, the
  numeric bounds of the C types, ASCII character classes, and generic lemmas on lists.

  A C byte is an Isabelle \<open>char\<close> (8 bits, ordered by its unsigned code), a C string or
  byte range is a \<open>string\<close>.  An access to an array goes through \<open>rd\<close> and \<open>wr\<close>: an
  access outside the array is undefined behaviour in C and is the value \<open>None\<close> here, so
  that a theorem that a routine returns \<open>Some\<close> is a theorem that it stays in bounds.
\<close>

named_theorems mem_simps \<open>evaluation of checked memory accesses\<close>

section \<open>Bounds of the C integer types\<close>

definition SIZE_MAX :: nat where "SIZE_MAX = 2 ^ 64 - 1"
definition INT_MAX :: nat where "INT_MAX = 2 ^ 31 - 1"
definition INT64_MAX :: nat where "INT64_MAX = 2 ^ 63 - 1"

section \<open>Checked memory accesses\<close>

definition rd :: "'a list \<Rightarrow> nat \<Rightarrow> 'a option" where
  "rd b i = (if i < length b then Some (b ! i) else None)"

definition wr :: "'a list \<Rightarrow> nat \<Rightarrow> 'a \<Rightarrow> 'a list option" where
  "wr b i x = (if i < length b then Some (b[i := x]) else None)"

lemma rd_Some [mem_simps]: "i < length b \<Longrightarrow> rd b i = Some (b ! i)"
  by (simp add: rd_def)

lemma rd_eq_Some: "rd b i = Some x \<longleftrightarrow> i < length b \<and> b ! i = x"
  by (auto simp: rd_def)

lemma wr_Some [mem_simps]: "i < length b \<Longrightarrow> wr b i x = Some (b[i := x])"
  by (simp add: wr_def)

lemma wr_eq_Some: "wr b i x = Some b' \<longleftrightarrow> i < length b \<and> b' = b[i := x]"
  by (auto simp: wr_def)

lemma rd_append: "rd b i = Some x \<Longrightarrow> rd (b @ c) i = Some x"
  by (auto simp: rd_def nth_append split: if_splits)

definition rd_bytes :: "'a list \<Rightarrow> nat \<Rightarrow> nat \<Rightarrow> 'a list option" where
  "rd_bytes b p n = (if p + n \<le> length b then Some (take n (drop p b)) else None)"

lemma rd_bytes_Some [mem_simps]: "p + n \<le> length b \<Longrightarrow> rd_bytes b p n = Some (take n (drop p b))"
  by (simp add: rd_bytes_def)

lemma rd_bytes_append: "rd_bytes b p n = Some x \<Longrightarrow> rd_bytes (b @ c) p n = Some x"
  by (auto simp: rd_bytes_def split: if_splits)

text \<open>
  A pointer \<open>p\<close> into a buffer is passed to a routine as the rest of the buffer from \<open>p\<close>;
  what the routine leaves there is put back behind the bytes before \<open>p\<close>.
\<close>

definition at_ptr :: "'a list \<Rightarrow> nat \<Rightarrow> ('a list \<Rightarrow> ('a list \<times> 'r) option) \<Rightarrow> ('a list \<times> 'r) option" where
  "at_ptr buf p f = map_option (\<lambda>(b, r). (take p buf @ b, r)) (f (drop p buf))"

lemma at_ptr_Some: "f (drop p buf) = Some (b, r) \<Longrightarrow> at_ptr buf p f = Some (take p buf @ b, r)"
  by (simp add: at_ptr_def)

section \<open>Character classes\<close>

definition is_digit :: "char \<Rightarrow> bool" where
  "is_digit c \<longleftrightarrow> CHR ''0'' \<le> c \<and> c \<le> CHR ''9''"

definition digit_val :: "char \<Rightarrow> nat" where
  "digit_val c = of_char c - 48"

lemma is_digit_code: "is_digit c \<longleftrightarrow> 48 \<le> (of_char c :: nat) \<and> (of_char c :: nat) \<le> 57"
  by (simp add: is_digit_def less_eq_char_def)

lemma digit_val_le: "is_digit c \<Longrightarrow> digit_val c \<le> 9"
  unfolding is_digit_code digit_val_def by linarith

text \<open>\<open>tolower\<close> of the C locale, and the \<open>strncasecmp\<close> test for equality.\<close>

definition to_lower :: "char \<Rightarrow> char" where
  "to_lower c = (if CHR ''A'' \<le> c \<and> c \<le> CHR ''Z'' then char_of ((of_char c :: nat) + 32) else c)"

definition case_eq :: "string \<Rightarrow> string \<Rightarrow> bool" where
  "case_eq a b \<longleftrightarrow> map to_lower a = map to_lower b"

text \<open>The hexadecimal digits of a value below 16, in upper and in lower case.\<close>

definition hex_digit :: "nat \<Rightarrow> char \<Rightarrow> bool" where
  "hex_digit n c \<longleftrightarrow> n < 16 \<and> c \<in> {''0123456789ABCDEF'' ! n, ''0123456789abcdef'' ! n}"

lemma digit_texts:
  "n < 10 \<Longrightarrow> ''0123456789ABCDEF'' ! n = char_of (48 + n)"
  "10 \<le> n \<Longrightarrow> n < 16 \<Longrightarrow> ''0123456789ABCDEF'' ! n = char_of (55 + n)"
  "10 \<le> n \<Longrightarrow> n < 16 \<Longrightarrow> ''0123456789abcdef'' ! n = char_of (87 + n)"
proof -
  have "n < 10 \<Longrightarrow> n \<in> set [0..<10]" "10 \<le> n \<Longrightarrow> n < 16 \<Longrightarrow> n \<in> set [10..<16]"
    unfolding set_upt by simp_all
  then show "n < 10 \<Longrightarrow> ''0123456789ABCDEF'' ! n = char_of (48 + n)"
    "10 \<le> n \<Longrightarrow> n < 16 \<Longrightarrow> ''0123456789ABCDEF'' ! n = char_of (55 + n)"
    "10 \<le> n \<Longrightarrow> n < 16 \<Longrightarrow> ''0123456789abcdef'' ! n = char_of (87 + n)"
    by (auto simp: upt_rec char_of_def bit_0)
qed

section \<open>Lists\<close>

text \<open>\<open>memchr\<close>: the index of the first occurrence of a byte.\<close>

definition memchr :: "string \<Rightarrow> char \<Rightarrow> nat option" where
  "memchr s c = (if c \<in> set s then Some (length (takeWhile (\<lambda>x. x \<noteq> c) s)) else None)"

lemma memchr_Some:
  "memchr s c = Some i \<Longrightarrow> i < length s \<and> s ! i = c \<and> c \<notin> set (take i s)"
proof -
  assume "memchr s c = Some i"
  then have c: "c \<in> set s" and i: "i = length (takeWhile (\<lambda>x. x \<noteq> c) s)"
    by (simp_all add: memchr_def split: if_splits)
  from c obtain a b where s: "s = a @ c # b" and a: "c \<notin> set a" by (meson split_list_first)
  then have "takeWhile (\<lambda>x. x \<noteq> c) s = a" by (subst s, subst takeWhile_append2) auto
  then show ?thesis using s a i by simp
qed

lemma memchr_None: "memchr s c = None \<longleftrightarrow> c \<notin> set s"
  by (simp add: memchr_def)

lemma take_list_update_ge: "w \<le> i \<Longrightarrow> take w (xs[i := x]) = take w xs"
  by (simp add: take_update_swap list_update_beyond)

lemma take_Suc_list_update: "w < length xs \<Longrightarrow> take (Suc w) (xs[w := x]) = take w xs @ [x]"
  by (simp add: take_Suc_conv_app_nth)

lemma drop_Suc_nth: "i < length xs \<Longrightarrow> drop i xs = xs ! i # drop (Suc i) xs"
  by (simp add: Cons_nth_drop_Suc)

lemma drop_take_nth:
  "i < len \<Longrightarrow> len \<le> length xs \<Longrightarrow> drop i (take len xs) = xs ! i # drop (Suc i) (take len xs)"
  by (subst drop_Suc_nth) auto

end
