(* ===== verification/UriPath.thy ===== *)
theory UriPath
  imports Prelude
begin

text \<open>
  \<open>src/src/http_request_path.c\<close>, the in-place routines: percent decoding of a URI and
  the removal of dot segments from a path.  The routines work on an array of bytes with a
  read index \<open>r\<close> and a write index \<open>w\<close>; the result is the array and the \<open>ssize_t\<close>
  the C function returns (\<open>-1\<close> for a rejected input).  \<open>None\<close> is an access outside
  the array.
\<close>

unbundle bit_operations_syntax

section \<open>Percent decoding\<close>

definition hex_val :: "char \<Rightarrow> int" where
  "hex_val c =
     (if CHR ''0'' \<le> c \<and> c \<le> CHR ''9'' then int (of_char c) - int (of_char (CHR ''0''))
      else if CHR ''A'' \<le> c \<and> c \<le> CHR ''F'' then int (of_char c) - int (of_char (CHR ''A'')) + 10
      else if CHR ''a'' \<le> c \<and> c \<le> CHR ''f'' then int (of_char c) - int (of_char (CHR ''a'')) + 10
      else -1)"

definition hex_pair :: "char \<Rightarrow> char \<Rightarrow> char" where
  "hex_pair a b = char_of (push_bit 4 (hex_val a) OR hex_val b)"

function url_decode_loop :: "string \<Rightarrow> nat \<Rightarrow> nat \<Rightarrow> nat \<Rightarrow> (string \<times> int) option" where
  "url_decode_loop str len r w =
     (if r < len then
        do {
          c \<leftarrow> rd str r;
          if c = CHR ''%'' then
            if r + 2 \<ge> len then Some (str, -1)
            else do {
              c1 \<leftarrow> rd str (r + 1);
              c2 \<leftarrow> rd str (r + 2);
              if hex_val c1 < 0 \<or> hex_val c2 < 0 then Some (str, -1)
              else if hex_pair c1 c2 = CHR 0x00 then Some (str, -1)
              else do {
                str' \<leftarrow> wr str w (hex_pair c1 c2);
                url_decode_loop str' len (r + 3) (w + 1)
              }
            }
          else do {
            str' \<leftarrow> wr str w c;
            url_decode_loop str' len (r + 1) (w + 1)
          }
        }
      else Some (str, int w))"
  by pat_completeness auto
termination
  by (relation "measure (\<lambda>(str, len, r, w). len - r)") auto

declare url_decode_loop.simps [simp del]

definition url_decode :: "string \<Rightarrow> nat \<Rightarrow> (string \<times> int) option" where
  "url_decode str len = url_decode_loop str len 0 0"

text \<open>The decoding as a function of byte lists, the specification of the routine.\<close>

fun percent_decode :: "string \<Rightarrow> string option" where
  "percent_decode [] = Some []"
| "percent_decode (c # cs) =
     (if c = CHR ''%'' then
        (case cs of
           a # b # rest \<Rightarrow>
             if hex_val a < 0 \<or> hex_val b < 0 \<or> hex_pair a b = CHR 0x00 then None
             else map_option ((#) (hex_pair a b)) (percent_decode rest)
         | _ \<Rightarrow> None)
      else map_option ((#) c) (percent_decode cs))"

definition decode_post :: "string \<Rightarrow> nat \<Rightarrow> nat \<Rightarrow> string option \<Rightarrow> (string \<times> int) option \<Rightarrow> bool" where
  "decode_post buf len w spec out \<longleftrightarrow>
     (\<exists>buf' n. out = Some (buf', n) \<and> length buf' = length buf \<and> drop len buf' = drop len buf \<and>
        (case spec of
           None \<Rightarrow> n = -1
         | Some d \<Rightarrow> n = int (w + length d) \<and> w + length d \<le> len \<and>
             take (w + length d) buf' = take w buf @ d))"

lemma decode_post_step:
  assumes w: "w < len" "len \<le> length buf"
    and post: "decode_post (buf[w := c]) len (Suc w) spec out"
  shows "decode_post buf len w (map_option ((#) c) spec) out"
  using w post unfolding decode_post_def
  by (cases spec) (auto simp: take_Suc_list_update)

lemma url_decode_loop_post:
  assumes "w \<le> r" "r \<le> len" "len \<le> length str"
  shows "decode_post str len w (percent_decode (drop r (take len str))) (url_decode_loop str len r w)"
  using assms
proof (induction str len r w rule: url_decode_loop.induct)
  case (1 str len r w)
  show ?case
  proof (cases "r < len")
    case False
    with 1 show ?thesis by (subst url_decode_loop.simps) (auto simp: decode_post_def)
  next
    case True
    note len = \<open>len \<le> length str\<close> and wr = \<open>w \<le> r\<close>
    have split: "drop r (take len str) = str ! r # drop (Suc r) (take len str)"
      using True len by (rule drop_take_nth)
    show ?thesis
    proof (cases "str ! r = CHR ''%''")
      case False
      let ?b = "str[w := str ! r]"
      have "decode_post ?b len (Suc w) (percent_decode (drop (Suc r) (take len ?b)))
              (url_decode_loop ?b len (Suc r) (Suc w))"
        using "1.IH"(2)[of "str ! r" ?b] True False len wr by (simp add: mem_simps)
      moreover have "drop (Suc r) (take len ?b) = drop (Suc r) (take len str)"
        using wr by (simp add: drop_take)
      ultimately show ?thesis
        using decode_post_step[of w len str "str ! r"] True False len wr
        by (subst url_decode_loop.simps) (simp add: mem_simps split)
    next
      case pct: True
      show ?thesis
      proof (cases "r + 2 \<ge> len")
        case short: True
        have "length (drop (Suc r) (take len str)) < 2" using short len by simp
        then have "percent_decode (drop r (take len str)) = None"
          using pct by (simp only: split percent_decode.simps) (auto split: list.splits simp del: length_drop)
        then show ?thesis using True pct short len
          by (subst url_decode_loop.simps) (simp add: mem_simps decode_post_def)
      next
        case long: False
        let ?a = "str ! (r + 1)" and ?c = "str ! (r + 2)"
        have split3: "drop (Suc r) (take len str) = ?a # ?c # drop (r + 3) (take len str)"
          using long len by (subst drop_take_nth, simp, simp, subst drop_take_nth) (simp_all add: numeral_3_eq_3)
        show ?thesis
        proof (cases "hex_val ?a < 0 \<or> hex_val ?c < 0 \<or> hex_pair ?a ?c = CHR 0x00")
          case True
          then have "percent_decode (drop r (take len str)) = None"
            using pct by (auto simp: split split3)
          then show ?thesis using True \<open>r < len\<close> pct long len
            by (subst url_decode_loop.simps) (auto simp: mem_simps decode_post_def)
        next
          case ok: False
          let ?b = "str[w := hex_pair ?a ?c]"
          have "decode_post ?b len (Suc w) (percent_decode (drop (r + 3) (take len ?b)))
                  (url_decode_loop ?b len (r + 3) (Suc w))"
            using "1.IH"(1)[of "str ! r" ?a ?c ?b] True pct long ok len wr by (simp add: mem_simps)
          moreover have "drop (r + 3) (take len ?b) = drop (r + 3) (take len str)"
            using wr by (simp add: drop_take)
          ultimately show ?thesis
            using decode_post_step[of w len str "hex_pair ?a ?c"] True pct long ok len wr
            by (subst url_decode_loop.simps) (auto simp: mem_simps split split3)
        qed
      qed
    qed
  qed
qed

text \<open>
  The percent encodings of a byte string, written without the decoder: each byte stands for itself
  or is written as two hexadecimal digits behind a percent sign, each digit in upper or in lower
  case.  The percent sign does not stand for itself and NUL is not written as an escape.
\<close>

inductive percent_encoding :: "string \<Rightarrow> string \<Rightarrow> bool" where
  nothing: "percent_encoding [] []"
| itself: "percent_encoding s e \<Longrightarrow> c \<noteq> CHR ''%'' \<Longrightarrow> percent_encoding (c # s) (c # e)"
| escape: "percent_encoding s e \<Longrightarrow> c \<noteq> CHR 0x00 \<Longrightarrow> hex_digit (of_char c div 16) a \<Longrightarrow> hex_digit (of_char c mod 16) b \<Longrightarrow>
     percent_encoding (c # s) (CHR ''%'' # a # b # e)"

lemma hex_digit_val: "hex_digit n c \<Longrightarrow> hex_val c = int n"
proof -
  assume h: "hex_digit n c"
  then have "n \<in> set [0..<16]" by (simp add: hex_digit_def)
  then show ?thesis using h
    by (simp add: upt_rec hex_digit_def) (elim disjE; force simp: hex_val_def less_eq_char_def)
qed

lemma hex_val_digit:
  assumes "0 \<le> hex_val c"
  shows "\<exists>n. hex_digit n c \<and> hex_val c = int n"
proof -
  define k :: nat where "k = of_char c"
  have c: "c = char_of k" "k < 256" by (simp_all add: k_def)
  have v: "hex_val c = (if 48 \<le> k \<and> k \<le> 57 then int k - 48 else if 65 \<le> k \<and> k \<le> 70 then int k - 55
      else if 97 \<le> k \<and> k \<le> 102 then int k - 87 else -1)"
    by (simp add: hex_val_def less_eq_char_def k_def)
  then consider "48 \<le> k" "k \<le> 57" | "65 \<le> k" "k \<le> 70" | "97 \<le> k" "k \<le> 102" using assms by (auto split: if_splits)
  then show ?thesis
  proof cases
    case 1
    then show ?thesis using v digit_texts(1)[of "k - 48"] c(1) by (intro exI[of _ "k - 48"]) (auto simp: hex_digit_def)
  next
    case 2
    then show ?thesis using v digit_texts(2)[of "k - 55"] c(1) by (intro exI[of _ "k - 55"]) (auto simp: hex_digit_def)
  next
    case 3
    then show ?thesis using v digit_texts(3)[of "k - 87"] c(1) by (intro exI[of _ "k - 87"]) (auto simp: hex_digit_def)
  qed
qed

lemma or_push_bit_4: "b < 16 \<Longrightarrow> push_bit 4 (int a) OR int b = int (a * 16 + b)"
proof -
  assume b: "b < 16"
  have "push_bit 4 (int a) AND int b = 0"
  proof (rule bit_eqI)
    fix n
    have "\<not> bit (int b) n" if "4 \<le> n"
    proof -
      have "b < 2 ^ n" using b power_increasing[of 4 n "2::nat"] that by simp
      then show ?thesis by (simp add: bit_nat_iff bit_int_def flip: of_nat_div)
    qed
    then show "bit (push_bit 4 (int a) AND int b) n \<longleftrightarrow> bit (0::int) n"
      by (auto simp: bit_and_iff bit_push_bit_iff)
  qed
  then show ?thesis by (simp add: disjunctive_add_eq_or [symmetric] push_bit_eq_mult)
qed

lemma hex_pair_digits: "hex_digit m a \<Longrightarrow> hex_digit n b \<Longrightarrow> hex_pair a b = char_of (m * 16 + n)"
proof -
  assume h: "hex_digit m a" "hex_digit n b"
  then have "hex_pair a b = char_of (int (m * 16 + n))"
    using or_push_bit_4[of n m] by (simp only: hex_pair_def hex_digit_val hex_digit_def)
  also have "\<dots> = char_of (m * 16 + n)" by (rule char_of_nat)
  finally show ?thesis .
qed

lemma hex_pair_byte: "hex_digit (of_char c div 16) a \<Longrightarrow> hex_digit (of_char c mod 16) b \<Longrightarrow> hex_pair a b = c"
  by (simp only: hex_pair_digits div_mult_mod_eq char_of_char)

lemma encoding_decodes: "percent_encoding s e \<Longrightarrow> percent_decode e = Some s"
  by (induction rule: percent_encoding.induct) (simp_all add: hex_digit_val hex_pair_byte)

text \<open>The decoder accepts nothing else.\<close>

lemma decoded_encoding: "percent_decode e = Some s \<Longrightarrow> percent_encoding s e"
proof (induction e arbitrary: s rule: percent_decode.induct)
  case (2 c cs)
  show ?case
  proof (cases "c = CHR ''%''")
    case True
    then obtain a b rest t where d: "cs = a # b # rest" "0 \<le> hex_val a" "0 \<le> hex_val b" "hex_pair a b \<noteq> CHR 0x00"
      "percent_decode rest = Some t" "s = hex_pair a b # t"
      using 2(3) by (auto simp: not_less split: list.splits if_splits)
    obtain m n where h: "hex_digit m a" "hex_digit n b" using hex_val_digit d(2,3) by blast
    then have "of_char (hex_pair a b) = m * 16 + n"
      by (simp add: hex_pair_digits hex_digit_def)
    then have "hex_digit (of_char (hex_pair a b) div 16) a" "hex_digit (of_char (hex_pair a b) mod 16) b"
      using h by (simp_all add: hex_digit_def)
    moreover have "percent_encoding t rest"
      using 2(1) True d by simp
    ultimately show ?thesis using True d percent_encoding.escape by simp
  next
    case False
    then show ?thesis using 2 percent_encoding.itself by auto
  qed
qed (simp add: percent_encoding.nothing)

lemma percent_decode_iff: "percent_decode e = Some s \<longleftrightarrow> percent_encoding s e"
  using encoding_decodes decoded_encoding by blast

section \<open>Dot segments\<close>

text \<open>The inner loops of \<open>normalize_path\<close>: runs of slashes, the end of a segment, the
  removal of the last written segment, the copy of a segment to the write index.\<close>

function skip_slashes :: "string \<Rightarrow> nat \<Rightarrow> nat \<Rightarrow> nat option" where
  "skip_slashes path len r =
     (if r < len then do {
        c \<leftarrow> rd path r;
        if c = CHR ''/'' then skip_slashes path len (r + 1) else Some r }
      else Some r)"
  by pat_completeness auto
termination by (relation "measure (\<lambda>(path, len, r). len - r)") auto

function segment_end :: "string \<Rightarrow> nat \<Rightarrow> nat \<Rightarrow> nat option" where
  "segment_end path len r =
     (if r < len then do {
        c \<leftarrow> rd path r;
        if c \<noteq> CHR ''/'' then segment_end path len (r + 1) else Some r }
      else Some r)"
  by pat_completeness auto
termination by (relation "measure (\<lambda>(path, len, r). len - r)") auto

fun back_to_slash :: "string \<Rightarrow> nat \<Rightarrow> nat option" where
  "back_to_slash path 0 = Some 0"
| "back_to_slash path (Suc w) = do {
     c \<leftarrow> rd path w;
     if c \<noteq> CHR ''/'' then back_to_slash path w else Some (Suc w) }"

definition pop_segment :: "string \<Rightarrow> nat \<Rightarrow> nat option" where
  "pop_segment path w = do { v \<leftarrow> back_to_slash path w; Some (if v > 0 then v - 1 else v) }"

fun copy_segment :: "string \<Rightarrow> nat \<Rightarrow> nat \<Rightarrow> nat \<Rightarrow> string option" where
  "copy_segment path w src 0 = Some path"
| "copy_segment path w src (Suc n) = do {
     c \<leftarrow> rd path src;
     path' \<leftarrow> wr path w c;
     copy_segment path' (w + 1) (src + 1) n }"

declare skip_slashes.simps [simp del] segment_end.simps [simp del]

text \<open>The loops in terms of the bytes from the read index to the end.\<close>

lemma skip_slashes_Some:
  "len \<le> length path \<Longrightarrow> r \<le> len \<Longrightarrow>
   skip_slashes path len r = Some (r + length (takeWhile (\<lambda>c. c = CHR ''/'') (drop r (take len path))))"
proof (induction path len r rule: skip_slashes.induct)
  case (1 path len r)
  then show ?case
    by (subst skip_slashes.simps) (auto simp: mem_simps drop_take_nth)
qed

lemma segment_end_Some:
  "len \<le> length path \<Longrightarrow> r \<le> len \<Longrightarrow>
   segment_end path len r = Some (r + length (takeWhile (\<lambda>c. c \<noteq> CHR ''/'') (drop r (take len path))))"
proof (induction path len r rule: segment_end.induct)
  case (1 path len r)
  then show ?case
    by (subst segment_end.simps) (auto simp: mem_simps drop_take_nth)
qed

lemma back_to_slash_Some:
  "w \<le> length path \<Longrightarrow>
   back_to_slash path w = Some (w - length (takeWhile (\<lambda>c. c \<noteq> CHR ''/'') (rev (take w path))))"
  by (induction path w rule: back_to_slash.induct) (auto simp: mem_simps take_Suc_conv_app_nth)

lemma copy_segment_Some:
  "w \<le> src \<Longrightarrow> src + n \<le> length path \<Longrightarrow>
   \<exists>path'. copy_segment path w src n = Some path' \<and> length path' = length path \<and>
     take (w + n) path' = take w path @ take n (drop src path) \<and>
     drop (src + n) path' = drop (src + n) path"
proof (induction n arbitrary: path w src)
  case 0
  then show ?case by simp
next
  case (Suc n)
  let ?p = "path[w := path ! src]"
  obtain path' where p': "copy_segment ?p (w + 1) (src + 1) n = Some path'"
    "length path' = length path"
    "take (w + 1 + n) path' = take (w + 1) ?p @ take n (drop (src + 1) ?p)"
    "drop (src + 1 + n) path' = drop (src + 1 + n) ?p"
    using Suc.IH[of "w + 1" "src + 1" ?p] Suc.prems by auto
  have "take (w + 1) ?p = take w path @ [path ! src]"
    using Suc.prems by (simp add: take_Suc_list_update)
  moreover have "drop (src + 1) ?p = drop (src + 1) path" using Suc.prems by simp
  moreover have "take (Suc n) (drop src path) = path ! src # take n (drop (src + 1) path)"
    using Suc.prems by (simp add: drop_Suc_nth)
  ultimately show ?case using p' Suc.prems by (simp add: mem_simps)
qed

lemma skip_slashes_ge: "skip_slashes path len r = Some s \<Longrightarrow> r \<le> s"
proof (induction path len r rule: skip_slashes.induct)
  case (1 path len r)
  then show ?case
    by (subst (asm) (2) skip_slashes.simps) (fastforce split: if_splits simp: bind_eq_Some_conv)
qed

lemma segment_end_ge: "segment_end path len r = Some e \<Longrightarrow> r \<le> e"
proof (induction path len r rule: segment_end.induct)
  case (1 path len r)
  then show ?case
    by (subst (asm) (2) segment_end.simps) (fastforce split: if_splits simp: bind_eq_Some_conv)
qed

definition is_dot :: "string \<Rightarrow> nat \<Rightarrow> nat \<Rightarrow> bool option" where
  "is_dot path s n =
     (if n = 1 then do { c \<leftarrow> rd path s; Some (c = CHR ''.'') } else Some False)"

definition is_dot_dot :: "string \<Rightarrow> nat \<Rightarrow> nat \<Rightarrow> bool option" where
  "is_dot_dot path s n =
     (if n = 2 then do {
        c \<leftarrow> rd path s;
        if c = CHR ''.'' then do { d \<leftarrow> rd path (s + 1); Some (d = CHR ''.'') } else Some False }
      else Some False)"

definition normalize_finish :: "string \<Rightarrow> nat \<Rightarrow> (string \<times> int) option" where
  "normalize_finish path w =
     (if w = 0 then do { path' \<leftarrow> wr path w (CHR ''/''); Some (path', int (w + 1)) }
      else Some (path, int w))"

function normalize_loop :: "string \<Rightarrow> nat \<Rightarrow> nat \<Rightarrow> nat \<Rightarrow> (string \<times> int) option" where
  "normalize_loop path len r w =
     (if r < len then do {
        s \<leftarrow> skip_slashes path len r;
        e \<leftarrow> segment_end path len s;
        if e - s = 0 then normalize_finish path w
        else do {
          dot \<leftarrow> is_dot path s (e - s);
          if dot then normalize_loop path len e w
          else do {
            dots \<leftarrow> is_dot_dot path s (e - s);
            if dots then
              if w = 0 then Some (path, -1)
              else do {
                w' \<leftarrow> pop_segment path w;
                normalize_loop path len e w'
              }
            else do {
              path1 \<leftarrow> wr path w (CHR ''/'');
              path2 \<leftarrow> copy_segment path1 (w + 1) s (e - s);
              normalize_loop path2 len e (w + 1 + (e - s))
            }
          }
        }
      }
      else normalize_finish path w)"
  by pat_completeness auto
termination
  by (relation "measure (\<lambda>(path, len, r, w). len - r)")
    (auto dest!: skip_slashes_ge segment_end_ge)

declare normalize_loop.simps [simp del]

definition normalize_path :: "string \<Rightarrow> nat \<Rightarrow> (string \<times> int) option" where
  "normalize_path path len =
     (if len = 0 then Some (path, -1)
      else do {
        c \<leftarrow> rd path 0;
        if c \<noteq> CHR ''/'' then Some (path, -1)
        else normalize_loop path len 0 0 })"

text \<open>The specification: split the path at slashes, resolve the dot segments with a stack
  of segments, print the stack.\<close>

function segments :: "string \<Rightarrow> string list" where
  "segments p =
     (let q = dropWhile (\<lambda>c. c = CHR ''/'') p in
      if q = [] then []
      else takeWhile (\<lambda>c. c \<noteq> CHR ''/'') q # segments (dropWhile (\<lambda>c. c \<noteq> CHR ''/'') q))"
  by pat_completeness auto
termination
proof (relation "measure length")
  fix p q :: string
  assume q: "q = dropWhile (\<lambda>c. c = CHR ''/'') p" "q \<noteq> []"
  then have "hd q \<noteq> CHR ''/''" using hd_dropWhile[of "\<lambda>c. c = CHR ''/''" p] by auto
  then have "length (dropWhile (\<lambda>c. c \<noteq> CHR ''/'') q) < length q"
    using q(2) by (cases q) (auto simp: le_imp_less_Suc length_dropWhile_le)
  also have "\<dots> \<le> length p" using q(1) by (simp add: length_dropWhile_le)
  finally show "(dropWhile (\<lambda>c. c \<noteq> CHR ''/'') q, p) \<in> measure length" by simp
qed simp

declare segments.simps [simp del]

fun resolve :: "string list \<Rightarrow> string list \<Rightarrow> string list option" where
  "resolve st [] = Some st"
| "resolve st (x # xs) =
     (if x = ''.'' then resolve st xs
      else if x = ''..'' then (if st = [] then None else resolve (butlast st) xs)
      else resolve (st @ [x]) xs)"

definition join_segments :: "string list \<Rightarrow> string" where
  "join_segments st = concat (map ((#) (CHR ''/'')) st)"

definition render_path :: "string list \<Rightarrow> string" where
  "render_path st = (if st = [] then ''/'' else join_segments st)"

definition good_segment :: "string \<Rightarrow> bool" where
  "good_segment x \<longleftrightarrow> x \<noteq> [] \<and> CHR ''/'' \<notin> set x \<and> x \<noteq> ''.'' \<and> x \<noteq> ''..''"

lemma join_segments_simps [simp]:
  "join_segments [] = []"
  "join_segments (x # xs) = CHR ''/'' # x @ join_segments xs"
  "join_segments (xs @ ys) = join_segments xs @ join_segments ys"
  by (simp_all add: join_segments_def)

lemma join_segments_eq_Nil [simp]: "join_segments st = [] \<longleftrightarrow> st = []"
  by (cases st) auto

definition normalize_post :: "string \<Rightarrow> nat \<Rightarrow> string list option \<Rightarrow> (string \<times> int) option \<Rightarrow> bool" where
  "normalize_post path len spec out \<longleftrightarrow>
     (\<exists>path' n. out = Some (path', n) \<and> length path' = length path \<and>
        drop len path' = drop len path \<and>
        (case spec of
           None \<Rightarrow> n = -1
         | Some st \<Rightarrow> n = int (length (render_path st)) \<and> length (render_path st) \<le> len \<and>
             take (length (render_path st)) path' = render_path st))"

lemma normalize_finish_post:
  assumes "take w path = join_segments st" "w \<le> len" "len \<le> length path" "0 < len"
  shows "normalize_post path len (Some st) (normalize_finish path w)"
proof (cases "w = 0")
  case True
  then have "join_segments st = []" using assms(1) by (metis take_0)
  then have st: "st = []" by simp
  have ne: "path \<noteq> []" using assms(3,4) by auto
  then have "take (Suc 0) (path[0 := CHR ''/'']) = ''/''"
    by (simp add: take_Suc_list_update)
  with ne st True assms(4) show ?thesis
    by (simp add: normalize_post_def normalize_finish_def mem_simps render_path_def)
next
  case False
  then have "st \<noteq> []" using assms by auto
  moreover have "length (join_segments st) = w"
    using assms(2,3) by (simp add: assms(1) [symmetric])
  ultimately show ?thesis using False assms
    by (simp add: normalize_post_def normalize_finish_def render_path_def)
qed

lemma pop_segment_join:
  assumes "take w path = join_segments st" "st \<noteq> []" "\<forall>x \<in> set st. good_segment x" "w \<le> length path"
  shows "\<exists>w'. pop_segment path w = Some w' \<and> w' \<le> w \<and> take w' path = join_segments (butlast st)"
proof -
  obtain st0 x where st: "st = st0 @ [x]" using assms(2) by (metis rev_exhaust)
  have x: "\<forall>c \<in> set (rev x). c \<noteq> CHR ''/''" using assms(3) st by (auto simp: good_segment_def)
  have "takeWhile (\<lambda>c. c \<noteq> CHR ''/'') (rev x @ CHR ''/'' # rev (join_segments st0)) = rev x"
    using x by (subst takeWhile_append2) auto
  then have tw: "takeWhile (\<lambda>c. c \<noteq> CHR ''/'') (rev (take w path)) = rev x"
    by (simp add: assms(1) st)
  have w: "w = length (join_segments st0) + 1 + length x"
    using arg_cong[OF assms(1), of length] assms(4) by (simp add: st)
  then have "pop_segment path w = Some (length (join_segments st0))"
    unfolding pop_segment_def back_to_slash_Some[OF assms(4)] tw by simp
  moreover have "take (length (join_segments st0)) path = join_segments st0"
    using arg_cong[OF assms(1), of "take (length (join_segments st0))"] w by (simp add: st)
  ultimately show ?thesis using w st by simp
qed

lemma is_dot_Some:
  assumes "s + n \<le> length path"
  shows "is_dot path s n = Some (take n (drop s path) = ''.'')"
proof (cases "n = 1")
  case True
  with assms show ?thesis by (auto simp: is_dot_def mem_simps take_Suc_conv_app_nth)
next
  case False
  have "length (take n (drop s path)) = n" using assms by simp
  with False have "take n (drop s path) \<noteq> ''.''" by (metis One_nat_def length_Cons list.size(3))
  with False show ?thesis by (simp add: is_dot_def)
qed

lemma is_dot_dot_Some:
  assumes "s + n \<le> length path"
  shows "is_dot_dot path s n = Some (take n (drop s path) = ''..'')"
proof (cases "n = 2")
  case True
  then have "take n (drop s path) = [path ! s, path ! Suc s]"
    using assms by (simp add: numeral_2_eq_2 drop_Suc_nth)
  with True assms show ?thesis by (simp add: is_dot_dot_def mem_simps)
next
  case False
  have "length (take n (drop s path)) = n" using assms by simp
  with False have "take n (drop s path) \<noteq> ''..''"
    by (metis length_Cons list.size(3) numeral_2_eq_2)
  with False show ?thesis by (simp add: is_dot_dot_def)
qed

text \<open>One round of the loop: where the next segment lies and what is left behind it.\<close>

lemma next_segment:
  assumes "r < len" "len \<le> length path"
  defines "q \<equiv> dropWhile (\<lambda>c. c = CHR ''/'') (drop r (take len path))"
  defines "x \<equiv> takeWhile (\<lambda>c. c \<noteq> CHR ''/'') q"
  obtains s e where
    "skip_slashes path len r = Some s" "segment_end path len s = Some e"
    "r \<le> s" "s \<le> e" "e \<le> len" "e - s = length x"
    "take (e - s) (drop s path) = x"
    "drop e (take len path) = dropWhile (\<lambda>c. c \<noteq> CHR ''/'') q"
    "path ! r = CHR ''/'' \<longrightarrow> r < s"
    "e < len \<longrightarrow> path ! e = CHR ''/''"
    "x = [] \<longleftrightarrow> q = []"
proof -
  let ?D = "drop r (take len path)"
  define s where "s = r + length (takeWhile (\<lambda>c. c = CHR ''/'') ?D)"
  define e where "e = s + length x"
  have "length (takeWhile (\<lambda>c. c = CHR ''/'') ?D) \<le> length ?D" by (rule length_takeWhile_le)
  then have s_le: "s \<le> len" using assms(1,2) by (simp add: s_def)
  have q: "drop s (take len path) = q"
    unfolding q_def s_def dropWhile_eq_drop drop_drop by (simp only: add.commute)
  have "length x \<le> length q" unfolding x_def by (rule length_takeWhile_le)
  also have "length q = len - s" using assms(2) by (simp only: q [symmetric]) simp
  finally have e_le: "e \<le> len" using s_le by (simp add: e_def)
  have "drop (length x) q = dropWhile (\<lambda>c. c \<noteq> CHR ''/'') q"
    unfolding x_def by (rule dropWhile_eq_drop [symmetric])
  then have rest: "drop e (take len path) = dropWhile (\<lambda>c. c \<noteq> CHR ''/'') q"
    unfolding e_def q [symmetric] drop_drop by (simp only: add.commute)
  have "take (length x) q = x" unfolding x_def by (rule takeWhile_eq_take [symmetric])
  then have seg: "take (e - s) (drop s path) = x"
    using e_le unfolding q [symmetric] by (simp add: e_def drop_take min_absorb1)
  have lead: "r < s" if "path ! r = CHR ''/''"
    using that assms(1,2) by (simp add: s_def drop_take_nth)
  have stop: "path ! e = CHR ''/''" if "e < len"
  proof -
    have D: "drop e (take len path) = path ! e # drop (Suc e) (take len path)"
      using that assms(2) by (rule drop_take_nth)
    then show ?thesis using hd_dropWhile[of "\<lambda>c. c \<noteq> CHR ''/''" q] unfolding rest by simp
  qed
  have "hd q \<noteq> CHR ''/''" if "q \<noteq> []"
    using that hd_dropWhile[of "\<lambda>c. c = CHR ''/''"] unfolding q_def by blast
  then have nil: "x = [] \<longleftrightarrow> q = []" unfolding x_def by (cases q) auto
  have skip: "skip_slashes path len r = Some s"
    using skip_slashes_Some[OF assms(2), of r] assms(1) by (simp add: s_def)
  have seg_end: "segment_end path len s = Some e"
    unfolding segment_end_Some[OF assms(2) s_le] q e_def x_def ..
  have "r \<le> s" "s \<le> e" "e - s = length x" by (simp_all add: s_def e_def)
  then show thesis by (rule that[OF skip seg_end _ _ e_le _ seg rest]) (use lead stop nil in auto)
qed

lemma push_segment_Some:
  assumes "take w path = join_segments st" "w < s" "s \<le> e" "e \<le> len" "len \<le> length path"
    "take (e - s) (drop s path) = x"
  obtains p2 where "copy_segment (path[w := CHR ''/'']) (w + 1) s (e - s) = Some p2"
    "length p2 = length path" "take (w + 1 + (e - s)) p2 = join_segments (st @ [x])"
    "drop e (take len p2) = drop e (take len path)" "e < len \<longrightarrow> p2 ! e = path ! e"
    "drop len p2 = drop len path"
proof -
  let ?p1 = "path[w := CHR ''/'']"
  obtain p2 where p2: "copy_segment ?p1 (w + 1) s (e - s) = Some p2" "length p2 = length path"
    "take (w + 1 + (e - s)) p2 = take (w + 1) ?p1 @ take (e - s) (drop s ?p1)"
    "drop (s + (e - s)) p2 = drop (s + (e - s)) ?p1"
    using copy_segment_Some[of "w + 1" s "e - s" ?p1] assms by auto
  have tk: "take (w + 1 + (e - s)) p2 = join_segments (st @ [x])"
    using p2(3) assms by (simp add: take_Suc_list_update)
  have dr: "drop e p2 = drop e path" using p2(4) assms(2,3) by simp
  then have "drop e (take len p2) = drop e (take len path)" by (simp add: drop_take)
  moreover have "e < len \<longrightarrow> p2 ! e = path ! e"
    using arg_cong[OF dr, of hd] p2(2) assms(5) by (auto simp: hd_drop_conv_nth)
  moreover have "drop len p2 = drop len path"
    using arg_cong[OF dr, of "drop (len - e)"] assms(4) by simp
  ultimately show thesis using that p2(1,2) tk by blast
qed

lemma good_segmentI:
  "q = dropWhile (\<lambda>c. c = CHR ''/'') p \<Longrightarrow> q \<noteq> [] \<Longrightarrow> x = takeWhile (\<lambda>c. c \<noteq> CHR ''/'') q \<Longrightarrow>
   x \<noteq> [] \<and> CHR ''/'' \<notin> set x"
  using hd_dropWhile[of "\<lambda>c. c = CHR ''/''" p]
  by (metis (mono_tags, lifting) set_takeWhileD takeWhile_eq_Nil_iff)

lemma segments_unfold:
  "q = dropWhile (\<lambda>c. c = CHR ''/'') p \<Longrightarrow>
   segments p = (if q = [] then []
     else takeWhile (\<lambda>c. c \<noteq> CHR ''/'') q # segments (dropWhile (\<lambda>c. c \<noteq> CHR ''/'') q))"
  by (subst segments.simps) (simp add: Let_def)

lemma normalize_loop_post:
  assumes "r \<le> len" "len \<le> length path" "0 < len" "w \<le> r" "r < len \<longrightarrow> path ! r = CHR ''/''"
    "take w path = join_segments st" "\<forall>x \<in> set st. good_segment x"
  shows "normalize_post path len (resolve st (segments (drop r (take len path)))) (normalize_loop path len r w)"
  using assms
proof (induction path len r w arbitrary: st rule: normalize_loop.induct)
  case (1 path len r w)
  note prems = "1.prems"
  show ?case
  proof (cases "r < len")
    case False
    then have "segments (drop r (take len path)) = []"
      using prems by (subst segments.simps) simp
    then show ?thesis
      using normalize_finish_post[of w path st len] prems False
      by (subst normalize_loop.simps) simp
  next
    case True
    let ?q = "dropWhile (\<lambda>c. c = CHR ''/'') (drop r (take len path))"
    let ?x = "takeWhile (\<lambda>c. c \<noteq> CHR ''/'') ?q"
    obtain s e where se:
      "skip_slashes path len r = Some s" "segment_end path len s = Some e"
      "r \<le> s" "s \<le> e" "e \<le> len" "e - s = length ?x" "take (e - s) (drop s path) = ?x"
      "drop e (take len path) = dropWhile (\<lambda>c. c \<noteq> CHR ''/'') ?q" "r < s"
      "e < len \<longrightarrow> path ! e = CHR ''/''" "?x = [] \<longleftrightarrow> ?q = []"
      by (rule next_segment[OF True prems(2)]) (use prems(5) True in blast)
    have segs: "segments (drop r (take len path)) =
        (if ?q = [] then [] else ?x # segments (drop e (take len path)))"
      using segments_unfold[OF refl, of "drop r (take len path)"] se(8) by simp
    have in_path: "s + (e - s) \<le> length path" using se(4,5) prems(2) by simp
    note dots = is_dot_Some[OF in_path, unfolded se(7)] is_dot_dot_Some[OF in_path, unfolded se(7)]
    show ?thesis
    proof (cases "?x = []")
      case True
      then have "e - s = 0" using se(6) by simp
      moreover have "segments (drop r (take len path)) = []" using True se(11) segs by simp
      ultimately show ?thesis
        using normalize_finish_post[of w path st len] prems \<open>r < len\<close>
        by (subst normalize_loop.simps) (simp add: se(1,2))
    next
      case ne: False
      then have pos: "\<not> e - s = 0" using se(6) by simp
      have segs': "segments (drop r (take len path)) = ?x # segments (drop e (take len path))"
        using segs ne se(11) by simp
      note unf = normalize_loop.simps[of path len r w]
      show ?thesis
      proof (cases "?x = ''.''")
        case dot: True
        have "normalize_post path len (resolve st (segments (drop e (take len path)))) (normalize_loop path len e w)"
          using "1.IH"(1)[OF True se(1,2) pos dots(1)] dot prems se by simp
        then show ?thesis
          using True pos dot by (simp add: unf se(1,2) dots segs' del: length_greater_0_conv)
      next
        case no_dot: False
        show ?thesis
        proof (cases "?x = ''..''")
          case dd: True
          show ?thesis
          proof (cases "st = []")
            case True
            then have "w = 0" using prems(2,4,6) \<open>r < len\<close> by auto
            then show ?thesis using True dd \<open>r < len\<close> pos
              by (subst normalize_loop.simps) (simp add: se(1,2) dots segs' normalize_post_def)
          next
            case st: False
            then have w: "w \<noteq> 0" using prems(6) by (metis join_segments_eq_Nil take_0)
            obtain w' where w': "pop_segment path w = Some w'" "w' \<le> w" "take w' path = join_segments (butlast st)"
              using pop_segment_join[OF prems(6) st prems(7)] prems(1,2,4) by auto
            have "normalize_post path len (resolve (butlast st) (segments (drop e (take len path)))) (normalize_loop path len e w')"
              using "1.IH"(2)[OF True se(1,2) pos dots(1) _ dots(2) _ w w'(1)] dd prems se w'(2,3)
              by (simp add: in_set_butlastD)
            then show ?thesis using True pos dd st w
              by (simp add: unf se(1,2) dots segs' w'(1))
          qed
        next
          case no_dd: False
          have w_lt: "w < length path" using prems(2,4) True by simp
          obtain p2 where p2: "copy_segment (path[w := CHR ''/'']) (w + 1) s (e - s) = Some p2"
            "length p2 = length path" and tk: "take (w + 1 + (e - s)) p2 = join_segments (st @ [?x])"
            and dt: "drop e (take len p2) = drop e (take len path)"
            and at_e: "e < len \<longrightarrow> p2 ! e = path ! e" and dl: "drop len p2 = drop len path"
            by (rule push_segment_Some[OF prems(6) _ se(4,5) prems(2) se(7)]) (use prems(4) se(9) in auto)
          have x: "?x \<noteq> [] \<and> CHR ''/'' \<notin> set ?x" using good_segmentI[OF refl _ refl] ne se(11) by simp
          have good: "\<forall>y \<in> set (st @ [?x]). good_segment y"
            using prems(7) x no_dot no_dd by (auto simp: good_segment_def)
          have le: "w + 1 + (e - s) \<le> e" using se(4,9) prems(4) by simp
          have "normalize_post p2 len (resolve (st @ [?x]) (segments (drop e (take len p2))))
                 (normalize_loop p2 len e (w + 1 + (e - s)))"
            using "1.IH"(3)[OF True se(1,2) pos dots(1) _ dots(2) _ _ p2(1) se(5) _ prems(3) le _ tk good]
              no_dot no_dd p2(2) prems(2) w_lt at_e se(10) by (simp add: mem_simps)
          then show ?thesis using True pos no_dot no_dd w_lt p2(2) dl dt
            by (simp add: unf se(1,2) dots segs' p2(1)[simplified] mem_simps normalize_post_def)
        qed
      qed
    qed
  qed
qed

lemma normalize_path_post:
  assumes "len \<le> length path"
  shows "normalize_post path len
     (if len = 0 \<or> path ! 0 \<noteq> CHR ''/'' then None else resolve [] (segments (take len path)))
     (normalize_path path len)"
proof (cases "len = 0")
  case True
  then show ?thesis by (simp add: normalize_path_def normalize_post_def)
next
  case False
  then have "rd path 0 = Some (path ! 0)" using assms by (intro rd_Some) auto
  then show ?thesis using False assms normalize_loop_post[of 0 len path 0 "[]"]
    by (simp add: normalize_path_def) (simp add: normalize_post_def)
qed

lemma resolve_good:
  "resolve st xs = Some st' \<Longrightarrow> \<forall>x \<in> set st. good_segment x \<Longrightarrow>
   \<forall>x \<in> set xs. x \<noteq> [] \<and> CHR ''/'' \<notin> set x \<Longrightarrow> \<forall>x \<in> set st'. good_segment x"
proof (induction st xs rule: resolve.induct)
  case (2 st x xs)
  show ?case
  proof (cases "x = ''.'' \<or> x = ''..''")
    case True
    then show ?thesis using 2 by (auto dest: in_set_butlastD split: if_splits)
  next
    case False
    then have "good_segment x" using "2.prems"(3) by (simp add: good_segment_def)
    then show ?thesis using 2 False by simp
  qed
qed simp
lemma resolve_id: "\<forall>x \<in> set xs. good_segment x \<Longrightarrow> resolve st xs = Some (st @ xs)"
  by (induction xs arbitrary: st) (simp_all add: good_segment_def)

lemma segments_no_slash: "\<forall>x \<in> set (segments p). x \<noteq> [] \<and> CHR ''/'' \<notin> set x"
proof (induction p rule: segments.induct)
  case (1 p)
  let ?q = "dropWhile (\<lambda>c. c = CHR ''/'') p"
  show ?case
  proof (cases "?q = []")
    case True
    then show ?thesis by (simp add: segments_unfold[OF refl, of p])
  next
    case False
    have "segments p = takeWhile (\<lambda>c. c \<noteq> CHR ''/'') ?q # segments (dropWhile (\<lambda>c. c \<noteq> CHR ''/'') ?q)"
      using False by (simp only: segments_unfold[OF refl, of p] if_False)
    then show ?thesis
      using "1.IH"[OF refl False] good_segmentI[OF refl False refl] by (simp only: list.set ball_simps) blast
  qed
qed

lemma segments_join:
  "\<forall>x \<in> set st. good_segment x \<Longrightarrow> segments (join_segments st) = st"
proof (induction st)
  case Nil
  then show ?case by (simp add: segments.simps)
next
  case (Cons x st)
  then have x: "x \<noteq> []" "\<forall>c \<in> set x. c \<noteq> CHR ''/''" by (auto simp: good_segment_def)
  have q: "dropWhile (\<lambda>c. c = CHR ''/'') (join_segments (x # st)) = x @ join_segments st"
    using x by (cases x) auto
  have "takeWhile (\<lambda>c. c \<noteq> CHR ''/'') (x @ join_segments st) = x"
    using x(2) by (cases st) (auto simp: takeWhile_append2)
  moreover have "dropWhile (\<lambda>c. c \<noteq> CHR ''/'') (x @ join_segments st) = join_segments st"
    using x(2) by (cases st) (auto simp: dropWhile_append2)
  ultimately show ?case
    using x(1) Cons by (simp only: segments_unfold[OF q[symmetric]]) simp
qed

section \<open>Properties\<close>

text \<open>
  C21.  The in-place percent decoding of \<open>url_decode\<close> stays inside the array, and computes
  the byte-list decoding \<open>percent_decode\<close> of the first \<open>len\<close> bytes: it returns \<open>-1\<close>
  exactly when that decoding rejects the input (a cut-off or non-hexadecimal escape, or an
  encoded NUL); otherwise it returns the decoded length and leaves the decoded bytes at the
  front of the array.  The bytes behind the first \<open>len\<close> are not touched.
\<close>

theorem url_decode_refines_percent_decode:
  assumes "len \<le> length str"
  shows "\<exists>str' n. url_decode str len = Some (str', n) \<and> length str' = length str \<and>
     drop len str' = drop len str \<and>
     (case percent_decode (take len str) of
        None \<Rightarrow> n = -1
      | Some d \<Rightarrow> n = int (length d) \<and> length d \<le> len \<and> take (length d) str' = d)"
  using url_decode_loop_post[of 0 0 len str] assms
  by (simp add: url_decode_def decode_post_def cong: option.case_cong)

theorem url_decode_refines_percent_decode_witness:
  "\<exists>str' n. url_decode ''/a%20b?x'' 6 = Some (str', n) \<and> n = 4 \<and> take 4 str' = ''/a b''"
proof -
  have "percent_decode (take 6 ''/a%20b?x'') = Some ''/a b''" by code_simp
  then show ?thesis using url_decode_refines_percent_decode[of 6 "''/a%20b?x''"] by (auto simp: numeral_eq_Suc)
qed

text \<open>
  C22.  Round trip: whatever percent encoding of a byte string \<open>url_decode\<close> gets (any choice of the
  bytes that stand for themselves, digits in upper or lower case), it leaves the byte string at the
  front of the array; it returns \<open>-1\<close> exactly when its input is a percent encoding of nothing.
\<close>

theorem url_decode_inverts_percent_encoding:
  "(percent_encoding s e \<longrightarrow>
      (\<exists>str'. url_decode (e @ rest) (length e) = Some (str', int (length s)) \<and> take (length s) str' = s)) \<and>
   ((\<exists>str'. url_decode (e @ rest) (length e) = Some (str', -1)) \<longleftrightarrow> (\<nexists>s. percent_encoding s e))"
proof -
  have d: "decode_post (e @ rest) (length e) 0 (percent_decode e) (url_decode (e @ rest) (length e))"
    using url_decode_loop_post[of 0 0 "length e" "e @ rest"] by (simp add: url_decode_def)
  show ?thesis
  proof (cases "percent_decode e")
    case None
    then have n: "\<not> percent_encoding x e" for x using percent_decode_iff[of e x] by simp
    then show ?thesis using d None by (auto simp: decode_post_def)
  next
    case (Some t)
    then have i: "percent_encoding x e \<longleftrightarrow> x = t" for x using percent_decode_iff[of e x] by auto
    obtain str' where "url_decode (e @ rest) (length e) = Some (str', int (length t))" "take (length t) str' = t"
      using d Some by (auto simp: decode_post_def)
    then show ?thesis unfolding i by simp
  qed
qed

theorem url_decode_inverts_percent_encoding_witness:
  "\<exists>str'. url_decode (''a%2f%2F%c3%A9'' @ ''tail'') 13 = Some (str', 5) \<and> take 5 str' = ''a//'' @ [CHR 0xC3, CHR 0xA9]"
proof -
  let ?s = "''a//'' @ [CHR 0xC3, CHR 0xA9]"
  have e: "percent_encoding ?s ''a%2f%2F%c3%A9''"
    unfolding append.simps by (rule percent_encoding.intros)+ (simp_all add: hex_digit_def)
  have l: "length ''a%2f%2F%c3%A9'' = 13" "length ?s = 5" by simp_all
  show ?thesis
    using url_decode_inverts_percent_encoding[of ?s "''a%2f%2F%c3%A9''" "''tail''"] e
    unfolding l of_nat_numeral by blast
qed

text \<open>
  C23.  The in-place path normalisation stays inside the array and computes the resolution of
  the dot segments with a stack: it returns \<open>-1\<close> exactly when the path does not begin
  with a slash or some \<open>..\<close> has no segment before it to remove, and otherwise leaves the
  printed stack at the front of the array and returns its length.
\<close>

theorem normalize_path_refines_resolve:
  assumes "len \<le> length path"
  shows "\<exists>path' n. normalize_path path len = Some (path', n) \<and> length path' = length path \<and>
     drop len path' = drop len path \<and>
     (case (if len = 0 \<or> path ! 0 \<noteq> CHR ''/'' then None else resolve [] (segments (take len path))) of
        None \<Rightarrow> n = -1
      | Some st \<Rightarrow> n = int (length (render_path st)) \<and> length (render_path st) \<le> len \<and>
          take (length (render_path st)) path' = render_path st)"
  using normalize_path_post[OF assms] unfolding normalize_post_def .

theorem normalize_path_refines_resolve_witness:
  "\<exists>path' n. normalize_path ''/a/./b//../c'' 12 = Some (path', n) \<and> n = 4 \<and> take 4 path' = ''/a/c''"
proof -
  have "resolve [] (segments (take 12 ''/a/./b//../c'')) = Some [''a'', ''c'']" by code_simp
  then show ?thesis using normalize_path_refines_resolve[of 12 "''/a/./b//../c''"]
    by (auto simp: render_path_def numeral_eq_Suc)
qed

text \<open>
  C24.  No directory traversal: the path that an accepting run leaves consists of segments
  that are not empty, hold no slash and are neither \<open>.\<close> nor \<open>..\<close>, and normalising it
  again changes nothing.
\<close>

theorem normalize_path_no_traversal:
  assumes "normalize_path path len = Some (path', int n)" "len \<le> length path"
  shows "\<exists>st. take n path' = render_path st \<and> (\<forall>x \<in> set st. good_segment x) \<and>
     (\<exists>path''. normalize_path (take n path') n = Some (path'', int n) \<and> take n path'' = take n path')"
proof -
  obtain st where st: "resolve [] (segments (take len path)) = Some st" "n = length (render_path st)"
    "take n path' = render_path st"
    using normalize_path_post[OF assms(2)] assms(1)
    by (auto simp: normalize_post_def split: option.splits if_splits)
  have good: "\<forall>x \<in> set st. good_segment x"
    using resolve_good[OF st(1)] segments_no_slash by auto
  have "segments (render_path st) = st"
    using segments_join[OF good] by (simp add: render_path_def segments.simps)
  moreover have "render_path st \<noteq> []" "render_path st ! 0 = CHR ''/''"
    by (cases st; simp add: render_path_def)+
  ultimately have "normalize_post (render_path st) n (Some st) (normalize_path (render_path st) n)"
    using normalize_path_post[of n "render_path st"] resolve_id[OF good, of "[]"] st(2) by simp
  then show ?thesis using st good by (auto simp: normalize_post_def)
qed

theorem normalize_path_no_traversal_witness:
  "\<exists>st. take 2 ''/y/..//y'' = render_path st \<and> (\<forall>x \<in> set st. good_segment x)"
proof -
  have "normalize_path ''/x/..//y'' 8 = Some (''/y/..//y'', int 2)" by code_simp
  then show ?thesis using normalize_path_no_traversal[of "''/x/..//y''" 8 "''/y/..//y''" 2] by auto
qed

end
