(* ===== verification/HttpTypes.thy ===== *)
theory HttpTypes
  imports Prelude
begin

text \<open>
  \<open>src/src/http.h\<close>, \<open>http.c\<close>, \<open>http_print.c\<close>, \<open>error.h\<close> and the data of
  \<open>http_request.h\<close>: methods, versions, status codes and their text, and the request
  record the parser fills in.  A pointer into the receive buffer is an offset into it,
  \<open>None\<close> for \<open>NULL\<close>.
\<close>

section \<open>Enumerations\<close>

datatype http_version = HTTP_VERSION_1_0 | HTTP_VERSION_1_1

datatype http_method =
    HTTP_METHOD_GET | HTTP_METHOD_HEAD | HTTP_METHOD_OPTIONS | HTTP_METHOD_TRACE
  | HTTP_METHOD_PUT | HTTP_METHOD_DELETE | HTTP_METHOD_POST | HTTP_METHOD_PATCH
  | HTTP_METHOD_CONNECT

datatype error_code =
    ERR_NONE | ERR_CONNECTION_CLOSED | ERR_MORE_DATA_NEEDED | ERR_HTTP_PARSE_FAILED
  | ERR_OUT_OF_MEMORY | ERR_UNKNOWN

datatype http_status =
    HTTP_STATUS_CONTINUE | HTTP_STATUS_SWITCHING_PROTOCOLS | HTTP_STATUS_OK
  | HTTP_STATUS_CREATED | HTTP_STATUS_ACCEPTED | HTTP_STATUS_NON_AUTHORITATIVE_INFORMATION
  | HTTP_STATUS_NO_CONTENT | HTTP_STATUS_RESET_CONTENT | HTTP_STATUS_PARTIAL_CONTENT
  | HTTP_STATUS_MULTIPLE_CHOICES | HTTP_STATUS_MOVED_PERMANENTLY | HTTP_STATUS_FOUND
  | HTTP_STATUS_SEE_OTHER | HTTP_STATUS_NOT_MODIFIED | HTTP_STATUS_USE_PROXY
  | HTTP_STATUS_TEMPORARY_REDIRECT | HTTP_STATUS_PERMANENT_REDIRECT | HTTP_STATUS_BAD_REQUEST
  | HTTP_STATUS_UNAUTHORIZED | HTTP_STATUS_PAYMENT_REQUIRED | HTTP_STATUS_FORBIDDEN
  | HTTP_STATUS_NOT_FOUND | HTTP_STATUS_METHOD_NOT_ALLOWED | HTTP_STATUS_NOT_ACCEPTABLE
  | HTTP_STATUS_PROXY_AUTHENTICATION_REQUIRED | HTTP_STATUS_REQUEST_TIMEOUT
  | HTTP_STATUS_CONFLICT | HTTP_STATUS_GONE | HTTP_STATUS_LENGTH_REQUIRED
  | HTTP_STATUS_PRECONDITION_FAILED | HTTP_STATUS_CONTENT_TOO_LARGE | HTTP_STATUS_URI_TOO_LONG
  | HTTP_STATUS_UNSUPPORTED_MEDIA_TYPE | HTTP_STATUS_RANGE_NOT_SATISFIABLE
  | HTTP_STATUS_EXPECTATION_FAILED | HTTP_STATUS_MISDIRECTED_REQUEST
  | HTTP_STATUS_UNPROCESSABLE_CONTENT | HTTP_STATUS_TOO_EARLY | HTTP_STATUS_UPGRADE_REQUIRED
  | HTTP_STATUS_PRECONDITION_REQUIRED | HTTP_STATUS_TOO_MANY_REQUESTS
  | HTTP_STATUS_REQUEST_HEADER_FIELDS_TOO_LARGE | HTTP_STATUS_UNAVAILABLE_FOR_LEGAL_REASONS
  | HTTP_STATUS_INTERNAL_SERVER_ERROR | HTTP_STATUS_NOT_IMPLEMENTED | HTTP_STATUS_BAD_GATEWAY
  | HTTP_STATUS_SERVICE_UNAVAILABLE | HTTP_STATUS_GATEWAY_TIMEOUT
  | HTTP_STATUS_HTTP_VERSION_NOT_SUPPORTED

text \<open>The numeric value of a status, as it is written on the status line.\<close>

fun status_code :: "http_status \<Rightarrow> nat" where
  "status_code HTTP_STATUS_CONTINUE = 100"
| "status_code HTTP_STATUS_SWITCHING_PROTOCOLS = 101"
| "status_code HTTP_STATUS_OK = 200"
| "status_code HTTP_STATUS_CREATED = 201"
| "status_code HTTP_STATUS_ACCEPTED = 202"
| "status_code HTTP_STATUS_NON_AUTHORITATIVE_INFORMATION = 203"
| "status_code HTTP_STATUS_NO_CONTENT = 204"
| "status_code HTTP_STATUS_RESET_CONTENT = 205"
| "status_code HTTP_STATUS_PARTIAL_CONTENT = 206"
| "status_code HTTP_STATUS_MULTIPLE_CHOICES = 300"
| "status_code HTTP_STATUS_MOVED_PERMANENTLY = 301"
| "status_code HTTP_STATUS_FOUND = 302"
| "status_code HTTP_STATUS_SEE_OTHER = 303"
| "status_code HTTP_STATUS_NOT_MODIFIED = 304"
| "status_code HTTP_STATUS_USE_PROXY = 305"
| "status_code HTTP_STATUS_TEMPORARY_REDIRECT = 307"
| "status_code HTTP_STATUS_PERMANENT_REDIRECT = 308"
| "status_code HTTP_STATUS_BAD_REQUEST = 400"
| "status_code HTTP_STATUS_UNAUTHORIZED = 401"
| "status_code HTTP_STATUS_PAYMENT_REQUIRED = 402"
| "status_code HTTP_STATUS_FORBIDDEN = 403"
| "status_code HTTP_STATUS_NOT_FOUND = 404"
| "status_code HTTP_STATUS_METHOD_NOT_ALLOWED = 405"
| "status_code HTTP_STATUS_NOT_ACCEPTABLE = 406"
| "status_code HTTP_STATUS_PROXY_AUTHENTICATION_REQUIRED = 407"
| "status_code HTTP_STATUS_REQUEST_TIMEOUT = 408"
| "status_code HTTP_STATUS_CONFLICT = 409"
| "status_code HTTP_STATUS_GONE = 410"
| "status_code HTTP_STATUS_LENGTH_REQUIRED = 411"
| "status_code HTTP_STATUS_PRECONDITION_FAILED = 412"
| "status_code HTTP_STATUS_CONTENT_TOO_LARGE = 413"
| "status_code HTTP_STATUS_URI_TOO_LONG = 414"
| "status_code HTTP_STATUS_UNSUPPORTED_MEDIA_TYPE = 415"
| "status_code HTTP_STATUS_RANGE_NOT_SATISFIABLE = 416"
| "status_code HTTP_STATUS_EXPECTATION_FAILED = 417"
| "status_code HTTP_STATUS_MISDIRECTED_REQUEST = 421"
| "status_code HTTP_STATUS_UNPROCESSABLE_CONTENT = 422"
| "status_code HTTP_STATUS_TOO_EARLY = 425"
| "status_code HTTP_STATUS_UPGRADE_REQUIRED = 426"
| "status_code HTTP_STATUS_PRECONDITION_REQUIRED = 428"
| "status_code HTTP_STATUS_TOO_MANY_REQUESTS = 429"
| "status_code HTTP_STATUS_REQUEST_HEADER_FIELDS_TOO_LARGE = 431"
| "status_code HTTP_STATUS_UNAVAILABLE_FOR_LEGAL_REASONS = 451"
| "status_code HTTP_STATUS_INTERNAL_SERVER_ERROR = 500"
| "status_code HTTP_STATUS_NOT_IMPLEMENTED = 501"
| "status_code HTTP_STATUS_BAD_GATEWAY = 502"
| "status_code HTTP_STATUS_SERVICE_UNAVAILABLE = 503"
| "status_code HTTP_STATUS_GATEWAY_TIMEOUT = 504"
| "status_code HTTP_STATUS_HTTP_VERSION_NOT_SUPPORTED = 505"

definition is_error_status :: "http_status \<Rightarrow> bool" where
  "is_error_status status \<longleftrightarrow> status_code status \<ge> status_code HTTP_STATUS_BAD_REQUEST"

section \<open>Printing\<close>

fun http_method_to_string :: "http_method \<Rightarrow> string" where
  "http_method_to_string HTTP_METHOD_GET = ''GET''"
| "http_method_to_string HTTP_METHOD_HEAD = ''HEAD''"
| "http_method_to_string HTTP_METHOD_OPTIONS = ''OPTIONS''"
| "http_method_to_string HTTP_METHOD_TRACE = ''TRACE''"
| "http_method_to_string HTTP_METHOD_PUT = ''PUT''"
| "http_method_to_string HTTP_METHOD_DELETE = ''DELETE''"
| "http_method_to_string HTTP_METHOD_POST = ''POST''"
| "http_method_to_string HTTP_METHOD_PATCH = ''PATCH''"
| "http_method_to_string HTTP_METHOD_CONNECT = ''CONNECT''"

fun http_version_to_string :: "http_version \<Rightarrow> string" where
  "http_version_to_string HTTP_VERSION_1_0 = ''HTTP/1.0''"
| "http_version_to_string HTTP_VERSION_1_1 = ''HTTP/1.1''"

fun http_status_to_string :: "http_status \<Rightarrow> string" where
  "http_status_to_string HTTP_STATUS_CONTINUE = ''Continue''"
| "http_status_to_string HTTP_STATUS_SWITCHING_PROTOCOLS = ''Switching Protocols''"
| "http_status_to_string HTTP_STATUS_OK = ''OK''"
| "http_status_to_string HTTP_STATUS_CREATED = ''Created''"
| "http_status_to_string HTTP_STATUS_ACCEPTED = ''Accepted''"
| "http_status_to_string HTTP_STATUS_NON_AUTHORITATIVE_INFORMATION = ''Non-Authoritative Information''"
| "http_status_to_string HTTP_STATUS_NO_CONTENT = ''No Content''"
| "http_status_to_string HTTP_STATUS_RESET_CONTENT = ''Reset Content''"
| "http_status_to_string HTTP_STATUS_PARTIAL_CONTENT = ''Partial Content''"
| "http_status_to_string HTTP_STATUS_MULTIPLE_CHOICES = ''Multiple Choices''"
| "http_status_to_string HTTP_STATUS_MOVED_PERMANENTLY = ''Moved Permanently''"
| "http_status_to_string HTTP_STATUS_FOUND = ''Found''"
| "http_status_to_string HTTP_STATUS_SEE_OTHER = ''See Other''"
| "http_status_to_string HTTP_STATUS_NOT_MODIFIED = ''Not Modified''"
| "http_status_to_string HTTP_STATUS_USE_PROXY = ''Use Proxy''"
| "http_status_to_string HTTP_STATUS_TEMPORARY_REDIRECT = ''Temporary Redirect''"
| "http_status_to_string HTTP_STATUS_PERMANENT_REDIRECT = ''Permanent Redirect''"
| "http_status_to_string HTTP_STATUS_BAD_REQUEST = ''Bad Request''"
| "http_status_to_string HTTP_STATUS_UNAUTHORIZED = ''Unauthorized''"
| "http_status_to_string HTTP_STATUS_PAYMENT_REQUIRED = ''Payment Required''"
| "http_status_to_string HTTP_STATUS_FORBIDDEN = ''Forbidden''"
| "http_status_to_string HTTP_STATUS_NOT_FOUND = ''Not Found''"
| "http_status_to_string HTTP_STATUS_METHOD_NOT_ALLOWED = ''Method Not Allowed''"
| "http_status_to_string HTTP_STATUS_NOT_ACCEPTABLE = ''Not Acceptable''"
| "http_status_to_string HTTP_STATUS_PROXY_AUTHENTICATION_REQUIRED = ''Proxy Authentication Required''"
| "http_status_to_string HTTP_STATUS_REQUEST_TIMEOUT = ''Request Timeout''"
| "http_status_to_string HTTP_STATUS_CONFLICT = ''Conflict''"
| "http_status_to_string HTTP_STATUS_GONE = ''Gone''"
| "http_status_to_string HTTP_STATUS_LENGTH_REQUIRED = ''Length Required''"
| "http_status_to_string HTTP_STATUS_PRECONDITION_FAILED = ''Precondition Failed''"
| "http_status_to_string HTTP_STATUS_CONTENT_TOO_LARGE = ''Content Too Large''"
| "http_status_to_string HTTP_STATUS_URI_TOO_LONG = ''URI Too Long''"
| "http_status_to_string HTTP_STATUS_UNSUPPORTED_MEDIA_TYPE = ''Unsupported Media Type''"
| "http_status_to_string HTTP_STATUS_RANGE_NOT_SATISFIABLE = ''Range Not Satisfiable''"
| "http_status_to_string HTTP_STATUS_EXPECTATION_FAILED = ''Expectation Failed''"
| "http_status_to_string HTTP_STATUS_MISDIRECTED_REQUEST = ''Misdirected Request''"
| "http_status_to_string HTTP_STATUS_UNPROCESSABLE_CONTENT = ''Unprocessable Content''"
| "http_status_to_string HTTP_STATUS_TOO_EARLY = ''Too Early''"
| "http_status_to_string HTTP_STATUS_UPGRADE_REQUIRED = ''Upgrade Required''"
| "http_status_to_string HTTP_STATUS_PRECONDITION_REQUIRED = ''Precondition Required''"
| "http_status_to_string HTTP_STATUS_TOO_MANY_REQUESTS = ''Too Many Requests''"
| "http_status_to_string HTTP_STATUS_REQUEST_HEADER_FIELDS_TOO_LARGE = ''Request Header Fields Too Large''"
| "http_status_to_string HTTP_STATUS_UNAVAILABLE_FOR_LEGAL_REASONS = ''Unavailable For Legal Reasons''"
| "http_status_to_string HTTP_STATUS_INTERNAL_SERVER_ERROR = ''Internal Server Error''"
| "http_status_to_string HTTP_STATUS_NOT_IMPLEMENTED = ''Not Implemented''"
| "http_status_to_string HTTP_STATUS_BAD_GATEWAY = ''Bad Gateway''"
| "http_status_to_string HTTP_STATUS_SERVICE_UNAVAILABLE = ''Service Unavailable''"
| "http_status_to_string HTTP_STATUS_GATEWAY_TIMEOUT = ''Gateway Timeout''"
| "http_status_to_string HTTP_STATUS_HTTP_VERSION_NOT_SUPPORTED = ''HTTP Version Not Supported''"

lemma status_code_three_digits: "100 \<le> status_code s \<and> status_code s < 1000"
  by (cases s) simp_all

section \<open>The request\<close>

record http_header =
  hdr_name :: "nat option"
  hdr_name_len :: nat
  hdr_value :: "nat option"
  hdr_value_len :: nat

record http_param =
  param_name :: nat
  param_name_len :: nat
  param_value :: "nat option"
  param_value_len :: nat

text \<open>
  The request target is kept as a pointer into the receive buffer, or as the literal
  \<open>"/"\<close> that \<open>normalize_uri\<close> stores for an absolute form without a path.
\<close>

datatype uri_ptr = Uri_null | Uri_buf nat | Uri_literal string

text \<open>
  \<open>http_request_t\<close>, without the connection, the application data and the owner pointers,
  which the parser does not touch.  \<open>query_params\<close> holds the first
  \<open>query_param_count\<close> entries of the array, \<open>headers\<close> the whole array.
\<close>

record http_request =
  body :: "nat option"
  body_bytes_read :: nat
  version :: http_version
  "method" :: http_method
  uri :: uri_ptr
  uri_len :: nat
  headers :: "http_header list"
  header_count :: nat
  content_length :: nat
  content_type :: "nat option"
  host :: "nat option"
  query_params :: "http_param list"

definition MAX_HEADERS :: nat where "MAX_HEADERS = 32"
definition MAX_QUERY_PARAMS :: nat where "MAX_QUERY_PARAMS = 32"

definition zero_header :: http_header where
  "zero_header = \<lparr>hdr_name = None, hdr_name_len = 0, hdr_value = None, hdr_value_len = 0\<rparr>"

text \<open>\<open>memset(out_request, 0, sizeof(http_request_t))\<close>.\<close>

definition zero_request :: http_request where
  "zero_request = \<lparr>body = None, body_bytes_read = 0, version = HTTP_VERSION_1_0,
     method = HTTP_METHOD_GET, uri = Uri_null, uri_len = 0,
     headers = replicate MAX_HEADERS zero_header, header_count = 0, content_length = 0,
     content_type = None, host = None, query_params = []\<rparr>"

text \<open>The bytes a request target and a query parameter stand for.\<close>

definition uri_bytes :: "string \<Rightarrow> http_request \<Rightarrow> string" where
  "uri_bytes buf req =
     (case uri req of
        Uri_null \<Rightarrow> []
      | Uri_buf u \<Rightarrow> take (uri_len req) (drop u buf)
      | Uri_literal s \<Rightarrow> take (uri_len req) s)"

definition param_bytes :: "string \<Rightarrow> http_param \<Rightarrow> string \<times> string option" where
  "param_bytes buf p =
     (take (param_name_len p) (drop (param_name p) buf),
      map_option (\<lambda>v. take (param_value_len p) (drop v buf)) (param_value p))"

text \<open>\<open>http_response_t\<close> of \<open>http_response.h\<close>; \<open>resp_body\<close> is the memory the body pointer
  points to, \<open>content_type_text\<close> is \<open>None\<close> for \<open>NULL\<close> (text/plain).\<close>

record http_response =
  resp_status :: http_status
  resp_body :: "string option"
  body_len :: nat
  bearer_challenge :: bool
  no_store :: bool
  content_type_text :: "string option"

text \<open>\<open>(http_response_t){.status = st}\<close> and \<open>{.status = st, .body = text, .body_len = n}\<close>.\<close>

definition response_status :: "http_status \<Rightarrow> http_response" where
  "response_status st = \<lparr>resp_status = st, resp_body = None, body_len = 0, bearer_challenge = False,
     no_store = False, content_type_text = None\<rparr>"

definition response_text :: "http_status \<Rightarrow> string \<Rightarrow> nat \<Rightarrow> http_response" where
  "response_text st text n = (response_status st)\<lparr>resp_body := Some text, body_len := n\<rparr>"

end
