(* ===== verification/UriQuery.thy ===== *)
theory UriQuery
  imports UriPath HttpTypes
begin

text \<open>
  \<open>src/src/http_request_path.c\<close>, \<open>parse_query_params\<close> and \<open>normalize_uri\<close>: the query
  parameters as slices of the receive buffer, and the normalisation of the request target
  in place.  The routines work on the receive buffer \<open>buf\<close> and the request record; the
  result pairs the record (and the buffer, where it is written) with the C return code.
\<close>

section \<open>Query parameters\<close>

definition NORMALIZE_URI_TOO_MANY_QUERY_PARAMS :: int where
  "NORMALIZE_URI_TOO_MANY_QUERY_PARAMS = -2"

text \<open>The scan \<open>while (i < uri_len && uri[i] != c) i++\<close>.\<close>

function scan_until :: "char \<Rightarrow> string \<Rightarrow> nat \<Rightarrow> nat \<Rightarrow> nat option" where
  "scan_until c s len i =
     (if i < len then do {
        x \<leftarrow> rd s i;
        if x \<noteq> c then scan_until c s len (i + 1) else Some i }
      else Some i)"
  by pat_completeness auto
termination by (relation "measure (\<lambda>(c, s, len, i). len - i)") auto

declare scan_until.simps [simp del]

lemma scan_until_Some:
  "len \<le> length s \<Longrightarrow> i \<le> len \<Longrightarrow>
   scan_until c s len i = Some (i + length (takeWhile (\<lambda>x. x \<noteq> c) (drop i (take len s))))"
proof (induction c s len i rule: scan_until.induct)
  case (1 c s len i)
  then show ?case
    by (subst scan_until.simps) (auto simp: mem_simps drop_take_nth)
qed

lemma scan_until_ge: "scan_until c s len i = Some j \<Longrightarrow> i \<le> j"
proof (induction c s len i rule: scan_until.induct)
  case (1 c s len i)
  then show ?case
    by (subst (asm) (2) scan_until.simps) (fastforce split: if_splits simp: bind_eq_Some_conv)
qed

text \<open>
  The \<open>while (1)\<close> loop over \<open>name=value\<close> pairs.  \<open>s\<close> is the request target, at offset
  \<open>u\<close> of the buffer; \<open>ps\<close> are the parameters stored so far.  The boolean is false when
  the array of parameters is full.
\<close>

function query_loop :: "nat \<Rightarrow> string \<Rightarrow> nat \<Rightarrow> nat \<Rightarrow> http_param list \<Rightarrow> (http_param list \<times> bool) option" where
  "query_loop u s len i ps = do {
     n \<leftarrow> scan_until (CHR ''='') s len i;
     if n \<ge> len then Some (ps, True)
     else if length ps \<ge> MAX_QUERY_PARAMS then Some (ps, False)
     else
       let p = \<lparr>param_name = u + i, param_name_len = n - i, param_value = None, param_value_len = 0\<rparr>;
           j = n + 1
       in if j \<ge> len then Some (ps @ [p], True)
          else do {
            v \<leftarrow> scan_until (CHR ''&'') s len j;
            let p' = p\<lparr>param_value := Some (u + j), param_value_len := v - j\<rparr>;
            if v \<ge> len then Some (ps @ [p'], True)
            else query_loop u s len (v + 1) (ps @ [p'])
          }
   }"
  by pat_completeness auto
termination
  by (relation "measure (\<lambda>(u, s, len, i, ps). len - i)") (auto dest!: scan_until_ge)

declare query_loop.simps [simp del]

text \<open>
  The outer scan for the first question mark.  \<open>fin\<close> is the length of the path part once
  a question mark or a hash has been seen.
\<close>

function query_scan :: "nat \<Rightarrow> string \<Rightarrow> nat \<Rightarrow> nat \<Rightarrow> nat option \<Rightarrow> http_param list
    \<Rightarrow> (nat option \<times> http_param list \<times> bool) option" where
  "query_scan u s len i fin ps =
     (if i < len then do {
        c \<leftarrow> rd s i;
        if c = CHR ''?'' then do {
          let fin' = (case fin of None \<Rightarrow> Some i | Some f \<Rightarrow> Some f);
          (ps', ok) \<leftarrow> query_loop u s len (i + 1) ps;
          Some (fin', ps', ok)
        }
        else if c = CHR ''#'' then
          query_scan u s len (i + 1) (case fin of None \<Rightarrow> Some i | Some f \<Rightarrow> Some f) ps
        else query_scan u s len (i + 1) fin ps
      }
      else Some (fin, ps, True))"
  by pat_completeness auto
termination by (relation "measure (\<lambda>(u, s, len, i, fin, ps). len - i)") auto

declare query_scan.simps [simp del]

definition parse_query_params :: "string \<Rightarrow> http_request \<Rightarrow> (http_request \<times> int) option" where
  "parse_query_params buf req =
     (case uri req of
        Uri_buf u \<Rightarrow> do {
          (fin, ps, ok) \<leftarrow> query_scan u (drop u buf) (uri_len req) 0 None (query_params req);
          if ok then
            Some (req\<lparr>query_params := ps,
                      uri_len := (case fin of None \<Rightarrow> uri_len req | Some f \<Rightarrow> f)\<rparr>, 0)
          else Some (req\<lparr>query_params := ps\<rparr>, -1)
        }
      | _ \<Rightarrow> None)"

section \<open>Normalisation of the request target\<close>

text \<open>The two absolute forms: the authority is dropped, the path begins at the next slash.\<close>

definition strip_absolute :: "string \<Rightarrow> nat \<Rightarrow> nat \<Rightarrow> (nat \<times> nat) option option" where
  "strip_absolute buf path path_len = do {
     t \<leftarrow> rd_bytes buf path path_len;
     let skip = (if path_len \<ge> 7 \<and> case_eq (take 7 t) ''http://'' then 7
                 else if path_len \<ge> 8 \<and> case_eq (take 8 t) ''https://'' then 8 else 0);
     if skip = 0 then Some (Some (path, path_len))
     else Some (case memchr (drop skip t) (CHR ''/'') of
                  Some i \<Rightarrow> Some (path + skip + i, path_len - skip - i)
                | None \<Rightarrow> None)
   }"

definition normalize_uri :: "string \<Rightarrow> http_request \<Rightarrow> (string \<times> http_request \<times> int) option" where
  "normalize_uri buf req = do {
     (req1, r) \<leftarrow> parse_query_params buf req;
     if r < 0 then Some (buf, req1, NORMALIZE_URI_TOO_MANY_QUERY_PARAMS)
     else case uri req1 of
       Uri_buf u \<Rightarrow> do {
         (buf1, new_len) \<leftarrow> at_ptr buf u (\<lambda>b. url_decode b (uri_len req1));
         if new_len < 0 then Some (buf1, req1, -1)
         else do {
           let path_len = nat new_len;
           let req2 = req1\<lparr>uri_len := path_len\<rparr>;
           star \<leftarrow> (if path_len = 1 then do { c \<leftarrow> rd buf1 u; Some (c = CHR ''*'') } else Some False);
           if star then Some (buf1, req2, -1)
           else do {
             target \<leftarrow> strip_absolute buf1 u path_len;
             case target of
               None \<Rightarrow> Some (buf1, req2\<lparr>uri := Uri_literal ''/'', uri_len := 1\<rparr>, 0)
             | Some (path, plen) \<Rightarrow> do {
                 (buf2, n) \<leftarrow> at_ptr buf1 path (\<lambda>b. normalize_path b plen);
                 if n < 0 then Some (buf2, req2, -1)
                 else Some (buf2, req2\<lparr>uri := Uri_buf path, uri_len := nat n\<rparr>, 0)
               }
           }
         }
       }
     | _ \<Rightarrow> None
   }"

section \<open>Specification of the query string\<close>

definition after :: "char \<Rightarrow> string \<Rightarrow> string option" where
  "after c s = (case dropWhile (\<lambda>x. x \<noteq> c) s of [] \<Rightarrow> None | _ # rest \<Rightarrow> Some rest)"

lemma after_length: "after c s = Some t \<Longrightarrow> length t < length s"
  using length_dropWhile_le[of "\<lambda>x. x \<noteq> c" s] by (auto simp: after_def split: list.splits)

lemma after_None: "after c s = None \<longleftrightarrow> c \<notin> set s"
proof -
  have "dropWhile (\<lambda>x. x \<noteq> c) s = [] \<longleftrightarrow> c \<notin> set s" by (auto simp: dropWhile_eq_Nil_conv)
  then show ?thesis unfolding after_def by (cases "dropWhile (\<lambda>x. x \<noteq> c) s") (simp_all only: list.case, auto)
qed

lemma after_drop_take:
  assumes "len \<le> length s" "i \<le> len"
  shows "after c (drop i (take len s)) =
    (let j = i + length (takeWhile (\<lambda>x. x \<noteq> c) (drop i (take len s))) in
     if j \<ge> len then None else Some (drop (j + 1) (take len s)))"
proof -
  define j where "j = i + length (takeWhile (\<lambda>x. x \<noteq> c) (drop i (take len s)))"
  have d: "dropWhile (\<lambda>x. x \<noteq> c) (drop i (take len s)) = drop j (take len s)"
    unfolding j_def dropWhile_eq_drop drop_drop by (simp only: add.commute)
  show ?thesis
  proof (cases "j < len")
    case True
    then have "drop j (take len s) = s ! j # drop (Suc j) (take len s)"
      using assms(1) by (rule drop_take_nth)
    then show ?thesis using True by (simp add: after_def d j_def [symmetric] Let_def)
  next
    case False
    then show ?thesis by (simp add: after_def d j_def [symmetric] Let_def)
  qed
qed

text \<open>The parameters of a query string: a name up to the next \<open>=\<close>, and a value up to the
  next \<open>&\<close>; no value when nothing follows the \<open>=\<close>.\<close>

function split_params :: "string \<Rightarrow> (string \<times> string option) list" where
  "split_params q =
     (case after (CHR ''='') q of
        None \<Rightarrow> []
      | Some rest \<Rightarrow>
          (takeWhile (\<lambda>x. x \<noteq> CHR ''='') q,
           if rest = [] then None else Some (takeWhile (\<lambda>x. x \<noteq> CHR ''&'') rest)) #
          (case after (CHR ''&'') rest of None \<Rightarrow> [] | Some q' \<Rightarrow> split_params q'))"
  by pat_completeness auto
termination
  by (relation "measure length") (auto dest!: after_length)

declare split_params.simps [simp del]

definition path_part :: "string \<Rightarrow> string" where
  "path_part t = takeWhile (\<lambda>c. c \<noteq> CHR ''?'' \<and> c \<noteq> CHR ''#'') t"

definition query_part :: "string \<Rightarrow> (string \<times> string option) list" where
  "query_part t = (case after (CHR ''?'') t of None \<Rightarrow> [] | Some q \<Rightarrow> split_params q)"

text \<open>Slices of the target in terms of the buffer.\<close>

lemma takeWhile_slice:
  assumes "u + len \<le> length buf" "i \<le> len"
  shows "take (length (takeWhile P (drop i (take len (drop u buf))))) (drop (u + i) buf) =
     takeWhile P (drop i (take len (drop u buf)))"
proof -
  let ?D = "drop i (take len (drop u buf))"
  have "length (takeWhile P ?D) \<le> len - i"
    using length_takeWhile_le[of P ?D] assms by simp
  then have "take (length (takeWhile P ?D)) (drop (u + i) buf) = take (length (takeWhile P ?D)) ?D"
    by (simp add: drop_take add.commute min_absorb1)
  also have "\<dots> = takeWhile P ?D" by (rule takeWhile_eq_take [symmetric])
  finally show ?thesis .
qed

definition param_from :: "nat \<Rightarrow> http_param \<Rightarrow> bool" where
  "param_from k p \<longleftrightarrow> k \<le> param_name p \<and> (\<forall>v. param_value p = Some v \<longrightarrow> k \<le> v)"

lemma param_from_mono: "param_from k p \<Longrightarrow> j \<le> k \<Longrightarrow> param_from j p"
  by (auto simp: param_from_def)

lemma param_bytes_cong:
  assumes "param_from k p" "drop k buf = drop k buf'"
  shows "param_bytes buf p = param_bytes buf' p"
proof -
  have "drop j buf = drop j buf'" if "k \<le> j" for j
    using that assms(2) by (metis drop_drop le_add_diff_inverse2)
  then show ?thesis using assms(1)
    by (cases "param_value p") (simp_all add: param_bytes_def param_from_def)
qed

definition query_post :: "nat \<Rightarrow> string \<Rightarrow> nat \<Rightarrow> nat \<Rightarrow> http_param list \<Rightarrow> (string \<times> string option) list
    \<Rightarrow> (http_param list \<times> bool) option \<Rightarrow> bool" where
  "query_post u buf len i ps spec out \<longleftrightarrow>
     (\<exists>new ok. out = Some (ps @ new, ok) \<and> (\<forall>p \<in> set new. param_from (u + i) p) \<and>
        (ok \<longleftrightarrow> length ps + length spec \<le> MAX_QUERY_PARAMS) \<and>
        (ok \<longrightarrow> map (param_bytes buf) new = spec) \<and>
        length (ps @ new) \<le> MAX_QUERY_PARAMS)"

lemma query_post_step:
  assumes "query_post u buf len j (ps @ [p]) spec out" "i \<le> j" "param_from (u + i) p"
    "param_bytes buf p = x"
  shows "query_post u buf len i ps (x # spec) out"
proof -
  obtain new ok where new: "out = Some ((ps @ [p]) @ new, ok)" "\<forall>p \<in> set new. param_from (u + j) p"
    "ok \<longleftrightarrow> length (ps @ [p]) + length spec \<le> MAX_QUERY_PARAMS"
    "ok \<longrightarrow> map (param_bytes buf) new = spec" "length ((ps @ [p]) @ new) \<le> MAX_QUERY_PARAMS"
    using assms(1) unfolding query_post_def by (elim exE conjE) blast
  have "\<forall>q \<in> set (p # new). param_from (u + i) q"
    using new(2) assms(2,3) by (auto intro: param_from_mono)
  moreover have "ok \<longrightarrow> map (param_bytes buf) (p # new) = x # spec"
    using new(4) assms(4) by simp
  ultimately show ?thesis
    unfolding query_post_def using new(1,3,5) by (intro exI[of _ "p # new"] exI[of _ ok]) simp
qed

lemma query_post_done: "length ps \<le> MAX_QUERY_PARAMS \<Longrightarrow> query_post u buf len i ps [] (Some (ps, True))"
  by (auto simp: query_post_def intro!: exI[of _ "[]"])

lemma query_loop_post:
  assumes "u + len \<le> length buf" "i \<le> len" "length ps \<le> MAX_QUERY_PARAMS"
  shows "query_post u buf len i ps (split_params (drop i (take len (drop u buf))))
     (query_loop u (drop u buf) len i ps)"
  using assms
proof (induction u "drop u buf" len i ps rule: query_loop.induct)
  case (1 u len i ps)
  note prems = "1.prems"
  let ?s = "drop u buf"
  let ?q = "drop i (take len ?s)"
  define n where "n = i + length (takeWhile (\<lambda>x. x \<noteq> CHR ''='') ?q)"
  have len: "len \<le> length ?s" using prems by simp
  have n: "scan_until (CHR ''='') ?s len i = Some n"
    using scan_until_Some[OF len prems(2)] by (simp only: n_def)
  have af: "after (CHR ''='') ?q = (if len \<le> n then None else Some (drop (n + 1) (take len ?s)))"
    using after_drop_take[OF len prems(2)] by (simp add: Let_def n_def)
  note unf = query_loop.simps[of u ?s len i ps] n
  show ?case
  proof (cases "len \<le> n")
    case True
    then have "split_params ?q = []" using af by (subst split_params.simps) simp
    then show ?thesis using True query_post_done[OF prems(3)] by (simp add: unf)
  next
    case False
    let ?rest = "drop (n + 1) (take len ?s)"
    let ?j = "n + 1"
    have spec: "split_params ?q = (takeWhile (\<lambda>x. x \<noteq> CHR ''='') ?q,
        if ?rest = [] then None else Some (takeWhile (\<lambda>x. x \<noteq> CHR ''&'') ?rest)) #
        (case after (CHR ''&'') ?rest of None \<Rightarrow> [] | Some q' \<Rightarrow> split_params q')"
      using af False by (subst split_params.simps) simp
    show ?thesis
    proof (cases "MAX_QUERY_PARAMS \<le> length ps")
      case True
      then show ?thesis using False prems(3) spec
        by (auto simp: unf query_post_def)
    next
      case room: False
      let ?p = "\<lparr>param_name = u + i, param_name_len = n - i, param_value = None, param_value_len = 0\<rparr>"
      have pname: "take (n - i) (drop (u + i) buf) = takeWhile (\<lambda>x. x \<noteq> CHR ''='') ?q"
        using takeWhile_slice[OF prems(1,2)] by (simp add: n_def)
      have j: "?j \<le> len" using False by simp
      show ?thesis
      proof (cases "len \<le> ?j")
        case True
        then have "?rest = []" using len by simp
        then have "split_params ?q = [(takeWhile (\<lambda>x. x \<noteq> CHR ''='') ?q, None)]"
          using spec by (simp add: after_def)
        moreover have "query_post u buf len i (ps @ [?p]) [] (Some (ps @ [?p], True))"
          by (rule query_post_done) (use room in simp)
        then have "query_post u buf len i ps [(takeWhile (\<lambda>x. x \<noteq> CHR ''='') ?q, None)] (Some (ps @ [?p], True))"
          by (rule query_post_step) (use pname in \<open>simp_all add: param_from_def param_bytes_def\<close>)
        ultimately show ?thesis using False True room by (simp add: unf Let_def)
      next
        case more: False
        define v where "v = ?j + length (takeWhile (\<lambda>x. x \<noteq> CHR ''&'') ?rest)"
        let ?p' = "?p\<lparr>param_value := Some (u + ?j), param_value_len := v - ?j\<rparr>"
        have v: "scan_until (CHR ''&'') ?s len ?j = Some v"
          using scan_until_Some[OF len j] by (simp only: v_def)
        have av: "after (CHR ''&'') ?rest = (if len \<le> v then None else Some (drop (v + 1) (take len ?s)))"
          using after_drop_take[OF len j] by (simp add: Let_def v_def)
        have ne: "?rest \<noteq> []" using more prems(1) by simp
        have pb: "param_bytes buf ?p' = (takeWhile (\<lambda>x. x \<noteq> CHR ''='') ?q, Some (takeWhile (\<lambda>x. x \<noteq> CHR ''&'') ?rest))"
          using pname takeWhile_slice[OF prems(1) j] by (simp add: param_bytes_def v_def)
        have pf: "param_from (u + i) ?p'" by (simp add: param_from_def n_def)
        have room': "length (ps @ [?p']) \<le> MAX_QUERY_PARAMS" using room by simp
        have "query_post u buf len (v + 1) (ps @ [?p'])
            (case after (CHR ''&'') ?rest of None \<Rightarrow> [] | Some q' \<Rightarrow> split_params q')
            (if len \<le> v then Some (ps @ [?p'], True) else query_loop u ?s len (v + 1) (ps @ [?p']))"
        proof (cases "len \<le> v")
          case True
          then show ?thesis using av query_post_done[OF room'] by simp
        next
          case vs: False
          then have "query_post u buf len (v + 1) (ps @ [?p'])
              (split_params (drop (v + 1) (take len ?s))) (query_loop u ?s len (v + 1) (ps @ [?p']))"
            by (intro "1.hyps"[OF n False room refl refl more v refl vs prems(1) _ room']) simp
          then show ?thesis using av vs by simp
        qed
        then have "query_post u buf len i ps (split_params ?q)
            (if len \<le> v then Some (ps @ [?p'], True) else query_loop u ?s len (v + 1) (ps @ [?p']))"
          unfolding spec if_not_P[OF ne] by (rule query_post_step[OF _ _ pf pb]) (simp add: n_def v_def)
        then show ?thesis using False more room v
          by (cases "len \<le> v") (simp_all add: unf Let_def)
      qed
    qed
  qed
qed

lemma query_part_Cons:
  "query_part (c # t) = (if c = CHR ''?'' then split_params t else query_part t)"
  by (simp add: query_part_def after_def)

lemma path_part_Cons:
  "path_part (c # t) = (if c = CHR ''?'' \<or> c = CHR ''#'' then [] else c # path_part t)"
  by (simp add: path_part_def)

definition scan_post :: "nat \<Rightarrow> string \<Rightarrow> nat \<Rightarrow> nat \<Rightarrow> http_param list \<Rightarrow> (string \<times> string option) list
    \<Rightarrow> (nat option \<times> http_param list \<times> bool) option \<Rightarrow> bool" where
  "scan_post u buf len f ps spec out \<longleftrightarrow>
     (\<exists>fin ps' ok. out = Some (fin, ps', ok) \<and> (case fin of None \<Rightarrow> len | Some g \<Rightarrow> g) = f \<and>
        query_post u buf len f ps spec (Some (ps', ok)))"

lemma query_post_mono: "query_post u buf len i ps spec out \<Longrightarrow> j \<le> i \<Longrightarrow> query_post u buf len j ps spec out"
  unfolding query_post_def by (blast intro: param_from_mono add_left_mono)

lemma query_scan_post:
  assumes "u + len \<le> length buf" "i \<le> len" "length ps \<le> MAX_QUERY_PARAMS"
    "\<forall>f. fin = Some f \<longrightarrow> f \<le> i"
  shows "scan_post u buf len
     (case fin of None \<Rightarrow> i + length (path_part (drop i (take len (drop u buf)))) | Some f \<Rightarrow> f)
     ps (query_part (drop i (take len (drop u buf)))) (query_scan u (drop u buf) len i fin ps)"
  using assms
proof (induction u "drop u buf" len i fin ps rule: query_scan.induct)
  case (1 u len i fin ps)
  note prems = "1.prems"
  let ?s = "drop u buf"
  show ?case
  proof (cases "i < len")
    case False
    then have "drop i (take len ?s) = []" by simp
    moreover have "query_scan u ?s len i fin ps = Some (fin, ps, True)"
      using False by (subst query_scan.simps) simp
    ultimately show ?thesis using False prems(2) query_post_done[OF prems(3)]
      by (auto simp: scan_post_def path_part_def query_part_def after_def split: option.splits)
  next
    case True
    have r: "rd ?s i = Some (?s ! i)" using True prems(1) by (simp add: mem_simps)
    have D: "drop i (take len ?s) = ?s ! i # drop (i + 1) (take len ?s)"
      using drop_take_nth[of i len ?s] True prems(1) by simp
    have i1: "i + 1 \<le> len" using True by simp
    consider (q) "?s ! i = CHR ''?''" | (h) "?s ! i = CHR ''#''" | (o) "?s ! i \<noteq> CHR ''?''" "?s ! i \<noteq> CHR ''#''"
      by blast
    then show ?thesis
    proof cases
      case q
      let ?f = "case fin of None \<Rightarrow> i | Some f \<Rightarrow> f"
      have f: "?f \<le> i + 1" using prems(4) by (auto split: option.splits)
      obtain ps' ok where out: "query_loop u ?s len (i + 1) ps = Some (ps', ok)"
        and post: "query_post u buf len (i + 1) ps (split_params (drop (i + 1) (take len ?s))) (Some (ps', ok))"
        using query_loop_post[OF prems(1) i1 prems(3)] by (auto simp: query_post_def)
      have "query_scan u ?s len i fin ps = Some (Some ?f, ps', ok)"
        using True q out by (subst query_scan.simps) (auto simp: r split: option.splits)
      then show ?thesis using query_post_mono[OF post f] unfolding D
        by (cases fin) (auto simp: scan_post_def q query_part_Cons path_part_Cons)
    next
      case h
      have "scan_post u buf len (case fin of None \<Rightarrow> i | Some f \<Rightarrow> f) ps (query_part (drop (i + 1) (take len ?s)))
          (query_scan u ?s len (i + 1) (case fin of None \<Rightarrow> Some i | Some f \<Rightarrow> Some f) ps)"
        using "1.hyps"(1)[OF True r _ h prems(1) i1 prems(3)] h prems(4) by (cases fin) auto
      then show ?thesis using True h unfolding D
        by (subst query_scan.simps) (cases fin; simp add: r query_part_Cons path_part_Cons)
    next
      case o
      have fin: "\<forall>f. fin = Some f \<longrightarrow> f \<le> i + 1" using prems(4) by auto
      have "scan_post u buf len (case fin of None \<Rightarrow> i + 1 + length (path_part (drop (i + 1) (take len ?s))) | Some f \<Rightarrow> f)
          ps (query_part (drop (i + 1) (take len ?s))) (query_scan u ?s len (i + 1) fin ps)"
        by (rule "1.hyps"(2)[OF True r o prems(1) i1 prems(3) fin])
      then show ?thesis using True o unfolding D
        by (subst query_scan.simps) (cases fin; simp add: r query_part_Cons path_part_Cons)
    qed
  qed
qed

lemma parse_query_params_post:
  assumes "uri req = Uri_buf u" "u + uri_len req \<le> length buf" "query_params req = []"
  defines "t \<equiv> uri_bytes buf req"
  obtains ps where
    "length (query_part t) \<le> MAX_QUERY_PARAMS \<Longrightarrow>
       parse_query_params buf req = Some (req\<lparr>query_params := ps, uri_len := length (path_part t)\<rparr>, 0) \<and>
       map (param_bytes buf) ps = query_part t"
    "length (query_part t) > MAX_QUERY_PARAMS \<Longrightarrow>
       parse_query_params buf req = Some (req\<lparr>query_params := ps\<rparr>, -1)"
    "\<forall>p \<in> set ps. param_from (u + length (path_part t)) p" "length ps \<le> MAX_QUERY_PARAMS"
proof -
  have t: "t = drop 0 (take (uri_len req) (drop u buf))" using assms by (simp add: uri_bytes_def)
  obtain fin ps ok where out: "query_scan u (drop u buf) (uri_len req) 0 None [] = Some (fin, ps, ok)"
    "(case fin of None \<Rightarrow> uri_len req | Some f \<Rightarrow> f) = length (path_part t)"
    "query_post u buf (uri_len req) (length (path_part t)) [] (query_part t) (Some (ps, ok))"
    using query_scan_post[OF assms(2), of 0 "[]" None] unfolding t [symmetric] by (auto simp: scan_post_def)
  then show thesis using that[of ps] assms(1,3)
    by (auto simp: query_post_def parse_query_params_def)
qed

section \<open>Specification of the normalisation\<close>

definition abs_offset :: "string \<Rightarrow> nat option" where
  "abs_offset d =
     (let skip = (if length d \<ge> 7 \<and> case_eq (take 7 d) ''http://'' then 7
                  else if length d \<ge> 8 \<and> case_eq (take 8 d) ''https://'' then 8 else 0)
      in if skip = 0 then Some 0
         else map_option (\<lambda>i. skip + i) (memchr (drop skip d) (CHR ''/'')))"

definition uri_spec :: "string \<Rightarrow> string option" where
  "uri_spec t =
     (case percent_decode (path_part t) of
        None \<Rightarrow> None
      | Some d \<Rightarrow>
          if d = ''*'' then None
          else case abs_offset d of
            None \<Rightarrow> Some ''/''
          | Some k \<Rightarrow>
              if drop k d = [] \<or> hd (drop k d) \<noteq> CHR ''/'' then None
              else map_option render_path (resolve [] (segments (drop k d))))"

lemma abs_offset_le: "abs_offset d = Some k \<Longrightarrow> k \<le> length d"
  by (auto simp: abs_offset_def Let_def dest!: memchr_Some split: if_splits)

lemma strip_absolute_Some:
  assumes "u + n \<le> length buf"
  shows "strip_absolute buf u n =
     Some (map_option (\<lambda>k. (u + k, n - k)) (abs_offset (take n (drop u buf))))"
proof -
  define t where "t = take n (drop u buf)"
  have t: "rd_bytes buf u n = Some t" "length t = n" using assms by (simp_all add: mem_simps t_def)
  define skip where "skip = (if n \<ge> 7 \<and> case_eq (take 7 t) ''http://'' then 7
    else if n \<ge> 8 \<and> case_eq (take 8 t) ''https://'' then 8 else (0::nat))"
  have "abs_offset t = (if skip = 0 then Some 0 else map_option (\<lambda>i. skip + i) (memchr (drop skip t) (CHR ''/'')))"
    unfolding abs_offset_def t(2) skip_def [symmetric] Let_def ..
  moreover have "strip_absolute buf u n = (if skip = 0 then Some (Some (u, n))
      else Some (case memchr (drop skip t) (CHR ''/'') of Some i \<Rightarrow> Some (u + skip + i, n - skip - i) | None \<Rightarrow> None))"
    unfolding strip_absolute_def t(1) bind.bind_lunit skip_def [symmetric] Let_def ..
  ultimately show ?thesis
    unfolding t_def [symmetric] by (cases "memchr (drop skip t) (CHR ''/'')") (simp_all add: add.assoc)
qed

lemma uri_spec_decoded:
  assumes "uri_spec t = Some x"
  shows "(\<exists>d. percent_decode (path_part t) = Some d \<and> d \<noteq> ''*'')"
  using assms unfolding uri_spec_def
  by (cases "percent_decode (path_part t)") (simp_all split: if_splits)
lemma uri_spec_no_path:
  assumes "uri_spec t = Some x" "percent_decode (path_part t) = Some d" "d \<noteq> ''*''" "abs_offset d = None"
  shows "x = render_path []"
  using assms unfolding uri_spec_def by (simp add: render_path_def)
lemma uri_spec_path:
  assumes "uri_spec t = Some x" "percent_decode (path_part t) = Some d" "d \<noteq> ''*''" "abs_offset d = Some k"
  shows "\<exists>st. resolve [] (segments (drop k d)) = Some st \<and> x = render_path st"
  using assms unfolding uri_spec_def by (simp split: if_splits) blast
lemma resolve_segments_good: "resolve [] (segments (drop k d)) = Some st \<Longrightarrow> (\<forall>y \<in> set st. good_segment y)"
  using resolve_good[of "[]"] segments_no_slash[of "drop k d"] by simp

lemma uri_spec_safe:
  assumes "uri_spec t = Some x"
  shows "\<exists>st. x = render_path st \<and> (\<forall>y \<in> set st. good_segment y)"
proof -
  obtain d where d: "percent_decode (path_part t) = Some d" "d \<noteq> ''*''"
    using uri_spec_decoded[OF assms] by blast
  show ?thesis
  proof (cases "abs_offset d")
    case None
    then show ?thesis using uri_spec_no_path[OF assms d] by (intro exI[of _ "[]"] conjI) simp_all
  next
    case (Some k)
    then show ?thesis using uri_spec_path[OF assms d Some] resolve_segments_good by blast
  qed
qed

text \<open>The two in-place routines at a pointer into the buffer.\<close>

lemma url_decode_at:
  assumes "u + n \<le> length buf"
  obtains buf' r where "at_ptr buf u (\<lambda>b. url_decode b n) = Some (buf', r)"
    "length buf' = length buf" "take u buf' = take u buf" "drop (u + n) buf' = drop (u + n) buf"
    "percent_decode (take n (drop u buf)) = None \<Longrightarrow> r = -1"
    "\<And>d. percent_decode (take n (drop u buf)) = Some d \<Longrightarrow>
       r = int (length d) \<and> length d \<le> n \<and> take (length d) (drop u buf') = d"
proof -
  have u: "u \<le> length buf" and le: "n \<le> length (drop u buf)" using assms by simp_all
  have post: "decode_post (drop u buf) n 0 (percent_decode (take n (drop u buf))) (url_decode (drop u buf) n)"
    using url_decode_loop_post[of 0 0 n "drop u buf"] le unfolding url_decode_def by simp
  obtain b r where b: "url_decode (drop u buf) n = Some (b, r)" "length b = length (drop u buf)"
    "drop n b = drop n (drop u buf)"
    "case percent_decode (take n (drop u buf)) of None \<Rightarrow> r = -1
     | Some d \<Rightarrow> r = int (length d) \<and> length d \<le> n \<and> take (length d) b = d"
    using post unfolding decode_post_def by (auto cong: option.case_cong)
  show thesis
    by (rule that[OF at_ptr_Some[of "\<lambda>b. url_decode b n", OF b(1)]]) (use b(2-4) u in \<open>simp_all add: add.commute\<close>)
qed

lemma normalize_path_at:
  assumes "p + n \<le> length buf"
  defines "t \<equiv> take n (drop p buf)"
  obtains buf' r where "at_ptr buf p (\<lambda>b. normalize_path b n) = Some (buf', r)"
    "length buf' = length buf" "take p buf' = take p buf" "drop (p + n) buf' = drop (p + n) buf"
    "t = [] \<or> hd t \<noteq> CHR ''/'' \<or> resolve [] (segments t) = None \<Longrightarrow> r = -1"
    "\<And>st. t \<noteq> [] \<Longrightarrow> hd t = CHR ''/'' \<Longrightarrow> resolve [] (segments t) = Some st \<Longrightarrow>
       r = int (length (render_path st)) \<and> take (length (render_path st)) (drop p buf') = render_path st"
proof -
  have p: "p \<le> length buf" and le: "n \<le> length (drop p buf)" using assms by simp_all
  have hd: "(n = 0 \<or> drop p buf ! 0 \<noteq> CHR ''/'') \<longleftrightarrow> (t = [] \<or> hd t \<noteq> CHR ''/'')"
    using assms by (cases n) (auto simp: t_def hd_conv_nth)
  obtain b r where b: "normalize_path (drop p buf) n = Some (b, r)" "length b = length (drop p buf)"
    "drop n b = drop n (drop p buf)"
    "case (if t = [] \<or> hd t \<noteq> CHR ''/'' then None else resolve [] (segments t)) of None \<Rightarrow> r = -1
     | Some st \<Rightarrow> r = int (length (render_path st)) \<and> length (render_path st) \<le> n \<and>
         take (length (render_path st)) b = render_path st"
    using normalize_path_post[OF le] unfolding hd t_def [symmetric] normalize_post_def by blast
  show thesis
    by (rule that[OF at_ptr_Some[of "\<lambda>b. normalize_path b n", OF b(1)]]) (use b(2-4) p in \<open>auto simp: add.commute split: if_splits\<close>)
qed

text \<open>The part of \<open>normalize_uri\<close> behind the query parameters.\<close>

definition uri_tail :: "string \<Rightarrow> http_request \<Rightarrow> nat \<Rightarrow> nat \<Rightarrow> (string \<times> http_request \<times> int) option" where
  "uri_tail buf req u n =
     (case abs_offset (take n (drop u buf)) of
        None \<Rightarrow> Some (buf, req\<lparr>uri := Uri_literal ''/'', uri_len := 1\<rparr>, 0)
      | Some k \<Rightarrow> do {
          (buf2, r) \<leftarrow> at_ptr buf (u + k) (\<lambda>b. normalize_path b (n - k));
          if r < 0 then Some (buf2, req, -1)
          else Some (buf2, req\<lparr>uri := Uri_buf (u + k), uri_len := nat r\<rparr>, 0) })"

definition tail_spec :: "string \<Rightarrow> string option" where
  "tail_spec d =
     (case abs_offset d of
        None \<Rightarrow> Some ''/''
      | Some k \<Rightarrow>
          if drop k d = [] \<or> hd (drop k d) \<noteq> CHR ''/'' then None
          else map_option render_path (resolve [] (segments (drop k d))))"

definition uri_post :: "string \<Rightarrow> http_request \<Rightarrow> nat \<Rightarrow> nat \<Rightarrow> string option \<Rightarrow> (string \<times> http_request \<times> int) option \<Rightarrow> bool" where
  "uri_post buf req u n spec out \<longleftrightarrow>
     (\<exists>buf' req' r. out = Some (buf', req', r) \<and> length buf' = length buf \<and>
        take u buf' = take u buf \<and> drop (u + n) buf' = drop (u + n) buf \<and>
        query_params req' = query_params req \<and>
        (case spec of None \<Rightarrow> r = -1 | Some x \<Rightarrow> r = 0 \<and> uri_bytes buf' req' = x))"

lemma uri_tail_post:
  assumes "u + n \<le> length buf"
  shows "uri_post buf req u n (tail_spec (take n (drop u buf))) (uri_tail buf req u n)"
proof -
  define d where "d = take n (drop u buf)"
  show ?thesis
  proof (cases "abs_offset d")
    case None
    then show ?thesis
      by (simp add: uri_post_def uri_tail_def tail_spec_def d_def [symmetric] uri_bytes_def)
  next
    case (Some k)
    have k: "k \<le> n" using abs_offset_le[OF Some] assms by (simp add: d_def)
    have t: "take (n - k) (drop (u + k) buf) = drop k d"
      by (simp add: d_def drop_take add.commute)
    have fits: "u + k + (n - k) \<le> length buf" using assms k by simp
    obtain buf2 r where b2: "at_ptr buf (u + k) (\<lambda>b. normalize_path b (n - k)) = Some (buf2, r)"
      "length buf2 = length buf" "take (u + k) buf2 = take (u + k) buf" "drop (u + n) buf2 = drop (u + n) buf"
      and bad: "drop k d = [] \<or> hd (drop k d) \<noteq> CHR ''/'' \<or> resolve [] (segments (drop k d)) = None \<Longrightarrow> r = -1"
      and good: "\<And>st. drop k d \<noteq> [] \<Longrightarrow> hd (drop k d) = CHR ''/'' \<Longrightarrow> resolve [] (segments (drop k d)) = Some st \<Longrightarrow>
        r = int (length (render_path st)) \<and> take (length (render_path st)) (drop (u + k) buf2) = render_path st"
      using normalize_path_at[OF fits] k unfolding t by auto
    have tk: "take u buf2 = take u buf"
      using arg_cong[OF b2(3), of "take u"] by (simp add: min_absorb1)
    have out: "uri_tail buf req u n = (if r < 0 then Some (buf2, req, -1)
        else Some (buf2, req\<lparr>uri := Uri_buf (u + k), uri_len := nat r\<rparr>, 0))"
      by (simp add: uri_tail_def d_def [symmetric] Some b2(1))
    show ?thesis
    proof (cases "drop k d = [] \<or> hd (drop k d) \<noteq> CHR ''/'' \<or> resolve [] (segments (drop k d)) = None")
      case True
      then have "tail_spec d = None" by (auto simp: tail_spec_def Some)
      then show ?thesis using bad[OF True] out b2 tk by (simp add: uri_post_def d_def [symmetric])
    next
      case False
      then obtain st where st: "resolve [] (segments (drop k d)) = Some st" by blast
      then have "tail_spec d = Some (render_path st)" using False by (simp add: tail_spec_def Some)
      then show ?thesis using good[OF _ _ st] False out b2 tk
        by (simp add: uri_post_def d_def [symmetric] uri_bytes_def)
    qed
  qed
qed

definition star_test :: "string \<Rightarrow> nat \<Rightarrow> nat \<Rightarrow> bool option" where
  "star_test buf u n = (if n = 1 then do { c \<leftarrow> rd buf u; Some (c = CHR ''*'') } else Some False)"

lemma star_test_Some:
  assumes "u + n \<le> length buf"
  shows "star_test buf u n = Some (take n (drop u buf) = ''*'')"
proof (cases "n = 1")
  case True
  then show ?thesis using assms by (simp add: star_test_def mem_simps take_Suc_conv_app_nth)
next
  case False
  have "length (take n (drop u buf)) = n" using assms by simp
  with False have "take n (drop u buf) \<noteq> ''*''" by (metis One_nat_def length_Cons list.size(3))
  then show ?thesis using False by (simp add: star_test_def)
qed

lemma normalize_uri_unfold:
  assumes "parse_query_params buf req = Some (req1, 0)" "uri req1 = Uri_buf u"
    "at_ptr buf u (\<lambda>b. url_decode b (uri_len req1)) = Some (buf1, r)"
    "nat r \<le> uri_len req1" "u + uri_len req1 \<le> length buf1"
  shows "normalize_uri buf req =
    (if r < 0 then Some (buf1, req1, -1)
     else if take (nat r) (drop u buf1) = ''*'' then Some (buf1, req1\<lparr>uri_len := nat r\<rparr>, -1)
     else uri_tail buf1 (req1\<lparr>uri_len := nat r\<rparr>) u (nat r))"
proof -
  have fits: "u + nat r \<le> length buf1" using assms(4,5) by simp
  have "normalize_uri buf req =
    (if r < 0 then Some (buf1, req1, -1)
     else do { star \<leftarrow> star_test buf1 u (nat r);
       if star then Some (buf1, req1\<lparr>uri_len := nat r\<rparr>, -1)
       else do { target \<leftarrow> strip_absolute buf1 u (nat r);
         case target of
           None \<Rightarrow> Some (buf1, req1\<lparr>uri_len := nat r, uri := Uri_literal ''/'', uri_len := 1\<rparr>, 0)
         | Some (path, plen) \<Rightarrow> do {
             (buf2, n) \<leftarrow> at_ptr buf1 path (\<lambda>b. normalize_path b plen);
             if n < 0 then Some (buf2, req1\<lparr>uri_len := nat r\<rparr>, -1)
             else Some (buf2, req1\<lparr>uri_len := nat r, uri := Uri_buf path, uri_len := nat n\<rparr>, 0) } } })"
    unfolding normalize_uri_def star_test_def Let_def by (simp add: assms(1-3))
  then show ?thesis
    unfolding star_test_Some[OF fits] strip_absolute_Some[OF fits] uri_tail_def
    by (cases "abs_offset (take (nat r) (drop u buf1))") simp_all
qed

lemma take_path_part: "take (length (path_part t)) t = path_part t"
  unfolding path_part_def by (rule takeWhile_eq_take [symmetric])

lemma normalize_uri_post:
  assumes "uri req = Uri_buf u" "u + uri_len req \<le> length buf"
    "parse_query_params buf req = Some (req1, 0)" "uri req1 = Uri_buf u" "uri_len req1 = length (path_part t)"
    "t = uri_bytes buf req"
  shows "uri_post buf req1 u (uri_len req1) (uri_spec t) (normalize_uri buf req)"
proof -
  have t: "t = take (uri_len req) (drop u buf)" using assms(1,6) by (simp add: uri_bytes_def)
  have le: "uri_len req1 \<le> uri_len req"
    using length_takeWhile_le[of _ t] assms(2,5) t by (metis length_take length_drop min.bounded_iff path_part_def)
  have pp: "take (uri_len req1) (drop u buf) = path_part t"
    using take_path_part[of t] le assms(5) t by (simp add: min_absorb1)
  have fits: "u + uri_len req1 \<le> length buf" using le assms(2) by simp
  obtain buf1 r where b1: "at_ptr buf u (\<lambda>b. url_decode b (uri_len req1)) = Some (buf1, r)"
    "length buf1 = length buf" "take u buf1 = take u buf" "drop (u + uri_len req1) buf1 = drop (u + uri_len req1) buf"
    and bad: "percent_decode (path_part t) = None \<Longrightarrow> r = -1"
    and good: "\<And>d. percent_decode (path_part t) = Some d \<Longrightarrow>
       r = int (length d) \<and> length d \<le> uri_len req1 \<and> take (length d) (drop u buf1) = d"
    using url_decode_at[OF fits] unfolding pp by blast
  show ?thesis
  proof (cases "percent_decode (path_part t)")
    case None
    then have "uri_spec t = None" by (simp add: uri_spec_def)
    moreover have "normalize_uri buf req = Some (buf1, req1, -1)"
      using normalize_uri_unfold[OF assms(3,4) b1(1)] bad[OF None] fits b1(2) by simp
    ultimately show ?thesis using b1 by (simp add: uri_post_def)
  next
    case (Some d)
    note d = good[OF Some]
    have spec: "uri_spec t = (if d = ''*'' then None else tail_spec d)"
      by (simp add: uri_spec_def tail_spec_def Some)
    have unf: "normalize_uri buf req = (if d = ''*'' then Some (buf1, req1\<lparr>uri_len := length d\<rparr>, -1)
        else uri_tail buf1 (req1\<lparr>uri_len := length d\<rparr>) u (length d))"
      using normalize_uri_unfold[OF assms(3,4) b1(1)] d fits b1(2) by simp
    have fits': "u + length d \<le> length buf1" using d fits b1(2) by simp
    have tail: "uri_post buf1 (req1\<lparr>uri_len := length d\<rparr>) u (length d) (tail_spec d)
        (uri_tail buf1 (req1\<lparr>uri_len := length d\<rparr>) u (length d))"
      using uri_tail_post[OF fits'] d by simp
    have widen: "drop (u + uri_len req1) b = drop (u + uri_len req1) buf1"
      if "drop (u + length d) b = drop (u + length d) buf1" for b :: string
      using arg_cong[OF that, of "drop (uri_len req1 - length d)"] d by (simp add: add.commute)
    show ?thesis
    proof (cases "d = ''*''")
      case True
      then show ?thesis using b1 unfolding spec unf uri_post_def by simp
    next
      case False
      have qp: "query_params (req1\<lparr>uri_len := length d\<rparr>) = query_params req1" by simp
      obtain buf2 req2 r2 where out: "uri_tail buf1 (req1\<lparr>uri_len := length d\<rparr>) u (length d) = Some (buf2, req2, r2)"
        "length buf2 = length buf1" "take u buf2 = take u buf1" "drop (u + length d) buf2 = drop (u + length d) buf1"
        "query_params req2 = query_params req1"
        "case tail_spec d of None \<Rightarrow> r2 = -1 | Some x \<Rightarrow> r2 = 0 \<and> uri_bytes buf2 req2 = x"
        using tail unfolding uri_post_def qp by blast
      show ?thesis unfolding uri_post_def spec unf if_not_P[OF False]
        by (intro exI[of _ buf2] exI[of _ req2] exI[of _ r2] conjI)
          (simp_all only: out b1 widen[OF out(4)])
    qed
  qed
qed

lemma normalize_uri_main:
  assumes "uri req = Uri_buf u" "u + uri_len req \<le> length buf" "query_params req = []"
  shows "\<exists>buf' req' r. normalize_uri buf req = Some (buf', req', r) \<and> length buf' = length buf \<and>
     take u buf' = take u buf \<and> drop (u + uri_len req) buf' = drop (u + uri_len req) buf \<and>
     (if length (query_part (uri_bytes buf req)) > MAX_QUERY_PARAMS
      then r = NORMALIZE_URI_TOO_MANY_QUERY_PARAMS
      else (case uri_spec (uri_bytes buf req) of
              None \<Rightarrow> r = -1
            | Some x \<Rightarrow> r = 0 \<and> uri_bytes buf' req' = x \<and>
                (\<exists>st. x = render_path st \<and> (\<forall>y \<in> set st. good_segment y))) \<and>
           map (param_bytes buf') (query_params req') = query_part (uri_bytes buf req))"
proof -
  let ?t = "uri_bytes buf req"
  obtain ps where ok: "length (query_part ?t) \<le> MAX_QUERY_PARAMS \<Longrightarrow>
       parse_query_params buf req = Some (req\<lparr>query_params := ps, uri_len := length (path_part ?t)\<rparr>, 0) \<and>
       map (param_bytes buf) ps = query_part ?t"
    and many: "length (query_part ?t) > MAX_QUERY_PARAMS \<Longrightarrow>
       parse_query_params buf req = Some (req\<lparr>query_params := ps\<rparr>, -1)"
    and from_k: "\<forall>p \<in> set ps. param_from (u + length (path_part ?t)) p"
    by (rule parse_query_params_post[OF assms]) blast
  show ?thesis
  proof (cases "length (query_part ?t) > MAX_QUERY_PARAMS")
    case True
    then show ?thesis using many by (simp add: normalize_uri_def)
  next
    case False
    let ?req1 = "req\<lparr>query_params := ps, uri_len := length (path_part ?t)\<rparr>"
    have p: "parse_query_params buf req = Some (?req1, 0)" "map (param_bytes buf) ps = query_part ?t"
      using ok False by simp_all
    obtain buf' req' r where out: "normalize_uri buf req = Some (buf', req', r)" "length buf' = length buf"
      "take u buf' = take u buf" "drop (u + length (path_part ?t)) buf' = drop (u + length (path_part ?t)) buf"
      "query_params req' = ps"
      "case uri_spec ?t of None \<Rightarrow> r = -1 | Some x \<Rightarrow> r = 0 \<and> uri_bytes buf' req' = x"
      using normalize_uri_post[OF assms(1,2) p(1) _ _ refl] assms(1) unfolding uri_post_def by auto
    have "param_bytes buf' q = param_bytes buf q" if "q \<in> set ps" for q
      using param_bytes_cong[OF _ out(4)] from_k that by blast
    then have "map (param_bytes buf') (query_params req') = query_part ?t"
      using p(2) out(5) by (simp cong: map_cong)
    moreover have "case uri_spec ?t of None \<Rightarrow> r = -1 | Some x \<Rightarrow> r = 0 \<and> uri_bytes buf' req' = x \<and>
                (\<exists>st. x = render_path st \<and> (\<forall>y \<in> set st. good_segment y))"
      using out(6) uri_spec_safe by (cases "uri_spec ?t") simp_all
    moreover have "drop (u + uri_len req) buf' = drop (u + uri_len req) buf"
    proof -
      define m where "m = length (path_part ?t)"
      have "m \<le> length ?t" unfolding m_def path_part_def by (rule length_takeWhile_le)
      moreover have "length ?t \<le> uri_len req" using assms(1) by (simp add: uri_bytes_def)
      ultimately have "u + uri_len req = (uri_len req - m) + (u + m)" by simp
      then show ?thesis using out(4) unfolding m_def [symmetric] by (metis drop_drop)
    qed
    ultimately show ?thesis unfolding if_not_P[OF False] using out(1,2,3)
      by (intro exI[of _ buf'] exI[of _ req'] exI[of _ r] conjI)
  qed
qed


section \<open>Properties\<close>

text \<open>
  C25.  The query parameters: for a request target inside the receive buffer,
  \<open>parse_query_params\<close> never reads outside the buffer and never stores more than
  \<open>MAX_QUERY_PARAMS\<close> entries.  If the query string has at most that many parameters it
  returns 0, the slices stored in the request are exactly the parameters of the query
  string in order, and the target is cut at the first \<open>?\<close> or \<open>#\<close>; otherwise it
  returns \<open>-1\<close>.
\<close>

theorem parse_query_params_correct:
  assumes "uri req = Uri_buf u" "u + uri_len req \<le> length buf" "query_params req = []"
  shows "\<exists>ps. length ps \<le> MAX_QUERY_PARAMS \<and>
     (if length (query_part (uri_bytes buf req)) \<le> MAX_QUERY_PARAMS then
        parse_query_params buf req =
          Some (req\<lparr>query_params := ps, uri_len := length (path_part (uri_bytes buf req))\<rparr>, 0) \<and>
        map (param_bytes buf) ps = query_part (uri_bytes buf req)
      else parse_query_params buf req = Some (req\<lparr>query_params := ps\<rparr>, -1))"
  by (rule parse_query_params_post[OF assms]) (metis leI)

theorem parse_query_params_correct_witness:
  "\<exists>ps. map (param_bytes ''GET /a?id=5&k= HTTP'') ps = [(''id'', Some ''5''), (''k'', None)]"
proof -
  let ?b = "''GET /a?id=5&k= HTTP''" and ?req = "zero_request\<lparr>uri := Uri_buf 4, uri_len := 10\<rparr>"
  have q: "query_part (uri_bytes ?b ?req) = [(''id'', Some ''5''), (''k'', None)]"
    by code_simp
  have le: "length (query_part (uri_bytes ?b ?req)) \<le> MAX_QUERY_PARAMS"
    unfolding q by (simp add: MAX_QUERY_PARAMS_def)
  have pre: "uri ?req = Uri_buf 4" "4 + uri_len ?req \<le> length ?b" "query_params ?req = []"
    by (simp_all add: zero_request_def)
  have "\<exists>ps. map (param_bytes ?b) ps = query_part (uri_bytes ?b ?req)"
    using parse_query_params_correct[OF pre] unfolding if_P[OF le] by blast
  then show ?thesis unfolding q .
qed

text \<open>
  C26.  The normalisation of the request target: for a target inside the receive buffer,
  \<open>normalize_uri\<close> never accesses memory outside the buffer.  It returns \<open>-2\<close> exactly for
  more than 32 query parameters; otherwise \<open>0\<close> exactly when the decoded path is accepted
  by the specification \<open>uri_spec\<close>, and \<open>-1\<close> when it is not.  The in-place rewriting of
  the path leaves the rest of the buffer (headers and body) and the query parameters, which
  are slices of it, intact, and
  every accepted target is a printed stack of segments without \<open>.\<close>, \<open>..\<close> or empty
  segments: percent-encoded dots cannot escape the root.
\<close>

theorem normalize_uri_correct:
  assumes "uri req = Uri_buf u" "u + uri_len req \<le> length buf" "query_params req = []"
  shows "\<exists>buf' req' r. normalize_uri buf req = Some (buf', req', r) \<and> length buf' = length buf \<and>
     take u buf' = take u buf \<and> drop (u + uri_len req) buf' = drop (u + uri_len req) buf \<and>
     (if length (query_part (uri_bytes buf req)) > MAX_QUERY_PARAMS
      then r = NORMALIZE_URI_TOO_MANY_QUERY_PARAMS
      else (case uri_spec (uri_bytes buf req) of
              None \<Rightarrow> r = -1
            | Some x \<Rightarrow> r = 0 \<and> uri_bytes buf' req' = x \<and>
                (\<exists>st. x = render_path st \<and> (\<forall>y \<in> set st. good_segment y))) \<and>
           map (param_bytes buf') (query_params req') = query_part (uri_bytes buf req))"
  by (rule normalize_uri_main[OF assms])

theorem normalize_uri_correct_witness:
  "\<exists>buf' req'. normalize_uri ''/x/%2e%2E/a%20b/?id=7 HTTP'' (zero_request\<lparr>uri := Uri_buf 0, uri_len := 21\<rparr>) =
     Some (buf', req', 0) \<and> uri_bytes buf' req' = ''/a b'' \<and>
     map (param_bytes buf') (query_params req') = [(''id'', Some ''7'')]"
proof -
  let ?b = "''/x/%2e%2E/a%20b/?id=7 HTTP''" and ?req = "zero_request\<lparr>uri := Uri_buf 0, uri_len := 21\<rparr>"
  have "query_part (uri_bytes ?b ?req) = [(''id'', Some ''7'')]" by code_simp
  moreover have "uri_spec (uri_bytes ?b ?req) = Some ''/a b''" by code_simp
  ultimately show ?thesis
    using normalize_uri_correct[of ?req 0 ?b] by (auto simp: zero_request_def MAX_QUERY_PARAMS_def)
qed

end
