(* ===== verification/RequestParser.thy ===== *)
theory RequestParser
  imports UriQuery
begin

text \<open>
  \<open>src/src/http_request.c\<close>: the incremental request parser.  The receive buffer is kept
  as the list of the bytes received so far (\<open>s->buf[0..buf_len)\<close>, capacity
  \<open>MAX_REQUEST_BYTES\<close>), so that a read behind them is \<open>None\<close>; pointers are offsets.
  Each state of the parser is one definition, and \<open>chunk_loop\<close> is the \<open>for\<close> loop of
  \<open>parse_chunk\<close>.
\<close>

unbundle bit_operations_syntax

section \<open>Parser state\<close>

datatype parse_state =
    STATE_REQ_METHOD | STATE_REQ_URI | STATE_REQ_VERSION | STATE_REQ_LF
  | STATE_HEADER_KEY | STATE_HEADER_NAME | STATE_HEADER_VALUE | STATE_HEADER_LF
  | STATE_HEADER_END | STATE_BODY | STATE_DONE | STATE_ERROR

text \<open>\<open>s->state < STATE_BODY\<close>: the order of the enumeration.\<close>

definition before_body :: "parse_state \<Rightarrow> bool" where
  "before_body st \<longleftrightarrow> st \<notin> {STATE_BODY, STATE_DONE, STATE_ERROR}"

definition MAX_HEADER_BYTES :: nat where "MAX_HEADER_BYTES = 4096"
definition MAX_REQUEST_BYTES :: nat where "MAX_REQUEST_BYTES = 64 * 1024"

record parser_state =
  buf :: string
  state :: parse_state
  method_ptr :: "nat option"
  method_len :: nat
  version_ptr :: "nat option"
  version_len :: nat

definition init_state :: parser_state where
  "init_state = \<lparr>buf = [], state = STATE_REQ_METHOD, method_ptr = None, method_len = 0,
     version_ptr = None, version_len = 0\<rparr>"

definition is_whitespace :: "char \<Rightarrow> bool" where
  "is_whitespace c \<longleftrightarrow> c = CHR '' '' \<or> c = CHR 0x09 \<or> c = CHR 0x0D \<or> c = CHR 0x0A"

section \<open>The method: comparison of the first eight bytes as one word\<close>

text \<open>\<open>memcpy(&v, cur, 8)\<close> on a little-endian machine.\<close>

definition load_le64 :: "string \<Rightarrow> 64 word" where
  "load_le64 b = of_nat (horner_sum of_char 256 b)"

definition METHOD_VALUE_GET :: "64 word" where "METHOD_VALUE_GET = 0x0000000020544547"
definition METHOD_VALUE_HEAD :: "64 word" where "METHOD_VALUE_HEAD = 0x0000002044414548"
definition METHOD_VALUE_OPTIONS :: "64 word" where "METHOD_VALUE_OPTIONS = 0x20534e4f4954504f"
definition METHOD_VALUE_TRACE :: "64 word" where "METHOD_VALUE_TRACE = 0x0000204543415254"
definition METHOD_VALUE_PUT :: "64 word" where "METHOD_VALUE_PUT = 0x0000000020545550"
definition METHOD_VALUE_DELETE :: "64 word" where "METHOD_VALUE_DELETE = 0x00204554454c4544"
definition METHOD_VALUE_POST :: "64 word" where "METHOD_VALUE_POST = 0x0000002054534f50"
definition METHOD_VALUE_PATCH :: "64 word" where "METHOD_VALUE_PATCH = 0x0000204843544150"
definition METHOD_VALUE_CONNECT :: "64 word" where "METHOD_VALUE_CONNECT = 0x205443454e4e4f43"

definition parse_method :: "64 word \<Rightarrow> (http_method \<times> nat) option" where
  "parse_method v =
     (if v AND 0x00000000ffffffff = METHOD_VALUE_GET then Some (HTTP_METHOD_GET, 3)
      else if v AND 0x00000000ffffffff = METHOD_VALUE_PUT then Some (HTTP_METHOD_PUT, 3)
      else if v AND 0x000000ffffffffff = METHOD_VALUE_POST then Some (HTTP_METHOD_POST, 4)
      else if v AND 0x000000ffffffffff = METHOD_VALUE_HEAD then Some (HTTP_METHOD_HEAD, 4)
      else if v AND 0x0000ffffffffffff = METHOD_VALUE_PATCH then Some (HTTP_METHOD_PATCH, 5)
      else if v AND 0x0000ffffffffffff = METHOD_VALUE_TRACE then Some (HTTP_METHOD_TRACE, 5)
      else if v AND 0x00ffffffffffffff = METHOD_VALUE_DELETE then Some (HTTP_METHOD_DELETE, 6)
      else if v = METHOD_VALUE_OPTIONS then Some (HTTP_METHOD_OPTIONS, 7)
      else if v = METHOD_VALUE_CONNECT then Some (HTTP_METHOD_CONNECT, 7)
      else None)"

section \<open>The version and the headers\<close>

definition parse_version :: "string \<Rightarrow> nat \<Rightarrow> nat \<Rightarrow> http_version option option" where
  "parse_version b cur len =
     (if len \<noteq> 8 then Some None
      else do {
        v \<leftarrow> rd_bytes b cur 8;
        if v ! 0 \<noteq> CHR ''H'' \<or> v ! 1 \<noteq> CHR ''T'' \<or> v ! 2 \<noteq> CHR ''T'' \<or> v ! 3 \<noteq> CHR ''P'' \<or>
           v ! 4 \<noteq> CHR ''/'' \<or> v ! 6 \<noteq> CHR ''.'' then Some None
        else if \<not> is_digit (v ! 5) then Some None
        else if \<not> is_digit (v ! 7) then Some None
        else if digit_val (v ! 5) = 1 then
          if digit_val (v ! 7) = 0 then Some (Some HTTP_VERSION_1_0)
          else if digit_val (v ! 7) = 1 then Some (Some HTTP_VERSION_1_1)
          else Some None
        else Some None })"

text \<open>\<open>c | 0x20\<close>.\<close>

definition or_0x20 :: "char \<Rightarrow> char" where
  "or_0x20 c = char_of ((of_char c :: nat) OR 32)"

text \<open>\<open>strncasecmp(p, name, n) == 0\<close> for a literal of length \<open>n\<close>.\<close>

definition name_eq :: "string \<Rightarrow> nat \<Rightarrow> string \<Rightarrow> bool option" where
  "name_eq b p name = map_option (\<lambda>x. case_eq x name) (rd_bytes b p (length name))"

fun get_header_loop :: "string \<Rightarrow> http_header list \<Rightarrow> string \<Rightarrow> http_header option option" where
  "get_header_loop b [] name = Some None"
| "get_header_loop b (h # hs) name =
     (if hdr_name_len h \<noteq> length name then get_header_loop b hs name
      else case hdr_name h of
        None \<Rightarrow> None
      | Some p \<Rightarrow> do {
          c \<leftarrow> rd b p;
          d \<leftarrow> rd name 0;
          if or_0x20 c \<noteq> or_0x20 d then get_header_loop b hs name
          else do {
            eq \<leftarrow> name_eq b p name;
            if eq then Some (Some h) else get_header_loop b hs name } })"

definition http_request_get_header :: "string \<Rightarrow> http_request \<Rightarrow> string \<Rightarrow> http_header option option" where
  "http_request_get_header b req name =
     (if header_count req \<le> length (headers req)
      then get_header_loop b (take (header_count req) (headers req)) name else None)"

text \<open>The value of \<open>Content-Length\<close>: decimal digits, rejected before \<open>size_t\<close> overflows.\<close>

fun parse_size :: "string \<Rightarrow> nat \<Rightarrow> nat option" where
  "parse_size [] value = Some value"
| "parse_size (c # cs) value =
     (if \<not> is_digit c \<or> value > (SIZE_MAX - digit_val c) div 10 then None
      else parse_size cs (value * 10 + digit_val c))"

definition value_bytes :: "string \<Rightarrow> http_header \<Rightarrow> string option" where
  "value_bytes b h =
     (if hdr_value_len h = 0 then Some []
      else case hdr_value h of None \<Rightarrow> None | Some v \<Rightarrow> rd_bytes b v (hdr_value_len h))"

definition parse_header :: "string \<Rightarrow> http_request \<Rightarrow> http_header \<Rightarrow> http_request option option" where
  "parse_header b req h =
     (case hdr_name h of
        None \<Rightarrow> None
      | Some p \<Rightarrow> do {
          c \<leftarrow> rd b p;
          if or_0x20 c = CHR ''c'' then do {
            cl \<leftarrow> (if hdr_name_len h = 14 then name_eq b p ''Content-Length'' else Some False);
            if cl then do {
              old \<leftarrow> (if hdr_value_len h = 0 then Some None
                     else http_request_get_header b req ''Content-Length'');
              if hdr_value_len h = 0 \<or> old \<noteq> None then Some None
              else do {
                v \<leftarrow> value_bytes b h;
                Some (map_option (\<lambda>n. req\<lparr>content_length := n\<rparr>) (parse_size v 0)) } }
            else do {
              ct \<leftarrow> (if hdr_name_len h = 12 then name_eq b p ''Content-Type'' else Some False);
              Some (Some (if ct then req\<lparr>content_type := hdr_value h\<rparr> else req)) } }
          else if or_0x20 c = CHR ''t'' then do {
            te \<leftarrow> (if hdr_name_len h = 17 then name_eq b p ''Transfer-Encoding'' else Some False);
            Some (if te then None else Some req) }
          else if or_0x20 c = CHR ''h'' then do {
            ho \<leftarrow> (if hdr_name_len h = 4 then name_eq b p ''Host'' else Some False);
            Some (Some (if ho then req\<lparr>host := hdr_value h\<rparr> else req)) }
          else Some (Some req) })"

section \<open>One byte of the loop\<close>

text \<open>
  What a round of the loop does: go on with the next byte (\<open>Next\<close>, with the index of the
  byte just handled), or return an error code and the status of the response.
\<close>

datatype chunk_step =
    Next http_request parser_state nat
  | Return http_request parser_state error_code http_status

definition fail :: "http_request \<Rightarrow> parser_state \<Rightarrow> http_status \<Rightarrow> chunk_step" where
  "fail req s status = Return req (s\<lparr>state := STATE_ERROR\<rparr>) ERR_HTTP_PARSE_FAILED status"

definition step_method :: "http_request \<Rightarrow> parser_state \<Rightarrow> nat \<Rightarrow> nat \<Rightarrow> chunk_step option" where
  "step_method req s i end_idx =
     (let m = (case method_ptr s of None \<Rightarrow> i | Some m \<Rightarrow> m);
          s1 = s\<lparr>method_ptr := Some m\<rparr> in
      if end_idx - m < 8 then Some (Return req s1 ERR_MORE_DATA_NEEDED HTTP_STATUS_OK)
      else do {
        b \<leftarrow> rd_bytes (buf s) m 8;
        Some (case parse_method (load_le64 b) of
                None \<Rightarrow> fail req s1 HTTP_STATUS_NOT_IMPLEMENTED
              | Some (meth, n) \<Rightarrow>
                  Next (req\<lparr>method := meth\<rparr>) (s1\<lparr>method_len := n, state := STATE_REQ_URI\<rparr>) (m + n))
      })"

definition step_uri :: "http_request \<Rightarrow> parser_state \<Rightarrow> nat \<Rightarrow> char \<Rightarrow> chunk_step option" where
  "step_uri req s i cur =
     (let req1 = (if uri req = Uri_null then req\<lparr>uri := Uri_buf i\<rparr> else req) in
      if cur = CHR '' '' then
        case uri req1 of
          Uri_buf u \<Rightarrow>
            let req2 = req1\<lparr>uri_len := i - u\<rparr>; s2 = s\<lparr>state := STATE_REQ_VERSION\<rparr> in
            if uri_len req2 = 0 then Some (fail req2 s2 HTTP_STATUS_BAD_REQUEST)
            else Some (Next req2 s2 i)
        | _ \<Rightarrow> None
      else if cur = CHR 0x0D \<or> cur = CHR 0x0A then Some (fail req1 s HTTP_STATUS_BAD_REQUEST)
      else Some (Next req1 s i))"

definition step_version :: "http_request \<Rightarrow> parser_state \<Rightarrow> nat \<Rightarrow> char \<Rightarrow> chunk_step option" where
  "step_version req s i cur =
     (let v = (case version_ptr s of None \<Rightarrow> i | Some v \<Rightarrow> v);
          s1 = s\<lparr>version_ptr := Some v\<rparr> in
      if cur = CHR 0x0D \<or> cur = CHR 0x0A then
        do {
          let s2 = s1\<lparr>version_len := i - v,
                      state := (if cur = CHR 0x0D then STATE_REQ_LF else STATE_HEADER_KEY)\<rparr>;
          r \<leftarrow> parse_version (buf s) v (version_len s2);
          Some (case r of
                  None \<Rightarrow> fail req s2 HTTP_STATUS_HTTP_VERSION_NOT_SUPPORTED
                | Some x \<Rightarrow> Next (req\<lparr>version := x\<rparr>) s2 i)
        }
      else Some (Next req s1 i))"

definition step_req_lf :: "http_request \<Rightarrow> parser_state \<Rightarrow> nat \<Rightarrow> char \<Rightarrow> chunk_step option" where
  "step_req_lf req s i cur =
     Some (if cur = CHR 0x0A then Next req (s\<lparr>state := STATE_HEADER_KEY\<rparr>) i
           else fail req s HTTP_STATUS_BAD_REQUEST)"

definition step_header_key :: "http_request \<Rightarrow> parser_state \<Rightarrow> nat \<Rightarrow> char \<Rightarrow> chunk_step option" where
  "step_header_key req s i cur =
     (if cur = CHR 0x0D then Some (Next req (s\<lparr>state := STATE_HEADER_END\<rparr>) i)
      else if cur = CHR 0x0A then Some (Next req (s\<lparr>state := STATE_BODY\<rparr>) i)
      else if cur = CHR '':'' then Some (fail req s HTTP_STATUS_BAD_REQUEST)
      else if header_count req \<ge> MAX_HEADERS then
        Some (fail req s HTTP_STATUS_REQUEST_HEADER_FIELDS_TOO_LARGE)
      else do {
        h \<leftarrow> rd (headers req) (header_count req);
        hs \<leftarrow> wr (headers req) (header_count req) (h\<lparr>hdr_name := Some i\<rparr>);
        Some (Next (req\<lparr>headers := hs\<rparr>) (s\<lparr>state := STATE_HEADER_NAME\<rparr>) i)
      })"

definition step_header_name :: "http_request \<Rightarrow> parser_state \<Rightarrow> nat \<Rightarrow> char \<Rightarrow> chunk_step option" where
  "step_header_name req s i cur = do {
     h \<leftarrow> rd (headers req) (header_count req);
     if is_whitespace cur then Some (fail req s HTTP_STATUS_BAD_REQUEST)
     else if cur = CHR '':'' then
       case hdr_name h of
         None \<Rightarrow> None
       | Some p \<Rightarrow> do {
           hs \<leftarrow> wr (headers req) (header_count req) (h\<lparr>hdr_name_len := i - p\<rparr>);
           Some (Next (req\<lparr>headers := hs\<rparr>) (s\<lparr>state := STATE_HEADER_VALUE\<rparr>) i) }
     else Some (Next req s i)
   }"

definition step_header_value :: "http_request \<Rightarrow> parser_state \<Rightarrow> nat \<Rightarrow> char \<Rightarrow> chunk_step option" where
  "step_header_value req s i cur = do {
     h \<leftarrow> rd (headers req) (header_count req);
     let h1 = (if hdr_value h = None \<and> \<not> is_whitespace cur
               then h\<lparr>hdr_value := Some i, hdr_value_len := 0\<rparr> else h);
     hs1 \<leftarrow> wr (headers req) (header_count req) h1;
     let req1 = req\<lparr>headers := hs1\<rparr>;
     if cur = CHR 0x0D \<or> cur = CHR 0x0A then do {
       r \<leftarrow> parse_header (buf s) req1 h1;
       Some (case r of
               None \<Rightarrow> fail req1 s HTTP_STATUS_BAD_REQUEST
             | Some req2 \<Rightarrow>
                 if cur = CHR 0x0D then Next req2 (s\<lparr>state := STATE_HEADER_LF\<rparr>) i
                 else Next (req2\<lparr>header_count := header_count req2 + 1\<rparr>)
                        (s\<lparr>state := STATE_HEADER_KEY\<rparr>) i)
     }
     else if \<not> is_whitespace cur then
       case hdr_value h1 of
         None \<Rightarrow> None
       | Some v \<Rightarrow> do {
           hs2 \<leftarrow> wr hs1 (header_count req) (h1\<lparr>hdr_value_len := i - v + 1\<rparr>);
           Some (Next (req1\<lparr>headers := hs2\<rparr>) s i) }
     else Some (Next req1 s i)
   }"

definition step_header_lf :: "http_request \<Rightarrow> parser_state \<Rightarrow> nat \<Rightarrow> char \<Rightarrow> chunk_step option" where
  "step_header_lf req s i cur =
     Some (if cur = CHR 0x0A
           then Next (req\<lparr>header_count := header_count req + 1\<rparr>) (s\<lparr>state := STATE_HEADER_KEY\<rparr>) i
           else fail req s HTTP_STATUS_BAD_REQUEST)"

definition step_header_end :: "http_request \<Rightarrow> parser_state \<Rightarrow> nat \<Rightarrow> char \<Rightarrow> chunk_step option" where
  "step_header_end req s i cur =
     Some (if cur \<noteq> CHR 0x0A then fail req s HTTP_STATUS_BAD_REQUEST
           else Next req (s\<lparr>state := STATE_BODY\<rparr>) i)"

definition step_body :: "http_request \<Rightarrow> parser_state \<Rightarrow> nat \<Rightarrow> nat \<Rightarrow> chunk_step option" where
  "step_body req s i end_idx =
     (let remaining = content_length req - body_bytes_read req;
          available = end_idx - i;
          req1 = req\<lparr>body_bytes_read := body_bytes_read req +
                      (if available < remaining then available else remaining)\<rparr> in
      Some (if body_bytes_read req1 = content_length req
            then Return req1 (s\<lparr>state := STATE_DONE\<rparr>) ERR_NONE HTTP_STATUS_OK
            else Return req1 s ERR_MORE_DATA_NEEDED HTTP_STATUS_OK))"

definition step_switch :: "http_request \<Rightarrow> parser_state \<Rightarrow> nat \<Rightarrow> nat \<Rightarrow> chunk_step option" where
  "step_switch req s i end_idx = do {
     cur \<leftarrow> rd (buf s) i;
     (case state s of
        STATE_REQ_METHOD \<Rightarrow> step_method req s i end_idx
      | STATE_REQ_URI \<Rightarrow> step_uri req s i cur
      | STATE_REQ_VERSION \<Rightarrow> step_version req s i cur
      | STATE_REQ_LF \<Rightarrow> step_req_lf req s i cur
      | STATE_HEADER_KEY \<Rightarrow> step_header_key req s i cur
      | STATE_HEADER_NAME \<Rightarrow> step_header_name req s i cur
      | STATE_HEADER_VALUE \<Rightarrow> step_header_value req s i cur
      | STATE_HEADER_LF \<Rightarrow> step_header_lf req s i cur
      | STATE_HEADER_END \<Rightarrow> step_header_end req s i cur
      | STATE_BODY \<Rightarrow> step_body req s i end_idx
      | STATE_DONE \<Rightarrow> Some (Return req s ERR_NONE HTTP_STATUS_OK)
      | STATE_ERROR \<Rightarrow> Some (Return req s ERR_HTTP_PARSE_FAILED HTTP_STATUS_BAD_REQUEST))
   }"

text \<open>The end of the loop body: the header block is complete.\<close>

definition enter_body :: "http_request \<Rightarrow> parser_state \<Rightarrow> nat \<Rightarrow> chunk_step" where
  "enter_body req s i =
     (if state s = STATE_BODY then
        let header_bytes = i + 1 in
        if content_length req \<ge> MAX_REQUEST_BYTES - header_bytes then
          fail req s HTTP_STATUS_CONTENT_TOO_LARGE
        else if content_length req = 0 then
          Return req (s\<lparr>state := STATE_DONE\<rparr>) ERR_NONE HTTP_STATUS_OK
        else Next (req\<lparr>body := Some header_bytes\<rparr>) s i
      else Next req s i)"

definition chunk_byte :: "http_request \<Rightarrow> parser_state \<Rightarrow> nat \<Rightarrow> nat \<Rightarrow> chunk_step option" where
  "chunk_byte req s i end_idx =
     (if before_body (state s) \<and> i + 1 \<ge> MAX_HEADER_BYTES then
        Some (fail req s HTTP_STATUS_REQUEST_HEADER_FIELDS_TOO_LARGE)
      else do {
        st \<leftarrow> step_switch req s i end_idx;
        Some (case st of Next req' s' i' \<Rightarrow> enter_body req' s' i' | Return r s' e h \<Rightarrow> Return r s' e h) })"

lemma step_method_Next:
  "step_method req s i e = Some (Next r s' i') \<Longrightarrow> state s' = STATE_REQ_URI"
  by (auto simp: step_method_def fail_def Let_def bind_eq_Some_conv split: if_splits option.splits prod.splits)

lemma enter_body_Next: "enter_body r s i = Next r' s' i' \<Longrightarrow> s' = s \<and> i' = i"
  by (auto simp: enter_body_def fail_def Let_def split: if_splits)

text \<open>What the steps have in common: the method is not parsed a second time, and only the
  method and the body wait for more bytes.\<close>

definition forward :: "parser_state \<Rightarrow> nat \<Rightarrow> chunk_step \<Rightarrow> bool" where
  "forward s i st = (case st of
     Next r s' i' \<Rightarrow> i' = i \<and> (state s \<noteq> STATE_REQ_METHOD \<longrightarrow> state s' \<noteq> STATE_REQ_METHOD)
   | Return _ _ e _ \<Rightarrow> state s \<noteq> STATE_BODY \<longrightarrow> e \<noteq> ERR_MORE_DATA_NEEDED)"

lemma forward_simps [simp]:
  "forward s i (fail r s' h)"
  "forward s i (Return r s' e h) \<longleftrightarrow> (state s \<noteq> STATE_BODY \<longrightarrow> e \<noteq> ERR_MORE_DATA_NEEDED)"
  "forward s i (Next r s' i') \<longleftrightarrow> i' = i \<and> (state s \<noteq> STATE_REQ_METHOD \<longrightarrow> state s' \<noteq> STATE_REQ_METHOD)"
  by (simp_all add: forward_def fail_def)

lemma forward_uri: "step_uri req s i c = Some st \<Longrightarrow> forward s i st"
  by (auto simp: step_uri_def Let_def split: if_splits uri_ptr.splits)

lemma forward_version: "step_version req s i c = Some st \<Longrightarrow> forward s i st"
  by (auto simp: step_version_def Let_def bind_eq_Some_conv split: if_splits option.splits)

lemma forward_key: "step_header_key req s i c = Some st \<Longrightarrow> forward s i st"
  by (auto simp: step_header_key_def bind_eq_Some_conv split: if_splits)

lemma forward_name: "step_header_name req s i c = Some st \<Longrightarrow> forward s i st"
  by (auto simp: step_header_name_def bind_eq_Some_conv split: if_splits option.splits)

lemma forward_value:
  assumes "step_header_value req s i c = Some st"
  shows "forward s i st"
proof (cases "c = CHR 0x0D \<or> c = CHR 0x0A")
  case True
  then show ?thesis using assms
    unfolding step_header_value_def Let_def by (auto simp: bind_eq_Some_conv split: option.splits)
next
  case False
  then show ?thesis using assms
    unfolding step_header_value_def Let_def
    by (cases "is_whitespace c") (auto simp: bind_eq_Some_conv split: option.splits)
qed

lemma forward_body: "step_body req s i e = Some st \<Longrightarrow> state s = STATE_BODY \<Longrightarrow> forward s i st"
  by (auto simp: step_body_def Let_def)

lemma forward_switch:
  assumes "step_switch req s i e = Some st" and "state s \<noteq> STATE_REQ_METHOD"
  shows "forward s i st"
proof -
  obtain c where "rd (buf s) i = Some c" using assms(1) by (auto simp: step_switch_def bind_eq_Some_conv)
  then show ?thesis using assms
    by (cases "state s")
      (auto simp: step_switch_def step_req_lf_def step_header_lf_def step_header_end_def
        dest: forward_uri forward_version forward_key forward_name forward_value forward_body
        split: if_splits)
qed

lemma chunk_byte_Next:
  assumes "chunk_byte req s i e = Some (Next r s' i')"
  shows "state s' \<noteq> STATE_REQ_METHOD \<and> (state s \<noteq> STATE_REQ_METHOD \<longrightarrow> i' = i)"
proof -
  obtain st where sw: "step_switch req s i e = Some st"
    and st: "(case st of Next req' s' i' \<Rightarrow> enter_body req' s' i'
                       | Return r s' e h \<Rightarrow> Return r s' e h) = Next r s' i'"
    using assms by (auto simp: chunk_byte_def fail_def bind_eq_Some_conv split: if_splits)
  then obtain r0 s0 i0 where n: "st = Next r0 s0 i0" and eb: "enter_body r0 s0 i0 = Next r s' i'"
    by (cases st) auto
  show ?thesis
  proof (cases "state s = STATE_REQ_METHOD")
    case True
    then have "step_method req s i e = Some (Next r0 s0 i0)"
      using sw n by (auto simp: step_switch_def bind_eq_Some_conv)
    then show ?thesis using True step_method_Next enter_body_Next[OF eb] by fastforce
  next
    case False
    then show ?thesis using forward_switch[OF sw] n enter_body_Next[OF eb] by simp
  qed
qed

section \<open>The loop over a chunk\<close>

text \<open>
  The index only moves backwards when the method has been recognised, which happens once:
  the loop terminates.
\<close>

function chunk_loop :: "http_request \<Rightarrow> parser_state \<Rightarrow> nat \<Rightarrow> nat
    \<Rightarrow> (http_request \<times> parser_state \<times> error_code \<times> http_status) option" where
  "chunk_loop req s i end_idx =
     (if i < end_idx then do {
        st \<leftarrow> chunk_byte req s i end_idx;
        (case st of
           Next req' s' i' \<Rightarrow> chunk_loop req' s' (i' + 1) end_idx
         | Return req' s' e h \<Rightarrow> Some (req', s', e, h)) }
      else Some (req, s, ERR_MORE_DATA_NEEDED, HTTP_STATUS_OK))"
  by pat_completeness auto
termination
  by (relation "measures [\<lambda>(req, s, i, e). if state s = STATE_REQ_METHOD then 1 else 0,
                          \<lambda>(req, s, i, e). e - i]")
    (auto dest!: chunk_byte_Next)

declare chunk_loop.simps [simp del]

definition parse_chunk :: "http_request \<Rightarrow> parser_state \<Rightarrow> nat
    \<Rightarrow> (http_request \<times> parser_state \<times> error_code \<times> http_status) option" where
  "parse_chunk req s read_bytes =
     (if state s = STATE_DONE then Some (req, s, ERR_NONE, HTTP_STATUS_OK)
      else if read_bytes \<le> length (buf s)
      then chunk_loop req s (length (buf s) - read_bytes) (length (buf s))
      else None)"

section \<open>The receive loop\<close>

text \<open>
  \<open>parse_http_request\<close> over the results of its \<open>recv\<close> calls.  \<open>recv\<close> returns at least
  one byte and at most the free space of the buffer, an end of stream, \<open>EAGAIN\<close>
  (the loop tries again at once) or another error.  \<open>Some None\<close>: the calls so far have not
  completed the request; the code is still in the loop.
\<close>

datatype recv_result = Recv_data string | Recv_eof | Recv_again | Recv_error

definition finish_request :: "http_request \<Rightarrow> parser_state \<Rightarrow> http_status
    \<Rightarrow> (http_request \<times> parser_state \<times> http_response) option" where
  "finish_request req s h = do {
     (b, req', n) \<leftarrow> normalize_uri (buf s) req;
     Some (req', s\<lparr>buf := b\<rparr>,
       response_status (if n = NORMALIZE_URI_TOO_MANY_QUERY_PARAMS then HTTP_STATUS_URI_TOO_LONG
                        else if n < 0 then HTTP_STATUS_BAD_REQUEST else h)) }"

fun recv_loop :: "recv_result list \<Rightarrow> http_request \<Rightarrow> parser_state
    \<Rightarrow> (http_request \<times> parser_state \<times> http_response) option option" where
  "recv_loop [] req s = Some None"
| "recv_loop (Recv_data d # rs) req s =
     (if d = [] \<or> length (buf s) + length d > MAX_REQUEST_BYTES then None
      else do {
        (req', s', e, h) \<leftarrow> parse_chunk req (s\<lparr>buf := buf s @ d\<rparr>) (length d);
        if e = ERR_MORE_DATA_NEEDED then recv_loop rs req' s'
        else if e = ERR_NONE then map_option Some (finish_request req' s' h)
        else Some (Some (req', s', response_status h)) })"
| "recv_loop (Recv_eof # rs) req s =
     Some (Some (req, s, response_text HTTP_STATUS_BAD_REQUEST ''Connection closed by client'' 27))"
| "recv_loop (Recv_again # rs) req s = recv_loop rs req s"
| "recv_loop (Recv_error # rs) req s =
     Some (Some (req, s, response_text HTTP_STATUS_INTERNAL_SERVER_ERROR ''internal server error'' 21))"

text \<open>\<open>alloc\<close> says whether the allocation of the parser state succeeds.\<close>

definition parse_http_request :: "bool \<Rightarrow> recv_result list
    \<Rightarrow> (http_request \<times> parser_state \<times> http_response) option option" where
  "parse_http_request alloc rs =
     (if \<not> alloc then
        Some (Some (zero_request, init_state, response_status HTTP_STATUS_INTERNAL_SERVER_ERROR))
      else recv_loop rs zero_request init_state)"

section \<open>The method word\<close>

text \<open>
  What \<open>parse_method\<close> is meant to do: the request starts with the name of a method and a
  space.  The word comparisons are shown to be prefix comparisons.
\<close>

lemma horner_char_bound: "(horner_sum of_char 256 b :: nat) < 256 ^ length b"
proof (induction b)
  case (Cons c b)
  have "(of_char c :: nat) < 256" by simp
  then have "of_char c + 256 * horner_sum of_char 256 b < (256 * 256 ^ length b :: nat)"
    using Cons by linarith
  then show ?case by simp
qed simp

lemma horner_char_inj:
  "length a = length b \<Longrightarrow> (horner_sum of_char 256 a :: nat) = horner_sum of_char 256 b \<Longrightarrow> a = b"
proof (induction a b rule: list_induct2)
  case (Cons x xs y ys)
  have e: "of_char x + 256 * horner_sum of_char 256 xs = (of_char y + 256 * horner_sum of_char 256 ys :: nat)"
    using Cons.prems by simp
  have "(of_char x :: nat) = of_char y" using arg_cong[OF e, of "\<lambda>n. n mod 256"] by simp
  moreover from this have "(horner_sum of_char 256 xs :: nat) = horner_sum of_char 256 ys" using e by simp
  ultimately show ?case using Cons.IH by (simp add: of_char_eq_iff)
qed simp

lemma horner_char_take:
  "(horner_sum of_char 256 b :: nat) mod 256 ^ k = horner_sum of_char 256 (take k b)"
proof (induction b arbitrary: k)
  case (Cons c b)
  show ?case
  proof (cases k)
    case (Suc n)
    have "(of_char c + 256 * horner_sum of_char 256 b) mod (256 * 256 ^ n)
        = of_char c + 256 * (horner_sum of_char 256 b mod 256 ^ n :: nat)"
      using mod_mult2_eq[of "of_char c + 256 * horner_sum of_char 256 b" 256 "256 ^ n"]
        nat_of_char_less_256[of c] by simp
    then show ?thesis using Suc Cons.IH[of n] by simp
  qed simp
qed simp

lemma unat_load_le64: "length b \<le> 8 \<Longrightarrow> unat (load_le64 b) = horner_sum of_char 256 b"
proof -
  assume "length b \<le> 8"
  then have "(256::nat) ^ length b \<le> 256 ^ 8" by (rule power_increasing) simp
  then have "(horner_sum of_char 256 b :: nat) < 2 ^ 64" using horner_char_bound[of b] by simp
  then show ?thesis unfolding load_le64_def by (simp add: unat_of_nat take_bit_nat_eq_self)
qed

lemma load_le64_mask:
  assumes "length b = 8" "length s = k" "k \<le> 8"
  shows "load_le64 b AND mask (8 * k) = load_le64 s \<longleftrightarrow> take k b = s"
proof -
  have "unat (load_le64 b AND mask (8 * k)) = horner_sum of_char 256 (take k b)"
    using assms unat_load_le64[of b] horner_char_take[of b k]
    by (simp only: take_bit_eq_mask[symmetric] unsigned_take_bit_eq) (simp add: take_bit_eq_mod power_mult)
  moreover have "unat (load_le64 s) = horner_sum of_char 256 s" using assms by (intro unat_load_le64) simp
  ultimately show ?thesis using horner_char_inj[of "take k b" s] assms by (auto simp: word_unat_eq_iff)
qed

definition http_methods :: "http_method list" where
  "http_methods = [HTTP_METHOD_GET, HTTP_METHOD_PUT, HTTP_METHOD_POST, HTTP_METHOD_HEAD, HTTP_METHOD_PATCH,
         HTTP_METHOD_TRACE, HTTP_METHOD_DELETE, HTTP_METHOD_OPTIONS, HTTP_METHOD_CONNECT]"

definition method_of :: "string \<Rightarrow> (http_method \<times> nat) option" where
  "method_of b = map_option (\<lambda>m. (m, length (http_method_to_string m)))
     (List.find (\<lambda>m. take (length (http_method_to_string m) + 1) b = http_method_to_string m @ '' '') http_methods)"

lemma method_values:
  "METHOD_VALUE_GET = load_le64 ''GET ''" "METHOD_VALUE_PUT = load_le64 ''PUT ''"
  "METHOD_VALUE_POST = load_le64 ''POST ''" "METHOD_VALUE_HEAD = load_le64 ''HEAD ''"
  "METHOD_VALUE_PATCH = load_le64 ''PATCH ''" "METHOD_VALUE_TRACE = load_le64 ''TRACE ''"
  "METHOD_VALUE_DELETE = load_le64 ''DELETE ''" "METHOD_VALUE_OPTIONS = load_le64 ''OPTIONS ''"
  "METHOD_VALUE_CONNECT = load_le64 ''CONNECT ''"
  by (simp_all add: METHOD_VALUE_GET_def METHOD_VALUE_PUT_def METHOD_VALUE_POST_def METHOD_VALUE_HEAD_def
     METHOD_VALUE_PATCH_def METHOD_VALUE_TRACE_def METHOD_VALUE_DELETE_def METHOD_VALUE_OPTIONS_def
     METHOD_VALUE_CONNECT_def load_le64_def)

lemma masks:
  "0x00000000ffffffff = (mask (8 * 4) :: 64 word)"
  "0x000000ffffffffff = (mask (8 * 5) :: 64 word)"
  "0x0000ffffffffffff = (mask (8 * 6) :: 64 word)"
  "0x00ffffffffffffff = (mask (8 * 7) :: 64 word)"
  by (simp_all add: mask_eq_exp_minus_1)

lemma mask_all: "length b = 8 \<Longrightarrow> length s = 8 \<Longrightarrow> load_le64 b = load_le64 s \<longleftrightarrow> take 8 b = s"
  using load_le64_mask[of b s 8] by (simp add: mask_full[where 'a=64, simplified])

lemma method_of_cases:
  "method_of b =
     (if take 4 b = ''GET '' then Some (HTTP_METHOD_GET, 3)
      else if take 4 b = ''PUT '' then Some (HTTP_METHOD_PUT, 3)
      else if take 5 b = ''POST '' then Some (HTTP_METHOD_POST, 4)
      else if take 5 b = ''HEAD '' then Some (HTTP_METHOD_HEAD, 4)
      else if take 6 b = ''PATCH '' then Some (HTTP_METHOD_PATCH, 5)
      else if take 6 b = ''TRACE '' then Some (HTTP_METHOD_TRACE, 5)
      else if take 7 b = ''DELETE '' then Some (HTTP_METHOD_DELETE, 6)
      else if take 8 b = ''OPTIONS '' then Some (HTTP_METHOD_OPTIONS, 7)
      else if take 8 b = ''CONNECT '' then Some (HTTP_METHOD_CONNECT, 7)
      else None)"
  unfolding method_of_def http_methods_def by (simp add: numeral_eq_Suc)

lemma load_le64_GET: "length b = 8 \<Longrightarrow> load_le64 b AND mask (8 * 4) = load_le64 ''GET '' \<longleftrightarrow> take 4 b = ''GET ''"
  and load_le64_PUT: "length b = 8 \<Longrightarrow> load_le64 b AND mask (8 * 4) = load_le64 ''PUT '' \<longleftrightarrow> take 4 b = ''PUT ''"
  and load_le64_POST: "length b = 8 \<Longrightarrow> load_le64 b AND mask (8 * 5) = load_le64 ''POST '' \<longleftrightarrow> take 5 b = ''POST ''"
  and load_le64_HEAD: "length b = 8 \<Longrightarrow> load_le64 b AND mask (8 * 5) = load_le64 ''HEAD '' \<longleftrightarrow> take 5 b = ''HEAD ''"
  and load_le64_PATCH: "length b = 8 \<Longrightarrow> load_le64 b AND mask (8 * 6) = load_le64 ''PATCH '' \<longleftrightarrow> take 6 b = ''PATCH ''"
  and load_le64_TRACE: "length b = 8 \<Longrightarrow> load_le64 b AND mask (8 * 6) = load_le64 ''TRACE '' \<longleftrightarrow> take 6 b = ''TRACE ''"
  and load_le64_DELETE: "length b = 8 \<Longrightarrow> load_le64 b AND mask (8 * 7) = load_le64 ''DELETE '' \<longleftrightarrow> take 7 b = ''DELETE ''"
  and load_le64_OPTIONS: "length b = 8 \<Longrightarrow> load_le64 b = load_le64 ''OPTIONS '' \<longleftrightarrow> take 8 b = ''OPTIONS ''"
  and load_le64_CONNECT: "length b = 8 \<Longrightarrow> load_le64 b = load_le64 ''CONNECT '' \<longleftrightarrow> take 8 b = ''CONNECT ''"
  by (rule load_le64_mask mask_all; simp)+

lemmas load_le64_methods = load_le64_GET load_le64_PUT load_le64_POST load_le64_HEAD load_le64_PATCH
  load_le64_TRACE load_le64_DELETE load_le64_OPTIONS load_le64_CONNECT

lemma parse_method_load:
  assumes "length b = 8"
  shows "parse_method (load_le64 b) = method_of b"
  unfolding parse_method_def masks method_values method_of_cases load_le64_methods[OF assms] by (rule refl)

text \<open>The evaluation of the model uses the prefix comparison.\<close>

lemma step_method_code [code]:
  "step_method req s i end_idx =
     (let m = (case method_ptr s of None \<Rightarrow> i | Some m \<Rightarrow> m);
          s1 = s\<lparr>method_ptr := Some m\<rparr> in
      if end_idx - m < 8 then Some (Return req s1 ERR_MORE_DATA_NEEDED HTTP_STATUS_OK)
      else do {
        b \<leftarrow> rd_bytes (buf s) m 8;
        Some (case method_of b of
                None \<Rightarrow> fail req s1 HTTP_STATUS_NOT_IMPLEMENTED
              | Some (meth, n) \<Rightarrow>
                  Next (req\<lparr>method := meth\<rparr>) (s1\<lparr>method_len := n, state := STATE_REQ_URI\<rparr>) (m + n))
      })"
proof -
  have "parse_method (load_le64 b) = method_of b" if "rd_bytes (buf s) m 8 = Some b" for m b
    using that by (intro parse_method_load) (auto simp: rd_bytes_def split: if_splits)
  then show ?thesis
    by (cases "rd_bytes (buf s) (case method_ptr s of None \<Rightarrow> i | Some m \<Rightarrow> m) 8")
      (simp_all add: step_method_def Let_def)
qed

text \<open>
  C27.  The method is recognised by masked comparisons of the first eight bytes, read as one
  little-endian word, with precomputed constants.  For every eight bytes this gives exactly
  the method whose name, followed by a space, is a prefix of them, with the length of the
  name, and rejects all others: no constant or mask is wrong, and no method shadows another.
\<close>

theorem parse_method_correct:
  assumes "length b = 8"
  shows "parse_method (load_le64 b) = method_of b"
  by (rule parse_method_load[OF assms])

theorem parse_method_correct_witness:
  "parse_method (load_le64 ''DELETE /'') = Some (HTTP_METHOD_DELETE, 6)"
proof -
  have "method_of ''DELETE /'' = Some (HTTP_METHOD_DELETE, 6)" by code_simp
  then show ?thesis using parse_method_correct[of "''DELETE /''"] by simp
qed
end
