(* ===== verification/ParserSafety.thy ===== *)
theory ParserSafety
  imports RequestParser
begin

text \<open>
  Memory safety and outcome of the request parser: an invariant of the loop over the
  received bytes (\<open>parser_inv\<close>), its preservation by every state of the parser, and the
  theorem on \<open>parse_http_request\<close> for every way the bytes may arrive.
\<close>

section \<open>The invariant\<close>


text \<open>The bytes a header points to have been received.\<close>

definition header_ok :: "nat \<Rightarrow> http_header \<Rightarrow> bool" where
  "header_ok i h \<longleftrightarrow> (\<exists>p. hdr_name h = Some p \<and> 0 < hdr_name_len h \<and> p + hdr_name_len h \<le> i) \<and>
     (case hdr_value h of None \<Rightarrow> hdr_value_len h = 0 | Some v \<Rightarrow> v < i \<and> v + hdr_value_len h \<le> i)"

definition headers_ok :: "http_request \<Rightarrow> nat \<Rightarrow> bool" where
  "headers_ok req i \<longleftrightarrow> length (headers req) = MAX_HEADERS \<and> header_count req \<le> MAX_HEADERS \<and>
     (\<forall>j < header_count req. header_ok i (headers req ! j)) \<and>
     (\<forall>j. header_count req < j \<and> j < MAX_HEADERS \<longrightarrow> headers req ! j = zero_header)"

definition uri_ok :: "http_request \<Rightarrow> nat \<Rightarrow> bool" where
  "uri_ok req i \<longleftrightarrow> (\<exists>u. uri req = Uri_buf u \<and> 0 < uri_len req \<and> u + uri_len req \<le> i)"

definition cur_header :: "http_request \<Rightarrow> http_header" where
  "cur_header req = headers req ! header_count req"

definition fresh_header :: "http_request \<Rightarrow> bool" where
  "fresh_header req \<longleftrightarrow> (header_count req < MAX_HEADERS \<longrightarrow> cur_header req = zero_header)"

definition parser_inv :: "http_request \<Rightarrow> parser_state \<Rightarrow> nat \<Rightarrow> bool" where
  "parser_inv req s i \<longleftrightarrow> headers_ok req i \<and> query_params req = [] \<and>
     (case state s of
        STATE_REQ_METHOD \<Rightarrow> (i = 0 \<and> method_ptr s = None \<or> i < 8 \<and> method_ptr s = Some 0) \<and>
          header_count req = 0 \<and> fresh_header req \<and> uri req = Uri_null \<and> version_ptr s = None
      | STATE_REQ_URI \<Rightarrow> header_count req = 0 \<and> fresh_header req \<and> version_ptr s = None \<and>
          (uri req = Uri_null \<or> (\<exists>u. uri req = Uri_buf u \<and> u < i))
      | STATE_REQ_VERSION \<Rightarrow> header_count req = 0 \<and> fresh_header req \<and> uri_ok req i \<and>
          (version_ptr s = None \<or> (\<exists>v. version_ptr s = Some v \<and> v < i))
      | STATE_REQ_LF \<Rightarrow> header_count req = 0 \<and> fresh_header req \<and> uri_ok req i
      | STATE_HEADER_KEY \<Rightarrow> fresh_header req \<and> uri_ok req i
      | STATE_HEADER_NAME \<Rightarrow> header_count req < MAX_HEADERS \<and> uri_ok req i \<and>
          (\<exists>p. cur_header req = zero_header\<lparr>hdr_name := Some p\<rparr> \<and> p < i)
      | STATE_HEADER_VALUE \<Rightarrow> header_count req < MAX_HEADERS \<and> uri_ok req i \<and> header_ok i (cur_header req)
      | STATE_HEADER_LF \<Rightarrow> header_count req < MAX_HEADERS \<and> uri_ok req i \<and> header_ok i (cur_header req)
      | STATE_HEADER_END \<Rightarrow> uri_ok req i
      | STATE_BODY \<Rightarrow> uri_ok req i \<and> (\<exists>hb. body req = Some hb \<and> i = hb + body_bytes_read req \<and>
          body_bytes_read req < content_length req \<and> hb + content_length req < MAX_REQUEST_BYTES)
      | STATE_DONE \<Rightarrow> False
      | STATE_ERROR \<Rightarrow> False) \<and>
     (before_body (state s) \<longrightarrow> i < MAX_HEADER_BYTES \<and> body_bytes_read req = 0 \<and> body req = None)"

lemma header_ok_mono: "header_ok i h \<Longrightarrow> i \<le> j \<Longrightarrow> header_ok j h"
  by (auto simp: header_ok_def split: option.splits)

lemma headers_ok_mono: "headers_ok r i \<Longrightarrow> i \<le> j \<Longrightarrow> headers_ok r j"
  using header_ok_mono by (auto simp: headers_ok_def)

lemma uri_ok_mono: "uri_ok r i \<Longrightarrow> i \<le> j \<Longrightarrow> uri_ok r j"
  by (auto simp: uri_ok_def)


section \<open>What a round of the loop establishes\<close>

definition request_ok :: "http_request \<Rightarrow> nat \<Rightarrow> bool" where
  "request_ok req n \<longleftrightarrow> headers_ok req n \<and> uri_ok req n \<and> query_params req = [] \<and>
     (content_length req = 0 \<and> body req = None \<or>
      (\<exists>hb. body req = Some hb \<and> hb + content_length req \<le> n))"

definition head_ok :: "http_request \<Rightarrow> nat \<Rightarrow> bool" where
  "head_ok req i \<longleftrightarrow> headers_ok req i \<and> uri_ok req i \<and> query_params req = [] \<and> i \<le> MAX_HEADER_BYTES \<and>
     body_bytes_read req = 0 \<and> body req = None"

text \<open>What a round of the loop may do, before and after the test for the end of the header.\<close>

definition good_return :: "http_request \<Rightarrow> parser_state \<Rightarrow> nat \<Rightarrow> error_code \<Rightarrow> http_status \<Rightarrow> bool" where
  "good_return r s e err h \<longleftrightarrow>
     err = ERR_MORE_DATA_NEEDED \<and> h = HTTP_STATUS_OK \<and> parser_inv r s e \<and> e < MAX_REQUEST_BYTES \<or>
     err = ERR_NONE \<and> state s = STATE_DONE \<and> request_ok r e \<and> h = HTTP_STATUS_OK \<or>
     err = ERR_HTTP_PARSE_FAILED \<and> state s = STATE_ERROR \<and> is_error_status h"

definition good_switch :: "string \<Rightarrow> nat \<Rightarrow> chunk_step \<Rightarrow> bool" where
  "good_switch b e st = (case st of
     Next r s i \<Rightarrow> buf s = b \<and> i < e \<and> (if state s = STATE_BODY then head_ok r (i + 1) else parser_inv r s (i + 1))
   | Return r s err h \<Rightarrow> buf s = b \<and> good_return r s e err h)"

definition good_byte :: "string \<Rightarrow> nat \<Rightarrow> chunk_step \<Rightarrow> bool" where
  "good_byte b e st = (case st of
     Next r s i \<Rightarrow> buf s = b \<and> i < e \<and> parser_inv r s (i + 1)
   | Return r s err h \<Rightarrow> buf s = b \<and> good_return r s e err h)"

lemma good_switch_Next [simp]:
  "good_switch b e (Next r s i) \<longleftrightarrow> buf s = b \<and> i < e \<and>
     (if state s = STATE_BODY then head_ok r (i + 1) else parser_inv r s (i + 1))"
  by (simp add: good_switch_def)

lemma good_byte_Next [simp]:
  "good_byte b e (Next r s i) \<longleftrightarrow> buf s = b \<and> i < e \<and> parser_inv r s (i + 1)"
  by (simp add: good_byte_def)

lemma good_Return [simp]:
  "good_switch b e (Return r s err h) \<longleftrightarrow> buf s = b \<and> good_return r s e err h"
  "good_byte b e (Return r s err h) \<longleftrightarrow> buf s = b \<and> good_return r s e err h"
  by (simp_all add: good_switch_def good_byte_def)

lemma good_fail [simp]:
  "good_switch b e (fail r s h) \<longleftrightarrow> buf s = b \<and> is_error_status h"
  "good_byte b e (fail r s h) \<longleftrightarrow> buf s = b \<and> is_error_status h"
  by (auto simp: good_switch_def good_byte_def fail_def good_return_def)

lemma error_statuses [simp]:
  "is_error_status HTTP_STATUS_BAD_REQUEST" "is_error_status HTTP_STATUS_NOT_IMPLEMENTED"
  "is_error_status HTTP_STATUS_HTTP_VERSION_NOT_SUPPORTED"
  "is_error_status HTTP_STATUS_REQUEST_HEADER_FIELDS_TOO_LARGE"
  "is_error_status HTTP_STATUS_CONTENT_TOO_LARGE" "is_error_status HTTP_STATUS_URI_TOO_LONG"
  "is_error_status HTTP_STATUS_INTERNAL_SERVER_ERROR"
  by (simp_all add: is_error_status_def)

section \<open>Every state of the parser\<close>

lemma parse_method_len: "parse_method v = Some (m, n) \<Longrightarrow> n < 8"
  by (auto simp: parse_method_def split: if_splits)

lemma good_method:
  assumes "parser_inv req s i" "i < e" "e = length (buf s)" "e \<le> MAX_REQUEST_BYTES"
    and "i + 1 < MAX_HEADER_BYTES" "state s = STATE_REQ_METHOD"
  shows "\<exists>st. step_method req s i e = Some st \<and> good_switch (buf s) e st"
proof -
  have m: "(case method_ptr s of None \<Rightarrow> i | Some m \<Rightarrow> m) = 0" "i < 8"
    using assms(1,6) by (auto simp: parser_inv_def)
  show ?thesis
  proof (cases "e < 8")
    case True
    then show ?thesis using assms m
      by (auto simp: step_method_def good_switch_def good_return_def parser_inv_def before_body_def
          MAX_HEADER_BYTES_def MAX_REQUEST_BYTES_def intro: headers_ok_mono)
  next
    case False
    then have "rd_bytes (buf s) 0 8 = Some (take 8 (buf s))" using assms(3) by (simp add: rd_bytes_def)
    moreover have "headers_ok req j" for j using assms(1,6) unfolding parser_inv_def headers_ok_def by simp
    ultimately show ?thesis using False assms m parse_method_len
      by (cases "parse_method (load_le64 (take 8 (buf s)))")
        (fastforce simp: step_method_def parser_inv_def before_body_def headers_ok_def fresh_header_def
          cur_header_def MAX_HEADER_BYTES_def)+
  qed
qed


lemma parser_inv_headersD: "parser_inv req s i \<Longrightarrow> headers_ok req i \<and> query_params req = []"
  by (simp add: parser_inv_def)

lemma inv_beforeD:
  "parser_inv req s i \<Longrightarrow> before_body (state s) \<Longrightarrow> i < MAX_HEADER_BYTES \<and> body_bytes_read req = 0 \<and> body req = None"
  by (simp add: parser_inv_def)

lemma headers_ok_SucI: "parser_inv req s i \<Longrightarrow> headers_ok req (Suc i)"
  using headers_ok_mono[of req i "Suc i"] by (simp add: parser_inv_def)

lemma good_uri:
  assumes "parser_inv req s i" "i < e" "i + 1 < MAX_HEADER_BYTES" "state s = STATE_REQ_URI"
  shows "\<exists>st. step_uri req s i c = Some st \<and> good_switch (buf s) e st"
proof -
  have h: "headers_ok req (Suc i)" using assms(1) by (rule headers_ok_SucI)
  consider "uri req = Uri_null" | u where "uri req = Uri_buf u" "u < i"
    using assms(1,4) by (auto simp: parser_inv_def)
  then show ?thesis
    using assms h by cases
      (auto simp: step_uri_def Let_def parser_inv_def before_body_def headers_ok_def fresh_header_def
        cur_header_def uri_ok_def)
qed

lemma good_version:
  assumes "parser_inv req s i" "i < e" "e = length (buf s)" "i + 1 < MAX_HEADER_BYTES"
    and "state s = STATE_REQ_VERSION"
  shows "\<exists>st. step_version req s i c = Some st \<and> good_switch (buf s) e st"
proof -
  have h: "headers_ok req (Suc i)" and u: "uri_ok req (Suc i)"
    using assms(1,5) headers_ok_mono uri_ok_mono by (auto simp: parser_inv_def)
  obtain v where v: "(case version_ptr s of None \<Rightarrow> i | Some v \<Rightarrow> v) = v" "v \<le> i"
    using assms(1,5) by (cases "version_ptr s") (auto simp: parser_inv_def)
  have "v + (i - v) \<le> length (buf s)" using v(2) assms(2,3) by simp
  then have "\<exists>r. parse_version (buf s) v (i - v) = Some r"
    by (auto simp: parse_version_def rd_bytes_def)
  then obtain r where r: "parse_version (buf s) v (i - v) = Some r" ..
  show ?thesis
    using assms h u v r
    by (cases r) (auto simp: step_version_def parser_inv_def before_body_def headers_ok_def
        fresh_header_def cur_header_def uri_ok_def Let_def)
qed

lemma good_req_lf:
  assumes "parser_inv req s i" "i < e" "i + 1 < MAX_HEADER_BYTES" "state s = STATE_REQ_LF"
  shows "\<exists>st. step_req_lf req s i c = Some st \<and> good_switch (buf s) e st"
  using assms headers_ok_mono[of req i "Suc i"] uri_ok_mono[of req i "Suc i"]
  by (auto simp: step_req_lf_def parser_inv_def before_body_def)

lemma head_okI:
  "parser_inv req s i \<Longrightarrow> before_body (state s) \<Longrightarrow> uri_ok req i \<Longrightarrow> i + 1 < MAX_HEADER_BYTES \<Longrightarrow> head_ok req (Suc i)"
  using headers_ok_mono[of req i "Suc i"] uri_ok_mono[of req i "Suc i"]
  by (auto simp: head_ok_def parser_inv_def)

lemma good_header_key:
  assumes "parser_inv req s i" "i < e" "i + 1 < MAX_HEADER_BYTES" "state s = STATE_HEADER_KEY"
  shows "\<exists>st. step_header_key req s i c = Some st \<and> good_switch (buf s) e st"
proof -
  have h: "headers_ok req i" "headers_ok req (Suc i)" and u: "uri_ok req i" "uri_ok req (Suc i)"
    and f: "fresh_header req"
    using assms(1,4) headers_ok_mono uri_ok_mono by (auto simp: parser_inv_def)
  note hd = head_okI[OF assms(1) _ u(1) assms(3)]
  show ?thesis
  proof (cases "header_count req < MAX_HEADERS")
    case True
    then show ?thesis using assms h u f hd
      by (auto simp: step_header_key_def parser_inv_def before_body_def headers_ok_def uri_ok_def
          rd_Some wr_Some cur_header_def fresh_header_def)
  next
    case False
    then show ?thesis using assms h u f hd
      by (auto simp: step_header_key_def parser_inv_def before_body_def)
  qed
qed

lemma good_header_name:
  assumes "parser_inv req s i" "i < e" "i + 1 < MAX_HEADER_BYTES" "state s = STATE_HEADER_NAME"
  shows "\<exists>st. step_header_name req s i c = Some st \<and> good_switch (buf s) e st"
proof -
  have h: "headers_ok req (Suc i)" and u: "uri_ok req (Suc i)" and n: "header_count req < MAX_HEADERS"
    using assms(1,4) headers_ok_mono uri_ok_mono by (auto simp: parser_inv_def)
  obtain p where p: "headers req ! header_count req = zero_header\<lparr>hdr_name := Some p\<rparr>" "p < i"
    using assms(1,4) by (auto simp: parser_inv_def cur_header_def)
  show ?thesis using assms h u n p
    by (auto simp: step_header_name_def parser_inv_def before_body_def headers_ok_def uri_ok_def
        rd_Some wr_Some cur_header_def header_ok_def zero_header_def)
qed


lemma name_eq_ok: "header_ok i h \<Longrightarrow> i \<le> length b \<Longrightarrow> hdr_name h = Some p \<Longrightarrow> hdr_name_len h = length name
  \<Longrightarrow> \<exists>x. name_eq b p name = Some x"
  by (auto simp: header_ok_def name_eq_def rd_bytes_def)

lemma get_header_loop_ok:
  assumes "\<forall>h \<in> set hs. header_ok i h" "i \<le> length b" "name \<noteq> []"
  shows "\<exists>r. get_header_loop b hs name = Some r"
  using assms(1)
proof (induction hs)
  case (Cons h hs)
  then obtain r where r: "get_header_loop b hs name = Some r" by auto
  show ?case
  proof (cases "hdr_name_len h = length name")
    case True
    obtain p where p: "hdr_name h = Some p" "p < length b"
      using Cons.prems assms(2) by (auto simp: header_ok_def)
    obtain x where "name_eq b p name = Some x"
      using name_eq_ok[of i h b p name] Cons.prems assms(2) p True by auto
    then show ?thesis using r True p assms(3) by (auto simp: rd_def)
  qed (use r in simp)
qed simp

lemma http_request_get_header_ok:
  assumes "headers_ok req i" "i \<le> length b" "name \<noteq> []"
  shows "\<exists>r. http_request_get_header b req name = Some r"
proof -
  have "\<forall>h \<in> set (take (header_count req) (headers req)). header_ok i h"
    using assms(1) by (auto simp: headers_ok_def in_set_conv_nth)
  from get_header_loop_ok[OF this assms(2,3)] show ?thesis
    using assms(1) by (auto simp: http_request_get_header_def headers_ok_def)
qed

lemma value_bytes_ok: "header_ok i h \<Longrightarrow> i \<le> length b \<Longrightarrow> \<exists>v. value_bytes b h = Some v"
  by (auto simp: value_bytes_def header_ok_def rd_bytes_def split: option.splits)

lemma parse_header_ok:
  assumes "headers_ok req i" "header_ok i h" "i \<le> length b"
  shows "\<exists>r. parse_header b req h = Some r"
proof -
  obtain p where p: "hdr_name h = Some p" "p < length b"
    using assms by (auto simp: header_ok_def)
  note n = name_eq_ok[OF assms(2,3) p(1)]
  have cl: "\<exists>x. name_eq b p ''Content-Length'' = Some x" if "hdr_name_len h = 14" using n that by simp
  have ct: "\<exists>x. name_eq b p ''Content-Type'' = Some x" if "hdr_name_len h = 12" using n that by simp
  have te: "\<exists>x. name_eq b p ''Transfer-Encoding'' = Some x" if "hdr_name_len h = 17" using n that by simp
  have ho: "\<exists>x. name_eq b p ''Host'' = Some x" if "hdr_name_len h = 4" using n that by simp
  obtain old where old: "http_request_get_header b req ''Content-Length'' = Some old"
    using http_request_get_header_ok[OF assms(1,3), of "''Content-Length''"] by auto
  obtain v where v: "value_bytes b h = Some v" using value_bytes_ok[OF assms(2,3)] by auto
  show ?thesis
    unfolding parse_header_def using p cl ct te ho old v by (auto simp: rd_Some)
qed

text \<open>\<open>parse_header\<close> writes only the fields of the three headers it knows.\<close>

definition same_but_known :: "http_request \<Rightarrow> http_request \<Rightarrow> bool" where
  "same_but_known req r \<longleftrightarrow> headers r = headers req \<and> header_count r = header_count req \<and>
     uri r = uri req \<and> uri_len r = uri_len req \<and> query_params r = query_params req \<and>
     body r = body req \<and> body_bytes_read r = body_bytes_read req \<and>
     version r = version req \<and> method r = method req"

lemma parse_header_frame:
  assumes "parse_header b req h = Some (Some r)"
  shows "same_but_known req r"
proof -
  obtain p where p: "hdr_name h = Some p" using assms by (auto simp: parse_header_def split: option.splits)
  obtain c where c: "rd b p = Some c" using assms p by (auto simp: parse_header_def bind_eq_Some_conv)
  consider "or_0x20 c = CHR ''c''" | "or_0x20 c = CHR ''t''" | "or_0x20 c = CHR ''h''"
    | "or_0x20 c \<notin> {CHR ''c'', CHR ''t'', CHR ''h''}" by blast
  then show ?thesis
    using assms p c
    by cases (auto simp: parse_header_def same_but_known_def bind_eq_Some_conv split: if_split_asm)
qed

lemma good_header_value:
  assumes "parser_inv req s i" "i < e" "e = length (buf s)" "i + 1 < MAX_HEADER_BYTES"
    and "state s = STATE_HEADER_VALUE"
  shows "\<exists>st. step_header_value req s i c = Some st \<and> good_switch (buf s) e st"
proof -
  define h where "h = cur_header req"
  define h1 where "h1 = (if hdr_value h = None \<and> \<not> is_whitespace c
                         then h\<lparr>hdr_value := Some i, hdr_value_len := 0\<rparr> else h)"
  define req1 where "req1 = req\<lparr>headers := (headers req)[header_count req := h1]\<rparr>"
  have i: "headers_ok req (Suc i)" "uri_ok req (Suc i)" "header_count req < MAX_HEADERS" "header_ok i h"
    "query_params req = []" "body_bytes_read req = 0" "body req = None"
    using assms(1,5) headers_ok_SucI[OF assms(1)] uri_ok_mono
    by (auto simp: parser_inv_def before_body_def h_def)
  have len: "length (headers req) = MAX_HEADERS" using i(1) by (simp add: headers_ok_def)
  have h1: "header_ok (Suc i) h1"
    using i(4) by (auto simp: h1_def header_ok_def split: option.splits)
  have r1: "headers_ok req1 (Suc i)" "uri_ok req1 (Suc i)" "header_count req1 = header_count req"
      "cur_header req1 = h1" "query_params req1 = []" "body_bytes_read req1 = 0" "body req1 = None"
    using i len by (auto simp: req1_def headers_ok_def uri_ok_def cur_header_def)
  have eq: "rd (headers req) (header_count req) = Some h"
    "wr (headers req) (header_count req) h1 = Some (headers req1)"
    using i(3) len by (simp_all add: rd_Some wr_Some h_def cur_header_def req1_def)
  show ?thesis
  proof (cases "c = CHR 0x0D \<or> c = CHR 0x0A")
    case True
    obtain r where r: "parse_header (buf s) req1 h1 = Some r"
      using parse_header_ok[OF r1(1) h1, of "buf s"] assms(2,3) by (auto simp: Suc_le_eq)
    have req1': "req\<lparr>headers := headers req1\<rparr> = req1" by (simp add: req1_def)
    have st: "step_header_value req s i c =
       Some (case r of
               None \<Rightarrow> fail req1 s HTTP_STATUS_BAD_REQUEST
             | Some req2 \<Rightarrow>
                 if c = CHR 0x0D then Next req2 (s\<lparr>state := STATE_HEADER_LF\<rparr>) i
                 else Next (req2\<lparr>header_count := header_count req2 + 1\<rparr>) (s\<lparr>state := STATE_HEADER_KEY\<rparr>) i)"
      using True r eq unfolding step_header_value_def Let_def by (simp add: h1_def[symmetric] req1' cong: option.case_cong)
    show ?thesis
    proof (cases r)
      case None
      then show ?thesis using st by simp
    next
      case (Some req2)
      then have f: "same_but_known req1 req2" using r parse_header_frame by simp
      show ?thesis
        using st Some f r1 h1 i(3) assms(2,4)
        by (auto simp: parser_inv_def before_body_def same_but_known_def headers_ok_def uri_ok_def
            cur_header_def fresh_header_def less_Suc_eq)
    qed
  next
    case False
    show ?thesis
    proof (cases "is_whitespace c")
      case True
      then have "h1 = h" by (simp add: h1_def)
      then have "step_header_value req s i c = Some (Next req1 s i)"
        using True False eq unfolding step_header_value_def Let_def by (simp add: req1_def h_def)
      then show ?thesis using r1 h1 i(3) assms
        by (auto simp: parser_inv_def before_body_def headers_ok_def uri_ok_def cur_header_def)
    next
      case nws: False
      then obtain v where v: "hdr_value h1 = Some v" "v \<le> i"
        using h1 by (cases "hdr_value h") (auto simp: h1_def header_ok_def)
      define h2 where "h2 = h1\<lparr>hdr_value_len := i - v + 1\<rparr>"
      have h2: "header_ok (Suc i) h2" using h1 v by (auto simp: h2_def header_ok_def)
      have "step_header_value req s i c =
          Some (Next (req1\<lparr>headers := (headers req1)[header_count req := h2]\<rparr>) s i)"
        using nws False eq v(1) i(3) len unfolding step_header_value_def Let_def
        by (cases "hdr_value h") (simp_all add: h1_def h2_def wr_def req1_def)
      then show ?thesis using r1 h2 i(3) assms len
        by (auto simp: parser_inv_def before_body_def headers_ok_def uri_ok_def cur_header_def)
    qed
  qed
qed


lemma good_header_lf:
  assumes "parser_inv req s i" "i < e" "i + 1 < MAX_HEADER_BYTES" "state s = STATE_HEADER_LF"
  shows "\<exists>st. step_header_lf req s i c = Some st \<and> good_switch (buf s) e st"
proof -
  have i: "headers_ok req (Suc i)" "uri_ok req (Suc i)" "header_ok (Suc i) (cur_header req)"
    using assms(1,4) headers_ok_SucI[OF assms(1)] uri_ok_mono[of req i] header_ok_mono[of i _ "Suc i"]
    by (auto simp: parser_inv_def)
  then show ?thesis using assms
    by (auto simp: step_header_lf_def parser_inv_def before_body_def headers_ok_def uri_ok_def
        cur_header_def fresh_header_def less_Suc_eq)
qed

lemma good_header_end:
  assumes "parser_inv req s i" "i < e" "i + 1 < MAX_HEADER_BYTES" "state s = STATE_HEADER_END"
  shows "\<exists>st. step_header_end req s i c = Some st \<and> good_switch (buf s) e st"
  using assms head_okI[OF assms(1)] by (auto simp: step_header_end_def before_body_def parser_inv_def)

lemma good_body:
  assumes "parser_inv req s i" "i < e" "e \<le> MAX_REQUEST_BYTES" "state s = STATE_BODY"
  shows "\<exists>st. step_body req s i e = Some st \<and> good_switch (buf s) e st"
proof -
  obtain hb where hb: "body req = Some hb" "i = hb + body_bytes_read req"
      "body_bytes_read req < content_length req" "hb + content_length req < MAX_REQUEST_BYTES"
    and u: "uri_ok req i" "query_params req = []"
    using assms(1,4) by (auto simp: parser_inv_def)
  have h: "headers_ok req e" "uri_ok req e"
    using assms(1,2) u headers_ok_mono[of req i e] uri_ok_mono[of req i e] by (auto simp: parser_inv_def)
  show ?thesis
  proof (cases "e - i < content_length req - body_bytes_read req")
    case True
    then show ?thesis using hb assms(2,4) h u
      by (auto simp: step_body_def Let_def good_return_def parser_inv_def before_body_def
          headers_ok_def uri_ok_def)
  next
    case False
    then show ?thesis using hb assms(2,4) h u
      by (auto simp: step_body_def Let_def good_return_def request_ok_def headers_ok_def uri_ok_def)
  qed
qed

lemma good_step_switch:
  assumes "parser_inv req s i" "i < e" "e = length (buf s)" "e \<le> MAX_REQUEST_BYTES"
    and "before_body (state s) \<longrightarrow> i + 1 < MAX_HEADER_BYTES"
  shows "\<exists>st. step_switch req s i e = Some st \<and> good_switch (buf s) e st"
proof -
  obtain c where c: "rd (buf s) i = Some c" using assms(2,3) by (simp add: rd_Some)
  show ?thesis
    using assms c good_method[OF assms(1-4)] good_uri[OF assms(1,2)] good_version[OF assms(1-3)]
      good_req_lf[OF assms(1,2)] good_header_key[OF assms(1,2)] good_header_name[OF assms(1,2)]
      good_header_value[OF assms(1-3)] good_header_lf[OF assms(1,2)] good_header_end[OF assms(1,2)]
      good_body[OF assms(1,2,4)]
    by (cases "state s") (simp_all add: step_switch_def before_body_def, simp_all add: parser_inv_def)
qed

lemma good_enter_body:
  assumes "good_switch b e (Next r s i)" "e \<le> MAX_REQUEST_BYTES"
  shows "good_byte b e (enter_body r s i)"
proof (cases "state s = STATE_BODY")
  case False
  then show ?thesis using assms by (simp add: enter_body_def good_byte_def)
next
  case True
  then have h: "buf s = b" "i < e" "head_ok r (Suc i)" using assms(1) by auto
  then have "headers_ok r e" "uri_ok r e"
    using headers_ok_mono[of r "Suc i" e] uri_ok_mono[of r "Suc i" e] by (auto simp: head_ok_def)
  then show ?thesis using True h assms(2)
    by (auto simp: enter_body_def Let_def good_return_def request_ok_def parser_inv_def
        before_body_def head_ok_def headers_ok_def uri_ok_def)
qed

lemma good_chunk_byte:
  assumes "parser_inv req s i" "i < e" "e = length (buf s)" "e \<le> MAX_REQUEST_BYTES"
  shows "\<exists>st. chunk_byte req s i e = Some st \<and> good_byte (buf s) e st"
proof (cases "before_body (state s) \<and> i + 1 \<ge> MAX_HEADER_BYTES")
  case True
  then show ?thesis by (simp add: chunk_byte_def)
next
  case False
  then obtain st where st: "step_switch req s i e = Some st" "good_switch (buf s) e st"
    using good_step_switch[OF assms] by auto
  show ?thesis
  proof (cases st)
    case (Next r s' i')
    then show ?thesis using False st good_enter_body[of "buf s" e r s' i'] assms(4)
      by (auto simp: chunk_byte_def)
  next
    case (Return r s' er h)
    then show ?thesis using False st by (auto simp: chunk_byte_def good_byte_def good_switch_def)
  qed
qed

lemma parser_inv_bound: "parser_inv req s i \<Longrightarrow> i < MAX_REQUEST_BYTES"
  by (cases "state s")
    (auto simp: parser_inv_def before_body_def MAX_HEADER_BYTES_def MAX_REQUEST_BYTES_def)

lemma good_chunk_loop:
  assumes "parser_inv req s i" "i \<le> e" "e = length (buf s)" "e \<le> MAX_REQUEST_BYTES"
  shows "\<exists>r s' er h. chunk_loop req s i e = Some (r, s', er, h) \<and> buf s' = buf s \<and> good_return r s' e er h"
  using assms
proof (induction req s i e rule: chunk_loop.induct)
  case (1 req s i e)
  show ?case
  proof (cases "i < e")
    case False
    then have ie: "i = e" using 1(3) by simp
    then have "chunk_loop req s i e = Some (req, s, ERR_MORE_DATA_NEEDED, HTTP_STATUS_OK)"
      by (subst chunk_loop.simps) simp
    then show ?thesis using parser_inv_bound[OF 1(2)] 1(2) ie by (simp add: good_return_def)
  next
    case True
    obtain st where st: "chunk_byte req s i e = Some st" "good_byte (buf s) e st"
      using good_chunk_byte[OF 1(2) True 1(4,5)] by auto
    show ?thesis
    proof (cases st)
      case (Next r s' i')
      then have g: "buf s' = buf s" "i' < e" "parser_inv r s' (i' + 1)" using st(2) by simp_all
      have "chunk_loop req s i e = chunk_loop r s' (i' + 1) e"
        by (subst chunk_loop.simps) (use True st(1) Next in simp)
      moreover have "\<exists>r1 s1 er h. chunk_loop r s' (i' + 1) e = Some (r1, s1, er, h) \<and> buf s1 = buf s' \<and>
          good_return r1 s1 e er h"
        by (rule 1(1)[OF True st(1) Next g(3)]) (use g 1(4,5) in simp_all)
      ultimately show ?thesis using g(1) by simp
    next
      case (Return r s' er h)
      then have "chunk_loop req s i e = Some (r, s', er, h)"
        by (subst chunk_loop.simps) (use True st(1) in simp)
      then show ?thesis using st(2) Return by simp
    qed
  qed
qed

lemma parser_inv_init: "parser_inv zero_request init_state 0"
  by (simp add: parser_inv_def init_state_def zero_request_def headers_ok_def MAX_HEADERS_def
      fresh_header_def cur_header_def MAX_HEADER_BYTES_def)

lemma parser_inv_buf [simp]: "parser_inv req (s\<lparr>buf := x\<rparr>) i = parser_inv req s i"
  by (simp add: parser_inv_def cong: parse_state.case_cong)

lemma parse_chunk_ok:
  assumes "parser_inv req s (length (buf s))" "length (buf s) + length d \<le> MAX_REQUEST_BYTES"
  shows "\<exists>r s' er h. parse_chunk req (s\<lparr>buf := buf s @ d\<rparr>) (length d) = Some (r, s', er, h) \<and>
     buf s' = buf s @ d \<and> good_return r s' (length (buf s @ d)) er h"
proof -
  let ?s = "s\<lparr>buf := buf s @ d\<rparr>"
  have "parser_inv req ?s (length (buf s))" using assms(1) by simp
  from good_chunk_loop[OF this, of "length (buf s @ d)"] assms(2)
  show ?thesis using assms(1)
    by (cases "state s = STATE_DONE") (simp_all add: parse_chunk_def parser_inv_def)
qed


section \<open>The whole receive loop\<close>

text \<open>What \<open>normalize_uri\<close> leaves of the request.\<close>

definition same_but_target :: "http_request \<Rightarrow> http_request \<Rightarrow> bool" where
  "same_but_target req r \<longleftrightarrow> headers r = headers req \<and> header_count r = header_count req \<and>
     content_length r = content_length req \<and> content_type r = content_type req \<and> host r = host req \<and>
     body r = body req \<and> body_bytes_read r = body_bytes_read req \<and>
     version r = version req \<and> method r = method req"

lemma parse_query_params_frame:
  "parse_query_params b req = Some (r, n) \<Longrightarrow> same_but_target req r"
  by (auto simp: parse_query_params_def same_but_target_def bind_eq_Some_conv split: uri_ptr.splits if_splits)

lemma same_but_target_trans:
  "same_but_target a b \<Longrightarrow> same_but_target b c \<Longrightarrow> same_but_target a c"
  by (simp add: same_but_target_def)

lemma same_but_target_simps [simp]:
  "same_but_target r (r\<lparr>uri_len := n\<rparr>)" "same_but_target r r"
  "same_but_target r (r\<lparr>uri := u, uri_len := m\<rparr>)"
  by (simp_all add: same_but_target_def)

lemma normalize_uri_frame:
  assumes "normalize_uri b req = Some (b', r, n)"
  shows "same_but_target req r"
proof -
  obtain r1 k where p: "parse_query_params b req = Some (r1, k)"
    using assms by (auto simp: normalize_uri_def bind_eq_Some_conv)
  have "same_but_target r1 r"
  proof (cases "k < 0")
    case True
    then show ?thesis using assms p by (simp add: normalize_uri_def)
  next
    case False
    then obtain u where u: "uri r1 = Uri_buf u"
      using assms p by (cases "uri r1") (auto simp: normalize_uri_def)
    obtain b1 l where d: "at_ptr b u (\<lambda>b. url_decode b (uri_len r1)) = Some (b1, l)"
      using assms p False u by (auto simp: normalize_uri_def bind_eq_Some_conv)
    show ?thesis
      using assms p False u d unfolding normalize_uri_def Let_def
      by (cases "l < 0") (auto simp: bind_eq_Some_conv split: if_split_asm option.split_asm)
  qed
  then show ?thesis using parse_query_params_frame[OF p] same_but_target_trans by blast
qed

text \<open>The environment of the receive loop: \<open>recv\<close> gets the free space of the buffer as its limit.\<close>

fun recv_fits :: "recv_result list \<Rightarrow> nat \<Rightarrow> bool" where
  "recv_fits [] n = True"
| "recv_fits (Recv_data d # rs) n = (d \<noteq> [] \<and> n + length d \<le> MAX_REQUEST_BYTES \<and> recv_fits rs (n + length d))"
| "recv_fits (_ # rs) n = recv_fits rs n"

fun received :: "recv_result list \<Rightarrow> string" where
  "received [] = []"
| "received (Recv_data d # rs) = d @ received rs"
| "received (_ # rs) = received rs"

definition complete_request :: "http_request \<Rightarrow> string \<Rightarrow> bool" where
  "complete_request req b \<longleftrightarrow> headers_ok req (length b) \<and>
     (content_length req = 0 \<and> body req = None \<or>
      (\<exists>hb. body req = Some hb \<and> hb + content_length req \<le> length b)) \<and>
     (\<exists>st. uri_bytes b req = render_path st \<and> (\<forall>y \<in> set st. good_segment y)) \<and>
     length (query_params req) \<le> MAX_QUERY_PARAMS"

lemma finish_request_ok:
  assumes "request_ok req (length (buf s))"
  shows "\<exists>r s' resp. finish_request req s HTTP_STATUS_OK = Some (r, s', resp) \<and> length (buf s') = length (buf s) \<and>
    (is_error_status (resp_status resp) \<or> resp_status resp = HTTP_STATUS_OK \<and> complete_request r (buf s'))"
proof -
  obtain u where u: "uri req = Uri_buf u" "u + uri_len req \<le> length (buf s)" "query_params req = []"
    using assms by (auto simp: request_ok_def uri_ok_def)
  let ?t = "uri_bytes (buf s) req"
  obtain b r n where n: "normalize_uri (buf s) req = Some (b, r, n)" "length b = length (buf s)"
    "if length (query_part ?t) > MAX_QUERY_PARAMS then n = NORMALIZE_URI_TOO_MANY_QUERY_PARAMS
     else (case uri_spec ?t of None \<Rightarrow> n = -1
       | Some x \<Rightarrow> n = 0 \<and> uri_bytes b r = x \<and> (\<exists>st. x = render_path st \<and> (\<forall>y \<in> set st. good_segment y))) \<and>
       map (param_bytes b) (query_params r) = query_part ?t"
    using normalize_uri_main[OF u] by blast
  note f = normalize_uri_frame[OF n(1)]
  have eq: "finish_request req s HTTP_STATUS_OK = Some (r, s\<lparr>buf := b\<rparr>,
       response_status (if n = NORMALIZE_URI_TOO_MANY_QUERY_PARAMS then HTTP_STATUS_URI_TOO_LONG
                        else if n < 0 then HTTP_STATUS_BAD_REQUEST else HTTP_STATUS_OK))"
    by (simp add: finish_request_def n(1))
  show ?thesis
  proof (cases "length (query_part ?t) > MAX_QUERY_PARAMS")
    case True
    then have "n = NORMALIZE_URI_TOO_MANY_QUERY_PARAMS" using n(3) by simp
    then show ?thesis using eq n(2) by (simp add: response_status_def)
  next
    case False
    note m = n(3)[unfolded if_not_P[OF False]]
    then have q: "length (query_params r) \<le> MAX_QUERY_PARAMS"
      using False by (metis length_map leI)
    show ?thesis
    proof (cases "uri_spec ?t")
      case None
      then show ?thesis using eq n(2) m
        by (simp add: response_status_def NORMALIZE_URI_TOO_MANY_QUERY_PARAMS_def)
    next
      case (Some x)
      then obtain st where "n = 0" "uri_bytes b r = render_path st" "\<forall>y \<in> set st. good_segment y"
        using m by auto
      then have "complete_request r b"
        using assms f q n(2)
        by (auto simp: complete_request_def request_ok_def same_but_target_def headers_ok_def)
      then show ?thesis using eq n(2) \<open>n = 0\<close>
        by (simp add: response_status_def NORMALIZE_URI_TOO_MANY_QUERY_PARAMS_def)
    qed
  qed
qed

lemma recv_loop_ok:
  assumes "parser_inv req s (length (buf s))" "recv_fits rs (length (buf s))"
  shows "\<exists>out. recv_loop rs req s = Some out \<and>
     (case out of
        None \<Rightarrow> length (buf s) + length (received rs) < MAX_REQUEST_BYTES
      | Some (req', s', resp) \<Rightarrow> is_error_status (resp_status resp) \<or>
          resp_status resp = HTTP_STATUS_OK \<and> complete_request req' (buf s'))"
  using assms
proof (induction rs req s rule: recv_loop.induct)
  case (1 req s)
  then show ?case using parser_inv_bound by simp
next
  case (2 d rs req s)
  have d: "d \<noteq> []" "length (buf s) + length d \<le> MAX_REQUEST_BYTES" using 2(3) by simp_all
  obtain r s' er h where p: "parse_chunk req (s\<lparr>buf := buf s @ d\<rparr>) (length d) = Some (r, s', er, h)"
    "buf s' = buf s @ d" "good_return r s' (length (buf s @ d)) er h"
    using parse_chunk_ok[OF 2(2) d(2)] by blast
  consider (more) "er = ERR_MORE_DATA_NEEDED" "parser_inv r s' (length (buf s'))"
    | (fin) "er = ERR_NONE" "request_ok r (length (buf s'))" "h = HTTP_STATUS_OK"
    | (err) "er = ERR_HTTP_PARSE_FAILED" "is_error_status h"
    using p(2,3) by (auto simp: good_return_def)
  then show ?case
  proof cases
    case more
    have "\<exists>out. recv_loop rs r s' = Some out \<and>
     (case out of
        None \<Rightarrow> length (buf s') + length (received rs) < MAX_REQUEST_BYTES
      | Some (req', s', resp) \<Rightarrow> is_error_status (resp_status resp) \<or>
          resp_status resp = HTTP_STATUS_OK \<and> complete_request req' (buf s'))"
      by (rule 2(1)[OF _ p(1) refl refl refl]) (use d more p(2) 2(3) in \<open>auto simp: add.assoc\<close>)
    then show ?thesis using d more p(1,2) by (simp add: add.assoc cong: option.case_cong)
  next
    case fin
    then show ?thesis using finish_request_ok[OF fin(2)] fin d p(1) by auto
  next
    case err
    then show ?thesis using d p(1) by (simp add: response_status_def)
  qed
qed (simp_all add: response_text_def response_status_def cong: option.case_cong)

lemma buf_init: "buf init_state = []" by (simp add: init_state_def)

text \<open>
  C7.  The request parser is safe on every input: whatever bytes arrive, in whatever pieces
  the \<open>recv\<close> calls deliver them, no state of the parser reads or writes outside the receive
  buffer or the header array.  While it asks for more the buffer has room for at least one
  byte (so \<open>recv\<close> is never called with length 0), and when it stops it has either chosen an
  error status, or the request is complete: every header name is not empty and all names and
  values lie inside the buffer, at most 32 of them, the body of \<open>Content-Length\<close> bytes has
  been received, the target is a normalised path.
\<close>

theorem parse_http_request_safe:
  assumes "recv_fits rs 0"
  shows "\<exists>out. recv_loop rs zero_request init_state = Some out \<and>
     (case out of
        None \<Rightarrow> length (received rs) < MAX_REQUEST_BYTES
      | Some (req, s, resp) \<Rightarrow> is_error_status (resp_status resp) \<or>
          resp_status resp = HTTP_STATUS_OK \<and> complete_request req (buf s))"
  using recv_loop_ok[of zero_request init_state rs] assms parser_inv_init
  by (simp add: buf_init cong: option.case_cong)

theorem parse_http_request_safe_witness:
  "\<exists>req s. recv_loop [Recv_data ''GET /a/%2e'', Recv_again, Recv_data ''./b HTTP/1.1'', Recv_data [CHR 0x0A, CHR 0x0A]]
     zero_request init_state = Some (Some (req, s, response_status HTTP_STATUS_OK)) \<and> complete_request req (buf s)"
proof -
  let ?rs = "[Recv_data ''GET /a/%2e'', Recv_again, Recv_data ''./b HTTP/1.1'', Recv_data [CHR 0x0A, CHR 0x0A]]"
  have fits: "recv_fits ?rs 0" by (simp add: MAX_REQUEST_BYTES_def)
  define out where "out = recv_loop ?rs zero_request init_state"
  have "map_option (map_option (\<lambda>(r, s, resp). resp)) out = Some (Some (response_status HTTP_STATUS_OK))"
    unfolding out_def by code_simp
  then obtain req s where out: "out = Some (Some (req, s, response_status HTTP_STATUS_OK))" by auto
  then have "complete_request req (buf s)"
    using parse_http_request_safe[OF fits, folded out_def]
    by (simp add: response_status_def is_error_status_def)
  then show ?thesis using out unfolding out_def by blast
qed

end
