(* ===== verification/ParserSplit.thy ===== *)
theory ParserSplit
  imports ParserSafety
begin

text \<open>
  The request parser does not depend on how TCP cuts the request into pieces.  A round of
  the loop that does not ask for more bytes does the same in a longer buffer
  (\<open>chunk_byte_grow\<close>); a round that does is resumed by the next chunk as if the bytes had
  been there (\<open>resume_method\<close>, \<open>resume_body\<close>).
\<close>

section \<open>Reading from a longer buffer\<close>

text \<open>\<open>refines f a b\<close>: when \<open>a\<close> is defined, so is \<open>b\<close>, with the result mapped by \<open>f\<close>.\<close>


definition refines :: "('a \<Rightarrow> 'b) \<Rightarrow> 'a option \<Rightarrow> 'b option \<Rightarrow> bool" where
  "refines f a b \<longleftrightarrow> (\<forall>x. a = Some x \<longrightarrow> b = Some (f x))"

lemma refines_None [intro!]: "refines f None b"
  by (simp add: refines_def)

lemma refines_Some [intro]: "y = f x \<Longrightarrow> refines f (Some x) (Some y)"
  by (simp add: refines_def)

lemma refines_bind:
  "refines f a b \<Longrightarrow> (\<And>x. refines g (h x) (k (f x))) \<Longrightarrow> refines g (a \<bind> h) (b \<bind> k)"
  by (auto simp: refines_def bind_eq_Some_conv)

lemma refines_bind_id:
  "refines id a b \<Longrightarrow> (\<And>x. refines g (h x) (k x)) \<Longrightarrow> refines g (a \<bind> h) (b \<bind> k)"
  by (auto simp: refines_def bind_eq_Some_conv)

lemma refines_bind_same: "(\<And>x. refines g (h x) (k x)) \<Longrightarrow> refines g (a \<bind> h) (a \<bind> k)"
  by (auto simp: refines_def bind_eq_Some_conv)

lemma refines_if: "(P \<Longrightarrow> refines g a b) \<Longrightarrow> (\<not> P \<Longrightarrow> refines g c d) \<Longrightarrow> refines g (if P then a else c) (if P then b else d)"
  by simp

lemma refines_option: "(x = None \<Longrightarrow> refines g a b) \<Longrightarrow> (\<And>y. x = Some y \<Longrightarrow> refines g (c y) (d y)) \<Longrightarrow>
   refines g (case x of None \<Rightarrow> a | Some y \<Rightarrow> c y) (case x of None \<Rightarrow> b | Some y \<Rightarrow> d y)"
  by (cases x) simp_all

lemma refines_id [intro!]: "refines id a a"
  by (simp add: refines_def)

lemma refines_rd: "refines id (rd b p) (rd (b @ c) p)"
  by (auto simp: refines_def rd_append)

lemma refines_rd_bytes: "refines id (rd_bytes b p n) (rd_bytes (b @ c) p n)"
  by (auto simp: refines_def rd_bytes_append)

lemma refines_name_eq: "refines id (name_eq b p n) (name_eq (b @ c) p n)"
  by (auto simp: refines_def name_eq_def rd_bytes_append)

lemma refines_value_bytes: "refines id (value_bytes b h) (value_bytes (b @ c) h)"
  by (auto simp: refines_def value_bytes_def rd_bytes_append split: option.splits)

lemmas refines_rules = refines_if refines_option refines_None refines_id
  refines_bind_id[OF refines_rd] refines_bind_id[OF refines_rd_bytes] refines_bind_id[OF refines_name_eq]
  refines_bind_id[OF refines_value_bytes] refines_name_eq refines_rd_bytes

lemma refines_get_header_loop: "refines id (get_header_loop b hs name) (get_header_loop (b @ c) hs name)"
proof (induction hs)
  case (Cons h hs)
  then show ?case
    by (simp only: get_header_loop.simps) (intro refines_rules refines_bind_same; assumption?)
qed (simp add: refines_def)

lemma refines_get_header:
  "refines id (http_request_get_header b req name) (http_request_get_header (b @ c) req name)"
  unfolding http_request_get_header_def by (intro refines_rules refines_get_header_loop)

lemma refines_parse_version: "refines id (parse_version b v n) (parse_version (b @ c) v n)"
  unfolding parse_version_def by (intro refines_rules)

lemma refines_parse_header: "refines id (parse_header b req h) (parse_header (b @ c) req h)"
  unfolding parse_header_def
  by (intro refines_rules refines_bind_id refines_get_header refines_bind_id[OF refines_get_header])


section \<open>A longer buffer in every state of the parser\<close>

definition grow :: "string \<Rightarrow> parser_state \<Rightarrow> parser_state" where
  "grow c s = s\<lparr>buf := buf s @ c\<rparr>"

lemma grow_simps [simp]:
  "buf (grow c s) = buf s @ c" "state (grow c s) = state s" "method_ptr (grow c s) = method_ptr s"
  "version_ptr (grow c s) = version_ptr s" "version_len (grow c s) = version_len s"
  by (simp_all add: grow_def)

lemma grow_updates:
  "(grow c s)\<lparr>state := st\<rparr> = grow c (s\<lparr>state := st\<rparr>)"
  "(grow c s)\<lparr>method_ptr := p\<rparr> = grow c (s\<lparr>method_ptr := p\<rparr>)"
  "(grow c s)\<lparr>method_len := n\<rparr> = grow c (s\<lparr>method_len := n\<rparr>)"
  "(grow c s)\<lparr>version_ptr := p\<rparr> = grow c (s\<lparr>version_ptr := p\<rparr>)"
  "(grow c s)\<lparr>version_len := n\<rparr> = grow c (s\<lparr>version_len := n\<rparr>)"
  by (simp_all add: grow_def)

definition grow_step :: "string \<Rightarrow> chunk_step \<Rightarrow> chunk_step" where
  "grow_step c st = (case st of
     Next r s i \<Rightarrow> Next r (grow c s) i
   | Return r s e h \<Rightarrow> Return r (grow c s) e h)"

lemma grow_step_simps [simp]:
  "grow_step c (Next r s i) = Next r (grow c s) i"
  "grow_step c (Return r s e h) = Return r (grow c s) e h"
  "grow_step c (fail r s h) = fail r (grow c s) h"
  by (simp_all add: grow_step_def fail_def grow_updates)

lemma refines_SomeI: "y = f x \<Longrightarrow> refines f (Some x) (Some y)"
  by (simp add: refines_def)

lemma refines_uri: "refines (grow_step c) (step_uri req s i ch) (step_uri req (grow c s) i ch)"
  unfolding step_uri_def Let_def
  by (auto simp: refines_def grow_updates split: uri_ptr.splits)

lemma refines_version: "refines (grow_step c) (step_version req s i ch) (step_version req (grow c s) i ch)"
  unfolding step_version_def Let_def grow_simps grow_updates
  by (intro refines_if refines_bind_id[OF refines_parse_version] refines_SomeI)
    (simp_all add: grow_updates split: option.splits)

lemma refines_key: "refines (grow_step c) (step_header_key req s i ch) (step_header_key req (grow c s) i ch)"
  unfolding step_header_key_def
  by (intro refines_if refines_bind_same refines_SomeI) (simp_all add: grow_updates)

lemma refines_name: "refines (grow_step c) (step_header_name req s i ch) (step_header_name req (grow c s) i ch)"
  unfolding step_header_name_def
  by (intro refines_if refines_option refines_bind_same refines_SomeI refines_None) (simp_all add: grow_updates)

lemma refines_value: "refines (grow_step c) (step_header_value req s i ch) (step_header_value req (grow c s) i ch)"
  unfolding step_header_value_def Let_def grow_simps
  by (intro refines_bind_same refines_if refines_option refines_bind_id[OF refines_parse_header]
      refines_SomeI refines_None)
    (simp_all add: grow_updates split: option.splits)

lemma refines_switch:
  assumes "state s \<noteq> STATE_REQ_METHOD" "state s \<noteq> STATE_BODY"
  shows "refines (grow_step c) (step_switch req s i e) (step_switch req (grow c s) i e')"
  unfolding step_switch_def grow_simps
  using assms
  by (intro refines_bind_id[OF refines_rd]; cases "state s")
    (auto simp: step_req_lf_def step_header_lf_def step_header_end_def grow_updates
      intro: refines_uri refines_version refines_key refines_name refines_value)

lemma grow_enter_body: "enter_body r (grow c s) i = grow_step c (enter_body r s i)"
  by (simp add: enter_body_def Let_def grow_updates)

lemma refines_chunk_byte:
  assumes "state s \<noteq> STATE_REQ_METHOD" "state s \<noteq> STATE_BODY"
  shows "refines (grow_step c) (chunk_byte req s i e) (chunk_byte req (grow c s) i e')"
  unfolding chunk_byte_def grow_simps
  by (intro refines_if refines_SomeI refines_bind[OF refines_switch[OF assms]])
    (auto simp: grow_enter_body split: chunk_step.splits)

lemma Return_not_more:
  assumes "chunk_byte req s i e = Some (Return r s' er h)" "state s \<noteq> STATE_REQ_METHOD" "state s \<noteq> STATE_BODY"
  shows "er \<noteq> ERR_MORE_DATA_NEEDED"
proof (cases "before_body (state s) \<and> i + 1 \<ge> MAX_HEADER_BYTES")
  case True
  then show ?thesis using assms(1) by (auto simp: chunk_byte_def fail_def)
next
  case False
  then obtain st where st: "step_switch req s i e = Some st"
    "(case st of Next req' s' i' \<Rightarrow> enter_body req' s' i' | Return r s' e h \<Rightarrow> Return r s' e h) = Return r s' er h"
    using assms(1) by (auto simp: chunk_byte_def bind_eq_Some_conv)
  have f: "forward s i st" by (rule forward_switch[OF st(1) assms(2)])
  show ?thesis
  proof (cases st)
    case (Next r1 s1 i1)
    then show ?thesis using st(2) by (auto simp: enter_body_def Let_def fail_def split: if_splits)
  next
    case (Return r1 s1 e1 h1)
    then show ?thesis using st(2) f assms(3) by simp
  qed
qed

text \<open>A round that does not ask for more does the same when more bytes are there.\<close>

lemma step_method_grow:
  assumes "step_method req s i (length (buf s)) = Some st"
    and "case st of Next _ _ _ \<Rightarrow> True | Return _ _ er _ \<Rightarrow> er \<noteq> ERR_MORE_DATA_NEEDED"
  shows "step_method req (grow c s) i (length (buf s @ c)) = Some (grow_step c st)"
proof -
  define m where "m = (case method_ptr s of None \<Rightarrow> i | Some m \<Rightarrow> m)"
  have big: "\<not> length (buf s) - m < 8"
    using assms by (auto simp: step_method_def Let_def m_def[symmetric])
  then obtain b where b: "rd_bytes (buf s) m 8 = Some b"
    using assms(1) by (auto simp: step_method_def Let_def m_def[symmetric] bind_eq_Some_conv)
  then show ?thesis
    using assms(1) big rd_bytes_append[OF b, of c]
    by (auto simp: step_method_def Let_def m_def[symmetric] grow_updates split: option.splits)
qed

lemma step_body_grow:
  assumes "step_body req s i (length (buf s)) = Some st"
    and "case st of Next _ _ _ \<Rightarrow> True | Return _ _ er _ \<Rightarrow> er \<noteq> ERR_MORE_DATA_NEEDED"
    and "body_bytes_read req < content_length req"
  shows "step_body req (grow c s) i (length (buf s @ c)) = Some (grow_step c st)"
  using assms by (auto simp: step_body_def Let_def grow_updates split: if_splits)

lemma chunk_byte_grow:
  assumes "chunk_byte req s i (length (buf s)) = Some st"
    and "case st of Next _ _ _ \<Rightarrow> True | Return _ _ er _ \<Rightarrow> er \<noteq> ERR_MORE_DATA_NEEDED"
    and "state s = STATE_BODY \<Longrightarrow> body_bytes_read req < content_length req"
  shows "chunk_byte req (grow c s) i (length (buf s @ c)) = Some (grow_step c st)"
proof (cases "before_body (state s) \<and> i + 1 \<ge> MAX_HEADER_BYTES")
  case True
  then show ?thesis using assms(1) by (auto simp: chunk_byte_def)
next
  case lim: False
  show ?thesis
  proof (cases "state s = STATE_REQ_METHOD \<or> state s = STATE_BODY")
    case False
    then show ?thesis
      using refines_chunk_byte[of s c req i "length (buf s)" "length (buf s @ c)"] assms(1)
      by (simp add: refines_def)
  next
    case True
    obtain st0 where st0: "step_switch req s i (length (buf s)) = Some st0"
      and st: "st = (case st0 of Next r s i \<Rightarrow> enter_body r s i | Return r s e h \<Rightarrow> Return r s e h)"
      using assms(1) lim by (auto simp: chunk_byte_def bind_eq_Some_conv)
    have nm: "case st0 of Next _ _ _ \<Rightarrow> True | Return _ _ er _ \<Rightarrow> er \<noteq> ERR_MORE_DATA_NEEDED"
      using assms(2) st by (cases st0) simp_all
    obtain ch where ch: "rd (buf s) i = Some ch" using st0 by (auto simp: step_switch_def bind_eq_Some_conv)
    have "step_switch req (grow c s) i (length (buf s @ c)) = Some (grow_step c st0)"
      using True st0 ch rd_append[OF ch, of c] step_method_grow[of req s i st0 c]
        step_body_grow[of req s i st0 c] nm assms(3)
      by (auto simp: step_switch_def)
    then show ?thesis using lim st
      by (cases st0) (auto simp: chunk_byte_def grow_enter_body)
  qed
qed

lemma chunk_loop_Next:
  assumes "i < e" "chunk_byte req s i e = Some (Next r s' i')"
  shows "chunk_loop req s i e = chunk_loop r s' (i' + 1) e"
  using assms by (subst chunk_loop.simps) simp

lemma chunk_loop_Return:
  assumes "i < e" "chunk_byte req s i e = Some (Return r s' er h)"
  shows "chunk_loop req s i e = Some (r, s', er, h)"
  using assms by (subst chunk_loop.simps) simp

lemma chunk_loop_end: "\<not> i < e \<Longrightarrow> chunk_loop req s i e = Some (req, s, ERR_MORE_DATA_NEEDED, HTTP_STATUS_OK)"
  by (subst chunk_loop.simps) simp


lemma chunk_loop_cong:
  "i < e \<Longrightarrow> j < e \<Longrightarrow> chunk_byte r s i e = chunk_byte r' s' j e \<Longrightarrow> chunk_loop r s i e = chunk_loop r' s' j e"
  by (subst (1 2) chunk_loop.simps) simp

lemma grow_Nil [simp]: "grow [] s = s" by (simp add: grow_def)

lemma chunk_byte_more:
  assumes "chunk_byte req s i e = Some (Return r s' ERR_MORE_DATA_NEEDED h)"
  shows "step_switch req s i e = Some (Return r s' ERR_MORE_DATA_NEEDED h)"
proof -
  obtain st where st: "step_switch req s i e = Some st"
    "(case st of Next r s i \<Rightarrow> enter_body r s i | Return r s e h \<Rightarrow> Return r s e h) = Return r s' ERR_MORE_DATA_NEEDED h"
    using assms by (auto simp: chunk_byte_def bind_eq_Some_conv fail_def split: if_splits)
  then show ?thesis
    by (cases st) (auto simp: enter_body_def Let_def fail_def split: if_splits)
qed

lemma resume_method:
  assumes inv: "parser_inv req s i" and st: "state s = STATE_REQ_METHOD" and ie: "i < length (buf s)"
    and ret: "chunk_byte req s i (length (buf s)) = Some (Return r1 s1 ERR_MORE_DATA_NEEDED h)"
    and c: "c \<noteq> []"
  shows "chunk_byte req (grow c s) i (length (buf s @ c)) = chunk_byte r1 (grow c s1) (length (buf s)) (length (buf s @ c))"
proof -
  have m: "(case method_ptr s of None \<Rightarrow> i | Some m \<Rightarrow> m) = 0" "i < 8"
    using inv st by (auto simp: parser_inv_def)
  have "step_switch req s i (length (buf s)) = Some (Return r1 s1 ERR_MORE_DATA_NEEDED h)"
    using ret by (rule chunk_byte_more)
  then have sm: "step_method req s i (length (buf s)) = Some (Return r1 s1 ERR_MORE_DATA_NEEDED h)"
    using st by (auto simp: step_switch_def bind_eq_Some_conv)
  then have "length (buf s) < 8" and r1: "r1 = req" "s1 = s\<lparr>method_ptr := Some 0\<rparr>"
    using m(1) by (auto simp: step_method_def Let_def fail_def bind_eq_Some_conv split: if_splits option.splits)
  then have "step_switch req (grow c s) i (length (buf s @ c)) =
      step_switch r1 (grow c s1) (length (buf s)) (length (buf s @ c))"
    using st m c ie by (simp add: step_switch_def step_method_def Let_def rd_Some grow_updates)
  then show ?thesis
    using st m r1 \<open>length (buf s) < 8\<close> by (simp add: chunk_byte_def MAX_HEADER_BYTES_def)
qed

lemma resume_body:
  assumes st: "state s = STATE_BODY" and ie: "i < length (buf s)"
    and lt: "body_bytes_read req < content_length req"
    and ret: "chunk_byte req s i (length (buf s)) = Some (Return r1 s1 ERR_MORE_DATA_NEEDED h)"
    and c: "c \<noteq> []"
  shows "chunk_byte req (grow c s) i (length (buf s @ c)) = chunk_byte r1 (grow c s1) (length (buf s)) (length (buf s @ c))"
proof -
  have "step_body req s i (length (buf s)) = Some (Return r1 s1 ERR_MORE_DATA_NEEDED h)"
    using chunk_byte_more[OF ret] st ie by (simp add: step_switch_def rd_Some)
  then have "length (buf s) - i < content_length req - body_bytes_read req"
    and r1: "r1 = req\<lparr>body_bytes_read := body_bytes_read req + (length (buf s) - i)\<rparr>" "s1 = s"
    using lt by (auto simp: step_body_def Let_def split: if_splits)
  then have "step_body req (grow c s) i (length (buf s @ c)) =
      step_body r1 (grow c s1) (length (buf s)) (length (buf s @ c))"
    using lt ie c
    by (cases "length (buf s @ c) - i < content_length req - body_bytes_read req")
      (auto simp: step_body_def Let_def)
  then have "step_switch req (grow c s) i (length (buf s @ c)) =
      step_switch r1 (grow c s1) (length (buf s)) (length (buf s @ c))"
    using st c ie r1 by (simp add: step_switch_def rd_Some)
  then show ?thesis
    using st r1 by (simp add: chunk_byte_def before_body_def)
qed

lemma chunk_loop_split:
  assumes "parser_inv req s i" "i \<le> length (buf s)" "length (buf s) \<le> MAX_REQUEST_BYTES"
    "chunk_loop req s i (length (buf s)) = Some (r1, s1, er, h)"
  shows "chunk_loop req (grow c s) i (length (buf s @ c)) =
     (if er = ERR_MORE_DATA_NEEDED then chunk_loop r1 (grow c s1) (length (buf s)) (length (buf s @ c))
      else Some (r1, grow c s1, er, h))"
  using assms
proof (induction req s i "length (buf s)" rule: chunk_loop.induct)
  case (1 req s i)
  show ?case
  proof (cases "i < length (buf s)")
    case False
    then show ?thesis using 1(3,5) chunk_loop_end[OF False] by simp
  next
    case True
    obtain st where st: "chunk_byte req s i (length (buf s)) = Some st" "good_byte (buf s) (length (buf s)) st"
      using good_chunk_byte[OF 1(2) True refl 1(4)] by auto
    have body: "state s = STATE_BODY \<Longrightarrow> body_bytes_read req < content_length req"
      using 1(2) by (auto simp: parser_inv_def)
    have le: "i < length (buf s @ c)" using True by simp
    show ?thesis
    proof (cases st)
      case (Next r s' i')
      then have g: "buf s' = buf s" "i' < length (buf s)" "parser_inv r s' (i' + 1)" using st(2) by simp_all
      have "chunk_byte req (grow c s) i (length (buf s @ c)) = Some (Next r (grow c s') i')"
        using chunk_byte_grow[OF st(1) _ body, of c] Next by simp
      from chunk_loop_Next[OF le this]
      have l2: "chunk_loop req (grow c s) i (length (buf s @ c)) = chunk_loop r (grow c s') (i' + 1) (length (buf s @ c))" .
      have l1: "chunk_loop r s' (i' + 1) (length (buf s)) = Some (r1, s1, er, h)"
        using chunk_loop_Next[OF True st(1)[unfolded Next]] 1(5) by simp
      have "chunk_loop r (grow c s') (i' + 1) (length (buf s' @ c)) =
        (if er = ERR_MORE_DATA_NEEDED then chunk_loop r1 (grow c s1) (length (buf s')) (length (buf s' @ c))
         else Some (r1, grow c s1, er, h))"
        by (rule 1(1)[OF True st(1) Next _ g(3)]) (use g 1(4) l1 in simp_all)
      then show ?thesis unfolding l2 g(1) .
    next
      case (Return r s' e2 h2)
      then have eq: "r = r1" "s' = s1" "e2 = er" "h2 = h"
        using chunk_loop_Return[OF True st(1)[unfolded Return]] 1(5) by simp_all
      show ?thesis
      proof (cases "er = ERR_MORE_DATA_NEEDED")
        case False
        then have "chunk_byte req (grow c s) i (length (buf s @ c)) = Some (Return r1 (grow c s1) er h)"
          using chunk_byte_grow[OF st(1) _ body, of c] Return eq by simp
        from chunk_loop_Return[OF le this] False show ?thesis by simp
      next
        case more: True
        then have ret: "chunk_byte req s i (length (buf s)) = Some (Return r1 s1 ERR_MORE_DATA_NEEDED h)"
          using st(1) Return eq by simp
        have "state s = STATE_REQ_METHOD \<or> state s = STATE_BODY"
          using Return_not_more[OF ret] by blast
        then have step: "chunk_byte req (grow c s) i (length (buf s @ c)) =
            chunk_byte r1 (grow c s1) (length (buf s)) (length (buf s @ c))" if "c \<noteq> []"
          using resume_method[OF 1(2) _ True ret that] resume_body[OF _ True body ret that] by blast
        show ?thesis
        proof (cases "c = []")
          case True
          have "h = HTTP_STATUS_OK" using st(2) Return eq more by (simp add: good_return_def)
          then show ?thesis using True more 1(5) chunk_loop_end[of "length (buf s)" "length (buf s)"] by simp
        next
          case False
          then show ?thesis using chunk_loop_cong[OF le _ step] more by simp
        qed
      qed
    qed
  qed
qed


section \<open>Chunks\<close>

lemma parse_chunk_split:
  assumes "parser_inv req s (length (buf s))" "length (buf s @ d1) \<le> MAX_REQUEST_BYTES"
    "parse_chunk req (grow d1 s) (length d1) = Some (r1, s1, er, h)"
  shows "parse_chunk req (grow (d1 @ d2) s) (length (d1 @ d2)) =
     (if er = ERR_MORE_DATA_NEEDED then parse_chunk r1 (grow d2 s1) (length d2)
      else Some (r1, grow d2 s1, er, h))"
proof -
  have nd: "state s \<noteq> STATE_DONE" using assms(1) by (auto simp: parser_inv_def)
  have inv: "parser_inv req (grow d1 s) (length (buf s))" using assms(1) by (simp add: grow_def)
  have l: "chunk_loop req (grow d1 s) (length (buf s)) (length (buf (grow d1 s))) = Some (r1, s1, er, h)"
    using assms(3) nd by (simp add: parse_chunk_def)
  obtain b1: "buf s1 = buf s @ d1" and g: "good_return r1 s1 (length (buf s @ d1)) er h"
    using good_chunk_loop[OF inv _ refl] assms(2) l by auto
  have gg: "grow d2 (grow d1 s) = grow (d1 @ d2) s" by (simp add: grow_def)
  have nd1: "er = ERR_MORE_DATA_NEEDED \<Longrightarrow> state s1 \<noteq> STATE_DONE"
    using g by (auto simp: good_return_def parser_inv_def)
  show ?thesis
    using chunk_loop_split[OF inv _ _ l, of d2] nd nd1 assms(2) b1
    by (auto simp: parse_chunk_def gg)
qed

lemma recv_merge:
  assumes "parser_inv req s (length (buf s))" "recv_fits (Recv_data d1 # Recv_data d2 # rs) (length (buf s))"
    "recv_loop [Recv_data d1] req s = Some None"
  shows "recv_loop (Recv_data d1 # Recv_data d2 # rs) req s = recv_loop (Recv_data (d1 @ d2) # rs) req s"
proof -
  have f: "d1 \<noteq> []" "d2 \<noteq> []" "length (buf s) + length d1 + length d2 \<le> MAX_REQUEST_BYTES"
    using assms(2) by simp_all
  obtain r1 s1 er h where p: "parse_chunk req (grow d1 s) (length d1) = Some (r1, s1, er, h)"
      "buf s1 = buf s @ d1"
    using parse_chunk_ok[OF assms(1), of d1] f by (auto simp: grow_def)
  have more: "er = ERR_MORE_DATA_NEEDED"
    using assms(3) p f by (auto simp: grow_def split: if_splits)
  have "parse_chunk req (grow (d1 @ d2) s) (length (d1 @ d2)) = parse_chunk r1 (grow d2 s1) (length d2)"
    using parse_chunk_split[OF assms(1) _ p(1), of d2] f more by simp
  then show ?thesis using f p more by (simp add: grow_def)
qed

lemma recv_loop_prefix:
  assumes "recv_loop (rs @ rs') req s = Some None" shows "recv_loop rs req s = Some None"
  using assms
proof (induction rs req s rule: recv_loop.induct)
  case (2 d rs req s)
  obtain r s' e h where p: "parse_chunk req (s\<lparr>buf := buf s @ d\<rparr>) (length d) = Some (r, s', e, h)"
    using 2(2) by (auto simp: bind_eq_Some_conv split: if_splits)
  moreover have "e = ERR_MORE_DATA_NEEDED" "recv_loop (rs @ rs') r s' = Some None"
    "\<not> (d = [] \<or> length (buf s) + length d > MAX_REQUEST_BYTES)"
    using 2(2) p by (auto split: if_splits)
  ultimately show ?case using 2(1)[OF _ p refl refl refl] by simp
qed simp_all

lemma recv_fits_append:
  "recv_fits (map Recv_data (ds @ es)) n \<Longrightarrow> recv_fits (map Recv_data ds) n"
  by (induction ds arbitrary: n) simp_all

lemma recv_any_split:
  assumes "parser_inv req s (length (buf s))" "recv_fits (map Recv_data (ds @ [d])) (length (buf s))"
    "recv_loop (map Recv_data ds) req s = Some None"
  shows "recv_loop (map Recv_data (ds @ [d])) req s = recv_loop [Recv_data (concat ds @ d)] req s"
  using assms
proof (induction ds rule: length_induct)
  case (1 ds)
  show ?case
  proof (cases ds)
    case Nil
    then show ?thesis by simp
  next
    case (Cons d1 ds1)
    have one: "recv_loop [Recv_data d1] req s = Some None"
      using recv_loop_prefix[of "[Recv_data d1]"] 1(4) Cons by simp
    show ?thesis
    proof (cases ds1)
      case Nil
      then show ?thesis using recv_merge[OF 1(2) _ one, of d "[]"] 1(3) Cons by simp
    next
      case (Cons d2 ds2)
      have e: "ds = d1 # d2 # ds2" using \<open>ds = d1 # ds1\<close> Cons by simp
      have m: "recv_loop (map Recv_data (d1 # d2 # ds2 @ tl)) req s =
          recv_loop (map Recv_data ((d1 @ d2) # ds2 @ tl)) req s"
        if "recv_fits (map Recv_data (d1 # d2 # ds2 @ tl)) (length (buf s))" for tl
        using recv_merge[OF 1(2) _ one, of d2 "map Recv_data (ds2 @ tl)"] that by simp
      have fits: "recv_fits (map Recv_data (d1 # d2 # ds2)) (length (buf s))"
        using 1(3) e recv_fits_append[of ds "[d]"] by simp
      let ?ds = "(d1 @ d2) # ds2"
      have "recv_loop (map Recv_data (?ds @ [d])) req s = recv_loop [Recv_data (concat ?ds @ d)] req s"
        by (rule 1(1)[rule_format, OF _ 1(2)])
          (use 1(3,4) e m[of "[]"] fits in \<open>simp_all add: add.assoc\<close>)
      then show ?thesis using m[of "[d]"] 1(3) e by simp
    qed
  qed
qed


section \<open>Properties\<close>

text \<open>
  C11.  The outcome does not depend on the boundaries of the received chunks: if the request
  is still incomplete after the chunks \<open>ds\<close>, then receiving one more chunk \<open>d\<close> gives the
  same request, parser state and response (or the same wait for more) as receiving all bytes
  in a single chunk.
\<close>

theorem parse_http_request_split_independent:
  assumes "recv_fits (map Recv_data (ds @ [d])) 0"
    and "recv_loop (map Recv_data ds) zero_request init_state = Some None"
  shows "recv_loop (map Recv_data (ds @ [d])) zero_request init_state =
     recv_loop [Recv_data (concat ds @ d)] zero_request init_state"
  using recv_any_split[of zero_request init_state ds d] assms parser_inv_init by (simp add: init_state_def)

theorem parse_http_request_split_independent_witness:
  "recv_loop [Recv_data ''GE'', Recv_data ''T /a H'', Recv_data ''TTP/1.1'', Recv_data [CHR 0x0A, CHR 0x0A]]
     zero_request init_state =
   recv_loop [Recv_data (''GET /a HTTP/1.1'' @ [CHR 0x0A, CHR 0x0A])] zero_request init_state"
proof -
  have "recv_loop (map Recv_data [''GE'', ''T /a H'', ''TTP/1.1'']) zero_request init_state = Some None"
    by code_simp
  then show ?thesis
    using parse_http_request_split_independent[of "[''GE'', ''T /a H'', ''TTP/1.1'']" "[CHR 0x0A, CHR 0x0A]"]
    by (simp add: MAX_REQUEST_BYTES_def del: recv_loop.simps)
qed

end
