(* ===== verification/JsonParser.thy ===== *)
theory JsonParser
  imports Prelude
begin

text \<open>
  \<open>src/src/app/json_parser.c\<close>: the scanner of request bodies.  A cursor is the list of the
  bytes between \<open>cur\<close> and \<open>end\<close>; a slice of the input is the list of its bytes.  A routine
  that fails returns \<open>Inl e\<close> with the value of \<open>parser->error\<close>: \<open>-1\<close> for invalid input,
  \<open>-2\<close> when the node of a key cannot be allocated.  A failure ends the whole parse, so all
  that matters of the allocator is how many nodes it can still provide, the field \<open>mem\<close>.
\<close>

unbundle bit_operations_syntax

section \<open>Sequencing of routines that may fail\<close>

definition bindE :: "int + 'a \<Rightarrow> ('a \<Rightarrow> int + 'b) \<Rightarrow> int + 'b" where
  "bindE m f = (case m of Inl e \<Rightarrow> Inl e | Inr x \<Rightarrow> f x)"

lemma bindE_simps [simp]: "bindE (Inl e) f = Inl e" "bindE (Inr x) f = f x"
  by (simp_all add: bindE_def)

lemma bindE_eq_Inr: "bindE m f = Inr y \<longleftrightarrow> (\<exists>x. m = Inr x \<and> f x = Inr y)"
  by (cases m) simp_all

lemma bindE_eq_Inl: "bindE m f = Inl e \<longleftrightarrow> m = Inl e \<or> (\<exists>x. m = Inr x \<and> f x = Inl e)"
  by (cases m) simp_all

section \<open>The parser state\<close>

record json_parser =
  cur :: string
  mem :: nat

definition MAX_JSON_DEPTH :: nat where "MAX_JSON_DEPTH = 64"

definition is_json_space :: "char \<Rightarrow> bool" where
  "is_json_space c \<longleftrightarrow> c = CHR '' '' \<or> c = CHR 0x09 \<or> c = CHR 0x0A \<or> c = CHR 0x0D"

fun skip_whitespace :: "string \<Rightarrow> string" where
  "skip_whitespace [] = []"
| "skip_whitespace (c # s) = (if is_json_space c then skip_whitespace s else c # s)"

section \<open>Strings\<close>

definition byte :: "char \<Rightarrow> nat" where "byte c = of_char c"

definition is_xdigit :: "char \<Rightarrow> bool" where
  "is_xdigit c \<longleftrightarrow> (CHR ''0'' \<le> c \<and> c \<le> CHR ''9'') \<or> (CHR ''a'' \<le> c \<and> c \<le> CHR ''f'') \<or>
     (CHR ''A'' \<le> c \<and> c \<le> CHR ''F'')"

text \<open>The lead byte of a UTF-8 sequence: continuation bytes, first bits, least code point.\<close>

definition utf8_lead :: "nat \<Rightarrow> (nat \<times> nat \<times> nat) option" where
  "utf8_lead c =
     (if 0xc2 \<le> c \<and> c \<le> 0xdf then Some (1, c AND 0x1f, 0x80)
      else if 0xe0 \<le> c \<and> c \<le> 0xef then Some (2, c AND 0x0f, 0x800)
      else if 0xf0 \<le> c \<and> c \<le> 0xf4 then Some (3, c AND 0x07, 0x10000)
      else None)"

fun continuation :: "nat \<Rightarrow> string \<Rightarrow> nat \<Rightarrow> (nat \<times> string) option" where
  "continuation 0 s codepoint = Some (codepoint, s)"
| "continuation (Suc n) s codepoint =
     (case s of
        [] \<Rightarrow> None
      | c # t \<Rightarrow>
          if byte c AND 0xc0 \<noteq> 0x80 then None
          else continuation n t (push_bit 6 codepoint OR (byte c AND 0x3f)))"

text \<open>One multi-byte sequence behind its lead byte: its code point and the rest.\<close>

definition utf8_tail :: "char \<Rightarrow> string \<Rightarrow> (nat \<times> string) option" where
  "utf8_tail c s =
     (case utf8_lead (byte c) of
        None \<Rightarrow> None
      | Some (n, codepoint, minimum) \<Rightarrow>
          if length s < n then None
          else case continuation n s codepoint of
            None \<Rightarrow> None
          | Some (cp, s') \<Rightarrow>
              if cp < minimum \<or> cp > 0x10ffff \<or> (0xd800 \<le> cp \<and> cp \<le> 0xdfff) then None
              else Some (cp, s'))"

lemma continuation_length: "continuation n s cp = Some (v, s') \<Longrightarrow> length s' + n = length s"
  by (induction n arbitrary: s cp) (auto split: if_splits list.splits)

lemma utf8_tail_length: "utf8_tail c s = Some (v, s') \<Longrightarrow> length s' < length s"
  by (auto simp: utf8_tail_def utf8_lead_def simp del: continuation.simps dest!: continuation_length
      split: if_splits option.splits)

text \<open>
  The loop of \<open>parse_json_str\<close> behind the opening quote: the bytes of the slice and the
  rest behind the closing quote, or \<open>None\<close>.
\<close>

function scan_json_str :: "string \<Rightarrow> (string \<times> string) option" where
  "scan_json_str [] = None"
| "scan_json_str (c # s) =
     (if c = CHR 0x22 then Some ([], s)
      else if byte c < 0x20 then None
      else if c = CHR 0x5C then
        (case s of
           [] \<Rightarrow> None
         | d # s1 \<Rightarrow>
             if d = CHR ''u'' then
               if length s1 < 4 then None
               else if \<not> list_all is_xdigit (take 4 s1) then None
               else map_option (\<lambda>(t, r). (c # d # take 4 s1 @ t, r)) (scan_json_str (drop 4 s1))
             else if d \<notin> {CHR 0x22, CHR 0x5C, CHR ''/'', CHR ''b'', CHR ''f'', CHR ''n'', CHR ''r'', CHR ''t''} then None
             else map_option (\<lambda>(t, r). (c # d # t, r)) (scan_json_str s1))
      else if byte c \<ge> 0x80 then
        (case utf8_tail c s of
           None \<Rightarrow> None
         | Some (cp, s1) \<Rightarrow>
             map_option (\<lambda>(t, r). (c # take (length s - length s1) s @ t, r)) (scan_json_str s1))
      else map_option (\<lambda>(t, r). (c # t, r)) (scan_json_str s))"
  by pat_completeness auto
termination
  by (relation "measure length") (auto dest: utf8_tail_length)

declare scan_json_str.simps(2) [simp del]

definition parse_json_str :: "string \<Rightarrow> (string \<times> string) option" where
  "parse_json_str s =
     (case s of [] \<Rightarrow> None | c # t \<Rightarrow> if c \<noteq> CHR 0x22 then None else scan_json_str t)"

section \<open>Values\<close>

text \<open>\<open>consume\<close> leaves the cursor behind the white space also when it fails.\<close>

definition consume :: "json_parser \<Rightarrow> char \<Rightarrow> bool \<times> json_parser" where
  "consume p c =
     (let s = skip_whitespace (cur p) in
      case s of
        [] \<Rightarrow> (False, p\<lparr>cur := s\<rparr>)
      | d # t \<Rightarrow> if d \<noteq> c then (False, p\<lparr>cur := s\<rparr>) else (True, p\<lparr>cur := t\<rparr>))"

definition read_string :: "json_parser \<Rightarrow> int + string \<times> json_parser" where
  "read_string p =
     (case parse_json_str (skip_whitespace (cur p)) of
        None \<Rightarrow> Inl (-1)
      | Some (raw, rest) \<Rightarrow> Inr (raw, p\<lparr>cur := rest\<rparr>))"

text \<open>
  The \<open>do\<close> loops over the members of an object and the elements of an array.  The first
  argument bounds the number of rounds; \<open>Inl 0\<close>, which is no error code, stands for a loop
  that does not end within it, and \<open>read_value_error\<close> shows that it does not occur.
\<close>

primrec read_members :: "nat \<Rightarrow> (string \<Rightarrow> nat \<Rightarrow> 'c \<Rightarrow> json_parser \<Rightarrow> int + 'c \<times> json_parser)
    \<Rightarrow> nat \<Rightarrow> string list \<Rightarrow> 'c \<Rightarrow> json_parser \<Rightarrow> int + 'c \<times> json_parser" where
  "read_members 0 read_field depth keys ctx p = Inl 0"
| "read_members (Suc n) read_field depth keys ctx p =
     bindE (read_string p) (\<lambda>(key, p1).
       if key \<in> set keys then Inl (-1)
       else if mem p1 = 0 then Inl (-2)
       else let (colon, p2) = consume (p1\<lparr>mem := mem p1 - 1\<rparr>) (CHR '':'') in
         if \<not> colon then Inl (-1)
         else bindE (read_field key (depth + 1) ctx p2) (\<lambda>(ctx', p3).
           let (close, p4) = consume p3 (CHR ''}'') in
           if close then Inr (ctx', p4)
           else let (comma, p5) = consume p4 (CHR '','') in
             if comma then read_members n read_field depth (key # keys) ctx' p5
             else Inl (-1)))"

definition read_object :: "json_parser \<Rightarrow> nat
    \<Rightarrow> (string \<Rightarrow> nat \<Rightarrow> 'c \<Rightarrow> json_parser \<Rightarrow> int + 'c \<times> json_parser) \<Rightarrow> 'c \<Rightarrow> int + 'c \<times> json_parser" where
  "read_object p depth read_field ctx =
     (if depth > MAX_JSON_DEPTH then Inl (-1)
      else let (opened, p1) = consume p (CHR ''{'') in
        if \<not> opened then Inl (-1)
        else let (close, p2) = consume p1 (CHR ''}'') in
          if close then Inr (ctx, p2)
          else read_members (length (cur p2) + 1) read_field depth [] ctx p2)"

primrec read_elements :: "nat \<Rightarrow> (json_parser \<Rightarrow> int + json_parser) \<Rightarrow> json_parser \<Rightarrow> int + json_parser" where
  "read_elements 0 read_element p = Inl 0"
| "read_elements (Suc n) read_element p =
     bindE (read_element p) (\<lambda>p1.
       let (close, p2) = consume p1 (CHR '']'') in
       if close then Inr p2
       else let (comma, p3) = consume p2 (CHR '','') in
         if comma then read_elements n read_element p3 else Inl (-1))"

fun skip_literal :: "string list \<Rightarrow> string \<Rightarrow> string option" where
  "skip_literal [] s = None"
| "skip_literal (l # ls) s =
     (if length l \<le> length s \<and> take (length l) s = l then Some (drop (length l) s) else skip_literal ls s)"

definition skip_digits :: "string \<Rightarrow> string" where
  "skip_digits s = dropWhile is_digit s"

text \<open>At least one digit, as the fraction and the exponent demand.\<close>

definition skip_digits1 :: "string \<Rightarrow> string option" where
  "skip_digits1 s = (if skip_digits s = s then None else Some (skip_digits s))"

definition skip_integer :: "string \<Rightarrow> string option" where
  "skip_integer s =
     (case s of
        [] \<Rightarrow> None
      | c # t \<Rightarrow>
          if c = CHR ''0'' then Some t
          else if c < CHR ''1'' \<or> CHR ''9'' < c then None
          else Some (skip_digits t))"

definition skip_fraction :: "string \<Rightarrow> string option" where
  "skip_fraction s = (case s of c # t \<Rightarrow> if c = CHR ''.'' then skip_digits1 t else Some s | [] \<Rightarrow> Some s)"

definition skip_sign :: "char set \<Rightarrow> string \<Rightarrow> string" where
  "skip_sign cs s = (case s of c # t \<Rightarrow> if c \<in> cs then t else s | [] \<Rightarrow> s)"

definition skip_exponent :: "string \<Rightarrow> string option" where
  "skip_exponent s =
     (case s of
        c # t \<Rightarrow> if c = CHR ''e'' \<or> c = CHR ''E'' then skip_digits1 (skip_sign {CHR ''+'', CHR ''-''} t) else Some s
      | [] \<Rightarrow> Some s)"

definition skip_number :: "string \<Rightarrow> string option" where
  "skip_number s = do {
     s1 \<leftarrow> skip_integer (skip_sign {CHR ''-''} s);
     s2 \<leftarrow> skip_fraction s1;
     skip_exponent s2
   }"

text \<open>
  \<open>read_value\<close> at depth \<open>d\<close> is \<open>value_within (MAX_JSON_DEPTH + 1 - d)\<close>: the recursion
  is on the levels that are left.
\<close>

primrec value_within :: "nat \<Rightarrow> json_parser \<Rightarrow> int + json_parser" where
  "value_within 0 p = Inl (-1)"
| "value_within (Suc levels) p =
     (let p1 = p\<lparr>cur := skip_whitespace (cur p)\<rparr> in
      case cur p1 of
        [] \<Rightarrow> Inl (-1)
      | c # t \<Rightarrow>
          if c = CHR 0x22 then bindE (read_string p1) (\<lambda>(raw, p2). Inr p2)
          else if c = CHR ''{'' then
            bindE (read_object p1 (MAX_JSON_DEPTH - levels)
                     (\<lambda>key depth ctx p. map_sum id (\<lambda>p'. (ctx, p')) (value_within levels p)) ())
              (\<lambda>(ctx, p2). Inr p2)
          else if c = CHR ''['' then
            let (close, p2) = consume (p1\<lparr>cur := t\<rparr>) (CHR '']'') in
            if close then Inr p2 else read_elements (length (cur p2) + 1) (value_within levels) p2
          else (case skip_literal [''true'', ''false'', ''null''] (cur p1) of
                  Some r \<Rightarrow> Inr (p1\<lparr>cur := r\<rparr>)
                | None \<Rightarrow>
                    (case skip_number (cur p1) of
                       None \<Rightarrow> Inl (-1)
                     | Some r \<Rightarrow> Inr (p1\<lparr>cur := r\<rparr>))))"

definition read_value :: "json_parser \<Rightarrow> nat \<Rightarrow> int + json_parser" where
  "read_value p depth = value_within (MAX_JSON_DEPTH + 1 - depth) p"

section \<open>Positive integers\<close>

fun integer_loop :: "string \<Rightarrow> nat \<Rightarrow> (nat \<times> string) option" where
  "integer_loop [] number = Some (number, [])"
| "integer_loop (c # s) number =
     (if is_digit c then
        (if number > (INT_MAX - digit_val c) div 10 then None
         else integer_loop s (number * 10 + digit_val c))
      else Some (number, c # s))"

definition read_positive_integer :: "json_parser \<Rightarrow> int + nat \<times> json_parser" where
  "read_positive_integer p =
     (case skip_whitespace (cur p) of
        [] \<Rightarrow> Inl (-1)
      | c # s \<Rightarrow>
          if c < CHR ''1'' \<or> CHR ''9'' < c then Inl (-1)
          else (case integer_loop (c # s) 0 of
                  None \<Rightarrow> Inl (-1)
                | Some (number, r) \<Rightarrow> Inr (number, p\<lparr>cur := r\<rparr>)))"

end
