(* ===== verification/JsonString.thy ===== *)
theory JsonString
  imports JsonParser
begin

text \<open>
  \<open>src/src/app/json_string.c\<close>: the contents of a JSON string literal as code points.  A
  \<open>string_t\<close> whose pointer may be \<open>NULL\<close> is a \<open>string option\<close>.  The specification of what is
  accepted is the relation \<open>json_literal\<close> (the spellings of characters in RFC 8259), that of the
  result the UTF-8 encoding of the sequence of Unicode scalar values.  \<open>codepoints\<close>, the iteration
  of the reader, accepts exactly the literals (\<open>codepoints_iff\<close>); other theories use it as the
  function that computes their code points.
\<close>

section \<open>Reading one code point\<close>

fun hex_quad_loop :: "nat \<Rightarrow> string \<Rightarrow> nat \<Rightarrow> (nat \<times> string) option" where
  "hex_quad_loop 0 s v = Some (v, s)"
| "hex_quad_loop (Suc n) s v =
     (case s of
        [] \<Rightarrow> None
      | c # t \<Rightarrow>
          if CHR ''0'' \<le> c \<and> c \<le> CHR ''9'' then hex_quad_loop n t (v * 16 + (byte c - 48))
          else if CHR ''a'' \<le> c \<and> c \<le> CHR ''f'' then hex_quad_loop n t (v * 16 + (byte c - 97 + 10))
          else if CHR ''A'' \<le> c \<and> c \<le> CHR ''F'' then hex_quad_loop n t (v * 16 + (byte c - 65 + 10))
          else None)"

definition hex_quad :: "string \<Rightarrow> (nat \<times> string) option" where
  "hex_quad s = (if length s < 4 then None else hex_quad_loop 4 s 0)"

definition read_escape_u :: "string \<Rightarrow> (nat \<times> string) option" where
  "read_escape_u s =
     (case hex_quad s of
        None \<Rightarrow> None
      | Some (v, s1) \<Rightarrow>
          if 0xd800 \<le> v \<and> v \<le> 0xdbff then
            (if length s1 < 6 \<or> s1 ! 0 \<noteq> CHR 0x5C \<or> s1 ! 1 \<noteq> CHR ''u'' then None
             else case hex_quad (drop 2 s1) of
               None \<Rightarrow> None
             | Some (low, s2) \<Rightarrow>
                 if low < 0xdc00 \<or> low > 0xdfff then None
                 else Some (0x10000 + push_bit 10 (v - 0xd800) + low - 0xdc00, s2))
          else if v < 0xdc00 \<or> v > 0xdfff then Some (v, s1) else None)"

definition read_codepoint :: "string \<Rightarrow> (nat \<times> string) option" where
  "read_codepoint s =
     (case s of
        [] \<Rightarrow> None
      | c # s1 \<Rightarrow>
          if c = CHR 0x5C then
            (case s1 of
               [] \<Rightarrow> None
             | d # s2 \<Rightarrow>
                 if d \<in> {CHR 0x22, CHR 0x5C, CHR ''/''} then Some (byte d, s2)
                 else if d = CHR ''b'' then Some (8, s2)
                 else if d = CHR ''f'' then Some (12, s2)
                 else if d = CHR ''n'' then Some (10, s2)
                 else if d = CHR ''r'' then Some (13, s2)
                 else if d = CHR ''t'' then Some (9, s2)
                 else if d = CHR ''u'' then read_escape_u s2
                 else None)
          else if byte c < 0x20 \<or> c = CHR 0x22 then None
          else if byte c < 0x80 then Some (byte c, s1)
          else utf8_tail c s1)"

lemma hex_quad_loop_length: "hex_quad_loop n s v = Some (w, r) \<Longrightarrow> length r + n = length s"
  by (induction n arbitrary: s v) (auto split: if_splits list.splits)

lemma hex_quad_length: "hex_quad s = Some (w, r) \<Longrightarrow> length r + 4 = length s"
  by (auto simp: hex_quad_def dest: hex_quad_loop_length split: if_splits)

lemma read_escape_u_length: "read_escape_u s = Some (w, r) \<Longrightarrow> length r < length s"
  by (auto simp: read_escape_u_def dest!: hex_quad_length split: if_splits option.splits)

lemma read_codepoint_length: "read_codepoint s = Some (v, r) \<Longrightarrow> length r < length s"
  by (auto simp: read_codepoint_def dest: utf8_tail_length read_escape_u_length
      split: list.splits if_splits)

section \<open>Comparison and decoding\<close>

function equal_loop :: "string \<Rightarrow> string \<Rightarrow> bool \<Rightarrow> int" where
  "equal_loop a b equal =
     (if a = [] \<and> b = [] then (if equal then 1 else 0)
      else case (if a = [] then Some (0, a) else read_codepoint a,
                 if b = [] then Some (0, b) else read_codepoint b) of
        (Some (x, a'), Some (y, b')) \<Rightarrow>
          equal_loop a' b' (equal \<and> (a \<noteq> []) = (b \<noteq> []) \<and> x = y)
      | _ \<Rightarrow> -1)"
  by pat_completeness auto
termination
  by (relation "measure (\<lambda>(a, b, e). length a + length b)")
    (auto split: if_splits dest!: read_codepoint_length [OF sym])

declare equal_loop.simps [simp del]

definition json_string_equal_decoded :: "string option \<Rightarrow> string option \<Rightarrow> int" where
  "json_string_equal_decoded left right =
     (case (left, right) of (Some a, Some b) \<Rightarrow> equal_loop a b True | _ \<Rightarrow> -1)"

definition encode_codepoint :: "nat \<Rightarrow> string" where
  "encode_codepoint v =
     (if v < 0x80 then [char_of v]
      else if v < 0x800 then
        [char_of (0xc0 OR drop_bit 6 v), char_of (0x80 OR (v AND 0x3f))]
      else if v < 0x10000 then
        [char_of (0xe0 OR drop_bit 12 v), char_of (0x80 OR (drop_bit 6 v AND 0x3f)),
         char_of (0x80 OR (v AND 0x3f))]
      else
        [char_of (0xf0 OR drop_bit 18 v), char_of (0x80 OR (drop_bit 12 v AND 0x3f)),
         char_of (0x80 OR (drop_bit 6 v AND 0x3f)), char_of (0x80 OR (v AND 0x3f))])"

text \<open>
  The loop that fills the buffer of \<open>cap\<close> bytes; a write behind its end and a code point
  that cannot be read are \<open>None\<close>.
\<close>

function decode_loop :: "nat \<Rightarrow> string \<Rightarrow> string \<Rightarrow> string option" where
  "decode_loop cap s buffer =
     (if s = [] then Some buffer
      else case read_codepoint s of
        None \<Rightarrow> None
      | Some (v, s') \<Rightarrow>
          if length buffer + length (encode_codepoint v) > cap then None
          else decode_loop cap s' (buffer @ encode_codepoint v))"
  by pat_completeness auto
termination
  by (relation "measure (\<lambda>(cap, s, b). length s)") (auto dest: read_codepoint_length)

declare decode_loop.simps [simp del]

text \<open>
  The result code and the contents of \<open>*out\<close> (without the terminating NUL, which needs one
  more byte of the buffer).  \<open>alloc\<close>: whether \<open>malloc\<close> succeeds.
\<close>

definition json_string_decode :: "bool \<Rightarrow> string option \<Rightarrow> (int \<times> string option) option" where
  "json_string_decode alloc sl =
     (case sl of
        None \<Rightarrow> Some (-1, None)
      | Some s \<Rightarrow>
          if length s = SIZE_MAX then Some (-1, None)
          else if json_string_equal_decoded sl sl < 0 then Some (-1, None)
          else if \<not> alloc then Some (-2, None)
          else do {
            b \<leftarrow> decode_loop (length s + 1) s [];
            if length b < length s + 1 then Some (0, Some b) else None
          })"

section \<open>UTF-8\<close>

text \<open>
  The bit operations of the encoder and the decoder as arithmetic; the decoder accepts the
  encodings of the scalar values and nothing else.
\<close>

lemma or_low: "b < 2 ^ n \<Longrightarrow> push_bit n a OR b = a * 2 ^ n + (b::nat)"
proof -
  assume "b < 2 ^ n"
  then have b: "take_bit n b = b" by (simp add: take_bit_nat_eq_self)
  have "push_bit n a AND take_bit n b = 0" by (rule bit_eqI) (auto simp: bit_simps)
  then show ?thesis unfolding b by (simp add: disjunctive_add_eq_or [symmetric] push_bit_eq_mult)
qed

lemma and_low [simp]:
  "x AND 0x3f = x mod (64::nat)" "x AND 0x1f = x mod (32::nat)" "x AND 0x0f = x mod (16::nat)"
  "x AND 7 = x mod (8::nat)"
  using take_bit_eq_mask[of 6 x] take_bit_eq_mask[of 5 x] take_bit_eq_mask[of 4 x] take_bit_eq_mask[of 3 x]
  by (simp_all add: mask_eq_exp_minus_1 take_bit_eq_mod)

lemma shift_6: "b < 64 \<Longrightarrow> push_bit 6 a OR b = a * 64 + (b::nat)"
  using or_low[of b 6 a] by simp

lemma or_high:
  "b < 64 \<Longrightarrow> 0x80 OR b = 128 + (b::nat)" "b < 32 \<Longrightarrow> 0xc0 OR b = 192 + (b::nat)"
  "b < 16 \<Longrightarrow> 0xe0 OR b = 224 + (b::nat)" "b < 8 \<Longrightarrow> 0xf0 OR b = 240 + (b::nat)"
  using or_low[of b 6 2] or_low[of b 5 6] or_low[of b 4 14] or_low[of b 3 30] by (simp_all add: push_bit_eq_mult)

lemma continuation_byte: "(byte c AND 0xc0 = 0x80) = (128 \<le> byte c \<and> byte c < 192)"
proof -
  have "list_all (\<lambda>d. (d AND 0xc0 = (0x80::nat)) = (128 \<le> d \<and> d < 192)) [0..<256]" by code_simp
  then show ?thesis by (simp add: byte_def list_all_iff)
qed

definition utf8_encode :: "nat \<Rightarrow> nat list" where
  "utf8_encode v =
     (if v < 128 then [v]
      else if v < 2048 then [192 + v div 64, 128 + v mod 64]
      else if v < 65536 then [224 + v div 4096, 128 + v div 64 mod 64, 128 + v mod 64]
      else [240 + v div 262144, 128 + v div 4096 mod 64, 128 + v div 64 mod 64, 128 + v mod 64])"

lemma encode_codepoint_utf8: "v \<le> 0x10ffff \<Longrightarrow> encode_codepoint v = map char_of (utf8_encode v)"
proof -
  assume v: "v \<le> 0x10ffff"
  have "v < 2048 \<Longrightarrow> v div 64 < 32" "v < 65536 \<Longrightarrow> v div 4096 < 16" "v div 262144 < 8" using v by auto
  then show ?thesis
    unfolding encode_codepoint_def utf8_encode_def by (simp add: drop_bit_eq_div or_high)
qed


definition scalar_value :: "nat \<Rightarrow> bool" where
  "scalar_value v \<longleftrightarrow> v \<le> 0x10ffff \<and> \<not> (0xd800 \<le> v \<and> v \<le> 0xdfff)"

lemma char_of_byte [simp]: "char_of (byte c) = c" by (simp add: byte_def)

lemma byte_char_of [simp]: "n < 256 \<Longrightarrow> byte (char_of n) = n" by (simp add: byte_def)

lemma byte_less: "byte c < 256" by (simp add: byte_def)

lemma continuation_Cons:
  "continuation (Suc n) (c # s) cp =
     (if 128 \<le> byte c \<and> byte c < 192 then continuation n s (cp * 64 + byte c mod 64) else None)"
  by (simp add: continuation_byte shift_6)

lemma low_part [simp]:
  "x < 32 \<Longrightarrow> (192 + x) mod 32 = (x::nat)" "x < 16 \<Longrightarrow> (224 + x) mod 16 = (x::nat)"
  "x < 8 \<Longrightarrow> (240 + x) mod 8 = (x::nat)" "x < 64 \<Longrightarrow> (128 + x) mod 64 = (x::nat)"
  using mod_mult_self4[of 32 6 x] mod_mult_self4[of 16 14 x] mod_mult_self4[of 8 30 x] mod_mult_self4[of 64 2 x]
  by simp_all

lemma split_three: "(v div 4096 * 64 + v div 64 mod 64) * 64 + v mod 64 = (v::nat)"
proof -
  have "v div 4096 = v div 64 div 64" by (simp add: div_mult2_eq [symmetric])
  then show ?thesis by (simp only: div_mult_mod_eq)
qed

lemma split_four: "((v div 262144 * 64 + v div 4096 mod 64) * 64 + v div 64 mod 64) * 64 + v mod 64 = (v::nat)"
proof -
  have "v div 262144 = v div 4096 div 64" "v div 4096 = v div 64 div 64"
    by (simp_all add: div_mult2_eq [symmetric])
  then show ?thesis by (simp only: div_mult_mod_eq)
qed

lemma utf8_tail_encode:
  assumes "128 \<le> v" "scalar_value v" "encode_codepoint v = c # t"
  shows "utf8_tail c (t @ r) = Some (v, r)"
proof -
  have v: "v \<le> 0x10ffff" "\<not> (0xd800 \<le> v \<and> v \<le> 0xdfff)" using assms(2) by (auto simp: scalar_value_def)
  consider (two) "v < 2048" | (three) "2048 \<le> v" "v < 65536" | (four) "65536 \<le> v" by linarith
  then show ?thesis
  proof cases
    case two
    then have e: "c = char_of (192 + v div 64)" "t = [char_of (128 + v mod 64)]"
      using assms(1,3) encode_codepoint_utf8[OF v(1)] by (auto simp: utf8_encode_def)
    have d: "v div 64 < 32" "2 \<le> v div 64" using two assms(1) by auto
    have "utf8_lead (byte c) = Some (1, v div 64, 0x80)"
      using d by (simp add: utf8_lead_def e)
    then show ?thesis using v assms(1)
      by (simp add: utf8_tail_def e continuation_Cons del: continuation.simps(2))
  next
    case three
    then have e: "c = char_of (224 + v div 4096)" "t = [char_of (128 + v div 64 mod 64), char_of (128 + v mod 64)]"
      using assms(1,3) encode_codepoint_utf8[OF v(1)] by (auto simp: utf8_encode_def)
    have d: "v div 4096 < 16" using three by auto
    have m: "v div 64 mod 64 < 64" "v mod 64 < 64" by simp_all
    have "utf8_lead (byte c) = Some (2, v div 4096, 0x800)"
      using d by (simp add: utf8_lead_def e)
    then show ?thesis using v three m split_three[of v]
      by (simp add: utf8_tail_def e continuation_Cons numeral_2_eq_2 del: continuation.simps(2))
  next
    case four
    then have e: "c = char_of (240 + v div 262144)" "t = [char_of (128 + v div 4096 mod 64),
       char_of (128 + v div 64 mod 64), char_of (128 + v mod 64)]"
      using assms(1,3) encode_codepoint_utf8[OF v(1)] by (auto simp: utf8_encode_def)
    have d: "v div 262144 \<le> 4" using v by auto
    have m: "v div 4096 mod 64 < 64" "v div 64 mod 64 < 64" "v mod 64 < 64" by simp_all
    have "utf8_lead (byte c) = Some (3, v div 262144, 0x10000)"
      using d by (simp add: utf8_lead_def e)
    then show ?thesis using v four m split_four[of v]
      by (simp add: utf8_tail_def e continuation_Cons numeral_3_eq_3 del: continuation.simps(2))
  qed
qed

lemma encode_lead:
  assumes "scalar_value v" "128 \<le> v"
  shows "\<exists>c t. encode_codepoint v = c # t \<and> 128 \<le> byte c"
proof -
  have e: "encode_codepoint v = map char_of (utf8_encode v)"
    using assms(1) by (intro encode_codepoint_utf8) (simp add: scalar_value_def)
  then obtain c t where ct: "encode_codepoint v = c # t" by (simp add: utf8_encode_def split: if_splits)
  then have "128 \<le> byte c" using e assms by (auto simp: utf8_encode_def scalar_value_def split: if_splits)
  then show ?thesis using ct by blast
qed

lemma byte_offset:
  assumes "lo \<le> byte c" shows "\<exists>x. byte c = lo + x \<and> c = char_of (lo + x)"
proof -
  have "byte c = lo + (byte c - lo)" using assms by simp
  then show ?thesis by (metis char_of_byte)
qed

lemma continuation_CASE:
  assumes "continuation (Suc n) s cp = Some (v, r)"
  shows "\<exists>x s1. x < 64 \<and> s = char_of (128 + x) # s1 \<and> continuation n s1 (cp * 64 + x) = Some (v, r)"
proof -
  obtain c s1 where s: "s = c # s1" using assms by (cases s) auto
  then have c: "128 \<le> byte c" "byte c < 192" "continuation n s1 (cp * 64 + byte c mod 64) = Some (v, r)"
    using assms continuation_Cons[of n c s1 cp] by (auto split: if_splits)
  obtain x where x: "byte c = 128 + x" "c = char_of (128 + x)" using byte_offset[OF c(1)] by blast
  then have "x < 64" using c(2) by simp
  then show ?thesis using s c x by auto
qed

lemma digit_64: "b < 64 \<Longrightarrow> (a * 64 + b) mod 64 = (b::nat)" "b < 64 \<Longrightarrow> (a * 64 + b) div 64 = (a::nat)"
  by simp_all

lemma utf8_tail_sound:
  assumes "utf8_tail c s = Some (v, r)"
  shows "128 \<le> v \<and> scalar_value v \<and> c # s = encode_codepoint v @ r"
proof -
  obtain n cp0 mi where l: "utf8_lead (byte c) = Some (n, cp0, mi)" "continuation n s cp0 = Some (v, r)"
    and v: "mi \<le> v" "scalar_value v"
    using assms by (auto simp: utf8_tail_def scalar_value_def split: option.splits if_splits)
  have le: "v \<le> 0x10ffff" using v by (simp add: scalar_value_def)
  consider (two) "0xc2 \<le> byte c" "byte c \<le> 0xdf" | (three) "0xe0 \<le> byte c" "byte c \<le> 0xef"
    | (four) "0xf0 \<le> byte c" "byte c \<le> 0xf4"
    using l(1) by (auto simp: utf8_lead_def split: if_splits)
  then show ?thesis
  proof cases
    case two
    then obtain x where x: "byte c = 192 + x" "c = char_of (192 + x)" "x < 32" "2 \<le> x"
      using byte_offset[of 192 c] by auto
    have l2: "n = Suc 0" "cp0 = x" "mi = 128" using l(1) x by (auto simp: utf8_lead_def)
    obtain y where "y < 64" "s = char_of (128 + y) # r" "v = x * 64 + y"
      using continuation_CASE[of 0 s cp0 v r] l(2) l2 by auto
    moreover from this have "v < 2048" "v div 64 = x" "v mod 64 = y" using x by auto
    ultimately show ?thesis using v l2 x encode_codepoint_utf8[OF le] by (simp add: utf8_encode_def)
  next
    case three
    then obtain x where x: "byte c = 224 + x" "c = char_of (224 + x)" "x < 16"
      using byte_offset[of 224 c] by auto
    have l2: "n = Suc (Suc 0)" "cp0 = x" "mi = 2048" using l(1) x by (auto simp: utf8_lead_def)
    obtain y s1 where y: "y < 64" "s = char_of (128 + y) # s1" "continuation (Suc 0) s1 (x * 64 + y) = Some (v, r)"
      using continuation_CASE[of "Suc 0" s cp0 v r] l(2) l2 by auto
    obtain z where z: "z < 64" "s1 = char_of (128 + z) # r" "v = (x * 64 + y) * 64 + z"
      using continuation_CASE[OF y(3)] by auto
    have "v < 65536" using x y z by simp
    moreover have "v mod 64 = z" "v div 64 = x * 64 + y"
      unfolding z(3) by (simp_all only: digit_64[OF z(1)])
    moreover from this have "v div 64 mod 64 = y" "v div 4096 = x"
      using digit_64[OF y(1), of x] div_mult2_eq[of v 64 64] by simp_all
    ultimately show ?thesis using v l2 x y z encode_codepoint_utf8[OF le] by (simp add: utf8_encode_def)
  next
    case four
    then obtain x where x: "byte c = 240 + x" "c = char_of (240 + x)" "x < 8"
      using byte_offset[of 240 c] by auto
    have l2: "n = Suc (Suc (Suc 0))" "cp0 = x" "mi = 65536" using l(1) x four(2) by (auto simp: utf8_lead_def)
    obtain y s1 where y: "y < 64" "s = char_of (128 + y) # s1" "continuation (Suc (Suc 0)) s1 (x * 64 + y) = Some (v, r)"
      using continuation_CASE[of "Suc (Suc 0)" s cp0 v r] l(2) l2 by auto
    obtain z s2 where z: "z < 64" "s1 = char_of (128 + z) # s2" "continuation (Suc 0) s2 ((x * 64 + y) * 64 + z) = Some (v, r)"
      using continuation_CASE[OF y(3)] by auto
    obtain w where w: "w < 64" "s2 = char_of (128 + w) # r" "v = ((x * 64 + y) * 64 + z) * 64 + w"
      using continuation_CASE[OF z(3)] by auto
    have "v mod 64 = w" "v div 64 = (x * 64 + y) * 64 + z"
      unfolding w(3) by (simp_all only: digit_64[OF w(1)])
    moreover from this have "v div 64 mod 64 = z" "v div 4096 = x * 64 + y"
      using digit_64[OF z(1), of "x * 64 + y"] div_mult2_eq[of v 64 64] by simp_all
    moreover from this have "v div 4096 mod 64 = y" "v div 262144 = x"
      using digit_64[OF y(1), of x] div_mult2_eq[of v 4096 64] by simp_all
    ultimately show ?thesis using v l2 x y z w encode_codepoint_utf8[OF le] by (simp add: utf8_encode_def)
  qed
qed

lemma hex_quad_loop_bound: "hex_quad_loop n s v = Some (w, r) \<Longrightarrow> w < (v + 1) * 16 ^ n"
proof (induction n arbitrary: s v)
  case (Suc n)
  have step: "(v * 16 + d + 1) * 16 ^ n \<le> (v + 1) * 16 ^ Suc n" if "d < 16" for d v :: nat
  proof -
    have le: "v * 16 + d + 1 \<le> (v + 1) * 16" using that by simp
    have "(v * 16 + d + 1) * 16 ^ n \<le> ((v + 1) * 16) * 16 ^ n" by (rule mult_le_mono1[OF le])
    then show ?thesis by (simp only: power_Suc mult.assoc)
  qed
  have le: "\<And>c. CHR ''0'' \<le> c \<and> c \<le> CHR ''9'' \<Longrightarrow> byte c - 48 < 16"
    "\<And>c. CHR ''a'' \<le> c \<and> c \<le> CHR ''f'' \<Longrightarrow> byte c - 97 + 10 < 16"
    "\<And>c. CHR ''A'' \<le> c \<and> c \<le> CHR ''F'' \<Longrightarrow> byte c - 65 + 10 < 16"
    by (auto simp: less_eq_char_def byte_def)
  obtain c t where s: "s = c # t" using Suc.prems by (cases s) auto
  have "\<exists>d<16. hex_quad_loop n t (v * 16 + d) = Some (w, r)"
    using Suc.prems s le[of c]
    by (auto split: if_split_asm intro: exI[of _ "byte c - 48"] exI[of _ "byte c - 97 + 10"] exI[of _ "byte c - 65 + 10"])
  then obtain d where d: "d < 16" "hex_quad_loop n t (v * 16 + d) = Some (w, r)" by blast
  show ?case using Suc.IH[OF d(2)] step[OF d(1)] by (rule less_le_trans)
qed simp_all

lemma hex_quad_bound: "hex_quad s = Some (v, r) \<Longrightarrow> v < 65536"
  using hex_quad_loop_bound[of 4 s 0 v r] by (auto simp: hex_quad_def split: if_splits)

lemma length_encode:
  "length (encode_codepoint v) = (if v < 0x80 then 1 else if v < 0x800 then 2 else if v < 0x10000 then 3 else 4)"
  by (simp add: encode_codepoint_def)

definition good_codepoint :: "string \<Rightarrow> nat \<Rightarrow> string \<Rightarrow> bool" where
  "good_codepoint s v r \<longleftrightarrow> scalar_value v \<and> length (encode_codepoint v) + length r \<le> length s"

lemma read_escape_u_good: "read_escape_u s = Some (v, r) \<Longrightarrow> scalar_value v \<and> length (encode_codepoint v) + length r < length s"
proof -
  assume a: "read_escape_u s = Some (v, r)"
  obtain w s1 where w: "hex_quad s = Some (w, s1)" using a by (auto simp: read_escape_u_def split: option.splits)
  note b = hex_quad_bound[OF w] hex_quad_length[OF w]
  show ?thesis
  proof (cases "0xd800 \<le> w \<and> w \<le> 0xdbff")
    case True
    then obtain low where l: "hex_quad (drop 2 s1) = Some (low, r)" "\<not> length s1 < 6" "0xdc00 \<le> low" "low \<le> 0xdfff"
      "v = 0x10000 + push_bit 10 (w - 0xd800) + low - 0xdc00"
      using a w by (auto simp: read_escape_u_def split: option.splits if_splits)
    have "w - 0xd800 < 1024" using True by auto
    then have "v \<le> 0x10ffff" "0x10000 \<le> v" using l(3-5) by (auto simp: push_bit_eq_mult)
    then show ?thesis using hex_quad_length[OF l(1)] l(2) b by (simp add: scalar_value_def length_encode)
  next
    case False
    then have "v = w" "s1 = r" "v < 0xdc00 \<or> v > 0xdfff"
      using a w by (auto simp: read_escape_u_def split: if_splits)
    then show ?thesis using b False by (auto simp: scalar_value_def length_encode)
  qed
qed

lemma read_codepoint_good:
  assumes "read_codepoint s = Some (v, r)"
  shows "good_codepoint s v r"
proof -
  obtain c s1 where s: "s = c # s1" using assms by (cases s) (auto simp: read_codepoint_def)
  show ?thesis
  proof (cases "c = CHR 0x5C")
    case True
    then obtain d s2 where d: "s1 = d # s2" using assms s by (cases s1) (auto simp: read_codepoint_def)
    show ?thesis
    proof (cases "d = CHR ''u''")
      case True
      then have "read_escape_u s2 = Some (v, r)" using assms s d \<open>c = CHR 0x5C\<close> by (simp add: read_codepoint_def)
      from read_escape_u_good[OF this] show ?thesis using s d by (simp add: good_codepoint_def)
    next
      case False
      then show ?thesis using assms s d True
        by (auto simp: read_codepoint_def good_codepoint_def scalar_value_def length_encode byte_def split: if_splits)
    qed
  next
    case False
    show ?thesis
    proof (cases "byte c < 0x80")
      case True
      then show ?thesis using assms s False
        by (auto simp: read_codepoint_def good_codepoint_def scalar_value_def length_encode split: if_splits)
    next
      case hi: False
      then have "utf8_tail c s1 = Some (v, r)" using assms s False
        by (auto simp: read_codepoint_def split: if_splits)
      from utf8_tail_sound[OF this] have "scalar_value v" "c # s1 = encode_codepoint v @ r" by auto
      from this(2) have "length (c # s1) = length (encode_codepoint v @ r)" by simp
      then show ?thesis using s \<open>scalar_value v\<close> by (simp add: good_codepoint_def)
    qed
  qed
qed

section \<open>Specification: the spellings of a code point\<close>

text \<open>
  The contents of a JSON string literal, as RFC 8259 writes them and without the routines above: a
  character is a byte of ASCII other than the quote, the backslash and the controls, an escape of
  one letter, \<open>\u\<close> with four hexadecimal digits, two such escapes that form a surrogate pair, or
  the UTF-8 encoding of a scalar value from 128.
\<close>

definition short_escapes :: "(char \<times> nat) list" where
  "short_escapes = [(CHR 0x22, 0x22), (CHR 0x5C, 0x5C), (CHR ''/'', 0x2F), (CHR ''b'', 0x08),
     (CHR ''f'', 0x0C), (CHR ''n'', 0x0A), (CHR ''r'', 0x0D), (CHR ''t'', 0x09)]"

inductive hex_quartet :: "nat \<Rightarrow> string \<Rightarrow> bool" where
  "hex_digit i p \<Longrightarrow> hex_digit j q \<Longrightarrow> hex_digit k r \<Longrightarrow> hex_digit l s \<Longrightarrow>
    hex_quartet (4096 * i + 256 * j + 16 * k + l) [p, q, r, s]"

inductive spelling :: "nat \<Rightarrow> string \<Rightarrow> bool" where
  plain: "0x20 \<le> v \<Longrightarrow> v < 0x80 \<Longrightarrow> v \<notin> {0x22, 0x5C} \<Longrightarrow> spelling v [char_of v]"
| short: "(c, v) \<in> set short_escapes \<Longrightarrow> spelling v [CHR 0x5C, c]"
| unicode: "hex_quartet v p \<Longrightarrow> scalar_value v \<Longrightarrow> spelling v (CHR 0x5C # CHR ''u'' # p)"
| surrogates: "hex_quartet h p \<Longrightarrow> hex_quartet l q \<Longrightarrow> h \<in> {0xD800..0xDBFF} \<Longrightarrow> l \<in> {0xDC00..0xDFFF} \<Longrightarrow>
     spelling (0x10000 + (h - 0xD800) * 0x400 + (l - 0xDC00)) (CHR 0x5C # CHR ''u'' # p @ CHR 0x5C # CHR ''u'' # q)"
| utf8: "scalar_value v \<Longrightarrow> 0x80 \<le> v \<Longrightarrow> spelling v (map char_of (utf8_encode v))"

inductive json_literal :: "nat list \<Rightarrow> string \<Rightarrow> bool" where
  empty: "json_literal [] []"
| more: "spelling v p \<Longrightarrow> json_literal vs s \<Longrightarrow> json_literal (v # vs) (p @ s)"

lemma digit_codes: "list_all (\<lambda>n. let u = ''0123456789ABCDEF'' ! n; l = ''0123456789abcdef'' ! n in
    (if n < 10 then byte u = 48 + n \<and> byte l = 48 + n else byte u = 55 + n \<and> byte l = 87 + n)) [0..<16]"
  by code_simp

lemma hex_digit_code:
  "hex_digit n c \<Longrightarrow> n < 16 \<and> (if n < 10 then byte c = 48 + n else byte c = 55 + n \<or> byte c = 87 + n)"
  using digit_codes by (auto simp: hex_digit_def list_all_iff Let_def split: if_splits)

lemma code_hex_digit:
  "48 \<le> byte c \<Longrightarrow> byte c \<le> 57 \<Longrightarrow> hex_digit (byte c - 48) c"
  "97 \<le> byte c \<Longrightarrow> byte c \<le> 102 \<Longrightarrow> hex_digit (byte c - 87) c"
  "65 \<le> byte c \<Longrightarrow> byte c \<le> 70 \<Longrightarrow> hex_digit (byte c - 55) c"
  using digit_texts(1)[of "byte c - 48"] digit_texts(3)[of "byte c - 87"] digit_texts(2)[of "byte c - 55"]
  by (auto simp: hex_digit_def)

lemma hex_loop_Cons:
  "hex_quad_loop (Suc n) (c # t) v =
     (if 48 \<le> byte c \<and> byte c \<le> 57 then hex_quad_loop n t (v * 16 + (byte c - 48))
      else if 97 \<le> byte c \<and> byte c \<le> 102 then hex_quad_loop n t (v * 16 + (byte c - 87))
      else if 65 \<le> byte c \<and> byte c \<le> 70 then hex_quad_loop n t (v * 16 + (byte c - 55)) else None)"
proof -
  have "97 \<le> byte c \<Longrightarrow> byte c - 97 + 10 = byte c - 87" "65 \<le> byte c \<Longrightarrow> byte c - 65 + 10 = byte c - 55" by simp_all
  then show ?thesis by (simp add: less_eq_char_def byte_def)
qed

lemma hex_loop_digit:
  "hex_digit d c \<Longrightarrow> hex_quad_loop (Suc n) (c # t) v = hex_quad_loop n t (v * 16 + d)"
  using hex_digit_code[of d c] by (auto simp: hex_loop_Cons simp del: hex_quad_loop.simps(2) split: if_splits)

lemma hex_loop_CASE:
  assumes "hex_quad_loop (Suc n) s v = Some x"
  shows "\<exists>d c t. hex_digit d c \<and> s = c # t \<and> hex_quad_loop n t (v * 16 + d) = Some x"
proof -
  obtain c t where s: "s = c # t" using assms by (cases s) auto
  then have "48 \<le> byte c \<and> byte c \<le> 57 \<or> 97 \<le> byte c \<and> byte c \<le> 102 \<or> 65 \<le> byte c \<and> byte c \<le> 70"
    using assms by (auto simp: hex_loop_Cons simp del: hex_quad_loop.simps(2) split: if_splits)
  then obtain d where "hex_digit d c" using code_hex_digit by blast
  then show ?thesis using assms s hex_loop_digit[of d c n t v] by auto
qed

lemma four: "4 = Suc (Suc (Suc (Suc 0)))" by simp

lemma hex_quad_iff: "hex_quad s = Some (v, r) \<longleftrightarrow> (\<exists>q. hex_quartet v q \<and> s = q @ r)"
proof
  assume "hex_quad s = Some (v, r)"
  then have l: "hex_quad_loop (Suc (Suc (Suc (Suc 0)))) s 0 = Some (v, r)"
    unfolding hex_quad_def four by (simp split: if_splits)
  obtain i p s1 where 1: "hex_digit i p" "s = p # s1" "hex_quad_loop (Suc (Suc (Suc 0))) s1 (0 * 16 + i) = Some (v, r)"
    using hex_loop_CASE[OF l] by blast
  obtain j q s2 where 2: "hex_digit j q" "s1 = q # s2" "hex_quad_loop (Suc (Suc 0)) s2 ((0 * 16 + i) * 16 + j) = Some (v, r)"
    using hex_loop_CASE[OF 1(3)] by blast
  obtain k t s3 where 3: "hex_digit k t" "s2 = t # s3" "hex_quad_loop (Suc 0) s3 (((0 * 16 + i) * 16 + j) * 16 + k) = Some (v, r)"
    using hex_loop_CASE[OF 2(3)] by blast
  obtain l u s4 where 4: "hex_digit l u" "s3 = u # s4" "hex_quad_loop 0 s4 ((((0 * 16 + i) * 16 + j) * 16 + k) * 16 + l) = Some (v, r)"
    using hex_loop_CASE[OF 3(3)] by blast
  then have "v = 4096 * i + 256 * j + 16 * k + l" "s = [p, q, t, u] @ r" using 1(2) 2(2) 3(2) by simp_all
  then show "\<exists>q. hex_quartet v q \<and> s = q @ r"
    using hex_quartet.intros[OF 1(1) 2(1) 3(1) 4(1)] by blast
next
  assume "\<exists>q. hex_quartet v q \<and> s = q @ r"
  then obtain i p j q k t l u where h: "hex_digit i p" "hex_digit j q" "hex_digit k t" "hex_digit l u"
    "v = 4096 * i + 256 * j + 16 * k + l" "s = p # q # t # u # r" by (auto elim!: hex_quartet.cases)
  have "hex_quad_loop 4 s 0 = Some ((((0 * 16 + i) * 16 + j) * 16 + k) * 16 + l, r)"
    unfolding four h(6) by (simp only: hex_loop_digit[OF h(1)] hex_loop_digit[OF h(2)] hex_loop_digit[OF h(3)]
        hex_loop_digit[OF h(4)] hex_quad_loop.simps(1))
  then show "hex_quad s = Some (v, r)" using h(5,6) by (simp add: hex_quad_def)
qed

lemma hex_quad_append: "hex_quartet v q \<Longrightarrow> hex_quad (q @ r) = Some (v, r)"
  by (auto simp: hex_quad_iff)

lemma hex_quartet_length: "hex_quartet v q \<Longrightarrow> length q = 4"
  by (auto elim: hex_quartet.cases)

text \<open>\<open>read_codepoint\<close> reads one spelling, and whatever it reads is one.\<close>

lemma char_of_iff: "v < 256 \<Longrightarrow> char_of v = c \<longleftrightarrow> v = byte c"
  using byte_char_of[of v] char_of_byte[of c] by metis

lemma special_bytes: "byte (CHR 0x5C) = 0x5C" "byte (CHR 0x22) = 0x22"
  by (simp_all add: byte_def)

lemma read_short_escape:
  "d \<noteq> CHR ''u'' \<Longrightarrow> read_codepoint (CHR 0x5C # d # s) = map_option (\<lambda>v. (v, s)) (map_of short_escapes d)"
  by (simp add: read_codepoint_def short_escapes_def byte_def)

lemma read_spelling:
  assumes "spelling v p"
  shows "read_codepoint (p @ r) = Some (v, r)"
  using assms
proof cases
  case plain
  then have "char_of v \<noteq> CHR 0x5C" "char_of v \<noteq> CHR 0x22" by (simp_all add: char_of_iff special_bytes)
  then show ?thesis using plain by (simp add: read_codepoint_def)
next
  case (short c)
  have "distinct (map fst short_escapes)" by code_simp
  then have "map_of short_escapes c = Some v" using short by simp
  moreover have "c \<noteq> CHR ''u''" using short by (auto simp: short_escapes_def)
  ultimately show ?thesis using short by (simp add: read_short_escape)
next
  case (unicode q)
  then show ?thesis using hex_quad_append[of v q r]
    by (auto simp: read_codepoint_def read_escape_u_def scalar_value_def)
next
  case (surrogates h q l q')
  let ?t = "CHR 0x5C # CHR ''u'' # q' @ r"
  have "hex_quad (q @ ?t) = Some (h, ?t)" "hex_quad (q' @ r) = Some (l, r)" "length ?t \<ge> 6"
    using surrogates hex_quad_append hex_quartet_length[of l q'] by simp_all
  then show ?thesis using surrogates by (simp add: read_codepoint_def read_escape_u_def push_bit_eq_mult)
next
  case utf8
  then have e: "p = encode_codepoint v" by (simp add: encode_codepoint_utf8 scalar_value_def)
  then obtain c t where c: "p = c # t" "128 \<le> byte c" using encode_lead[of v] utf8 by auto
  then have "utf8_tail c (t @ r) = Some (v, r)" using utf8_tail_encode[of v c t r] utf8 e by simp
  moreover have "c \<noteq> CHR 0x5C" "c \<noteq> CHR 0x22" using c(2) by (auto simp: byte_def)
  ultimately show ?thesis using c by (simp add: read_codepoint_def)
qed

lemma escape_u_spelling:
  assumes "read_escape_u s = Some (v, r)"
  shows "\<exists>p. spelling v (CHR 0x5C # CHR ''u'' # p) \<and> s = p @ r"
proof -
  obtain h t where h: "hex_quad s = Some (h, t)" using assms by (auto simp: read_escape_u_def split: option.splits)
  then obtain p where p: "hex_quartet h p" "s = p @ t" by (auto simp: hex_quad_iff)
  show ?thesis
  proof (cases "0xd800 \<le> h \<and> h \<le> 0xdbff")
    case True
    then obtain l where l: "\<not> length t < 6" "t ! 0 = CHR 0x5C" "t ! 1 = CHR ''u''" "hex_quad (drop 2 t) = Some (l, r)"
      "0xdc00 \<le> l" "l \<le> 0xdfff" "v = 0x10000 + push_bit 10 (h - 0xd800) + l - 0xdc00"
      using assms h by (auto simp: read_escape_u_def split: option.splits if_splits)
    obtain q where q: "hex_quartet l q" "drop 2 t = q @ r" using l(4) by (auto simp: hex_quad_iff)
    have "t = t ! 0 # t ! 1 # drop 2 t" using l(1) by (cases t; cases "tl t") auto
    then have t: "t = CHR 0x5C # CHR ''u'' # q @ r" using l(2,3) q(2) by simp
    have "v = 0x10000 + (h - 0xD800) * 0x400 + (l - 0xDC00)" using l(5,7) by (simp add: push_bit_eq_mult)
    then show ?thesis using spelling.surrogates[OF p(1) q(1)] True l(5,6) p(2) t
      by (intro exI[of _ "p @ CHR 0x5C # CHR ''u'' # q"]) simp
  next
    case False
    then have "v = h" "r = t" "scalar_value h" using assms h hex_quad_bound[OF h]
      by (auto simp: read_escape_u_def scalar_value_def split: if_splits)
    then show ?thesis using spelling.unicode[OF p(1)] p(2) by blast
  qed
qed

lemma codepoint_spelling:
  assumes "read_codepoint s = Some (v, r)"
  shows "\<exists>p. spelling v p \<and> s = p @ r"
proof -
  obtain c s1 where s: "s = c # s1" using assms by (cases s) (auto simp: read_codepoint_def)
  consider (esc) "c = CHR 0x5C" | (plain) "c \<noteq> CHR 0x5C" "byte c < 0x80" | (high) "c \<noteq> CHR 0x5C" "0x80 \<le> byte c" by force
  then show ?thesis
  proof cases
    case esc
    then obtain d s2 where d: "s1 = d # s2" using assms s by (cases s1) (auto simp: read_codepoint_def)
    show ?thesis
    proof (cases "d = CHR ''u''")
      case True
      then have "read_escape_u s2 = Some (v, r)" using assms s d esc by (simp add: read_codepoint_def)
      from escape_u_spelling[OF this] show ?thesis using s d esc True by force
    next
      case False
      then have "(d, v) \<in> set short_escapes" "r = s2" using assms s d esc
        by (auto simp: read_short_escape dest: map_of_SomeD split: option.splits)
      then show ?thesis using spelling.short s d esc by (intro exI[of _ "[c, d]"]) simp
    qed
  next
    case plain
    then have v: "v = byte c" "r = s1" "0x20 \<le> byte c" "c \<noteq> CHR 0x22" using assms s by (auto simp: read_codepoint_def split: if_splits)
    moreover have "byte c \<noteq> 0x22" "byte c \<noteq> 0x5C"
      using v(4) plain(1) char_of_iff[of "0x22" c] char_of_iff[of "0x5C" c] char_of_iff[of "0x22" "CHR 0x22"]
        char_of_iff[of "0x5C" "CHR 0x5C"] by (simp_all add: special_bytes)
    ultimately show ?thesis using spelling.plain[of "byte c"] plain s by (intro exI[of _ "[c]"]) simp
  next
    case high
    then have "utf8_tail c s1 = Some (v, r)" using assms s by (auto simp: read_codepoint_def split: if_splits)
    from utf8_tail_sound[OF this] show ?thesis using s spelling.utf8[of v] encode_codepoint_utf8[of v]
      by (auto simp: scalar_value_def)
  qed
qed

section \<open>Specification: the code points of a literal\<close>

function codepoints :: "string \<Rightarrow> nat list option" where
  "codepoints s =
     (if s = [] then Some []
      else case read_codepoint s of
        None \<Rightarrow> None
      | Some (v, s') \<Rightarrow> map_option (\<lambda>vs. v # vs) (codepoints s'))"
  by pat_completeness auto
termination by (relation "measure length") (auto dest: read_codepoint_length)

declare codepoints.simps [simp del]

lemma codepoints_Nil [simp]: "codepoints [] = Some []" by (simp add: codepoints.simps)

lemma codepoints_Some:
  "codepoints s = Some vs \<Longrightarrow>
   list_all scalar_value vs \<and> length (concat (map encode_codepoint vs)) \<le> length s"
proof (induction s arbitrary: vs rule: codepoints.induct)
  case (1 s)
  show ?case
  proof (cases "s = []")
    case False
    then obtain v s' ws where v: "read_codepoint s = Some (v, s')" "codepoints s' = Some ws" "vs = v # ws"
      using 1(2) by (subst (asm) codepoints.simps) (auto split: option.splits)
    then show ?thesis using 1(1)[OF False v(1) refl v(2)] read_codepoint_good[OF v(1)]
      by (simp add: good_codepoint_def)
  qed (use 1(2) in simp)
qed

lemma decode_loop_codepoints:
  assumes "codepoints s = Some vs" "length buffer + length s < cap"
  shows "decode_loop cap s buffer = Some (buffer @ concat (map encode_codepoint vs))"
  using assms
proof (induction s arbitrary: vs buffer rule: codepoints.induct)
  case (1 s)
  show ?case
  proof (cases "s = []")
    case True
    then show ?thesis using 1(2) by (simp add: decode_loop.simps)
  next
    case False
    then obtain v s' ws where v: "read_codepoint s = Some (v, s')" "codepoints s' = Some ws" "vs = v # ws"
      using 1(2) by (subst (asm) codepoints.simps) (auto split: option.splits)
    have g: "length (encode_codepoint v) + length s' \<le> length s"
      using read_codepoint_good[OF v(1)] by (simp add: good_codepoint_def)
    have "decode_loop cap s' (buffer @ encode_codepoint v) = Some ((buffer @ encode_codepoint v) @ concat (map encode_codepoint ws))"
      by (rule 1(1)[OF False v(1) refl v(2)]) (use g 1(3) in simp)
    then show ?thesis using v False g 1(3) by (subst decode_loop.simps) simp
  qed
qed

lemma codepoints_Cons:
  "s \<noteq> [] \<Longrightarrow> codepoints s = (case read_codepoint s of None \<Rightarrow> None
     | Some (v, s') \<Rightarrow> map_option (\<lambda>vs. v # vs) (codepoints s'))"
  by (subst codepoints.simps) simp

lemma equal_loop_codepoints:
  "equal_loop a b e =
    (case (codepoints a, codepoints b) of
       (Some x, Some y) \<Rightarrow> if e \<and> x = y then 1 else 0
     | _ \<Rightarrow> -1)"
proof (induction a b e rule: equal_loop.induct)
  case (1 a b e)
  define ra where "ra = (if a = [] then Some (0, a) else read_codepoint a)"
  define rb where "rb = (if b = [] then Some (0, b) else read_codepoint b)"
  have eq: "equal_loop a b e = (if a = [] \<and> b = [] then (if e then 1 else 0)
      else case (ra, rb) of
        (Some (x, a'), Some (y, b')) \<Rightarrow> equal_loop a' b' (e \<and> (a \<noteq> []) = (b \<noteq> []) \<and> x = y)
      | _ \<Rightarrow> -1)"
    unfolding ra_def rb_def by (rule equal_loop.simps)
  show ?case
  proof (cases "a = [] \<and> b = []")
    case True
    then show ?thesis by (simp add: equal_loop.simps)
  next
    case ne: False
    show ?thesis
    proof (cases "ra = None \<or> rb = None")
      case True
      then have "codepoints a = None \<or> codepoints b = None"
        by (auto simp: ra_def rb_def codepoints_Cons split: if_splits)
      then show ?thesis using eq ne True by (auto split: option.splits)
    next
      case False
      then obtain x a' y b' where r: "ra = Some (x, a')" "rb = Some (y, b')" by auto
      let ?e = "e \<and> (a \<noteq> []) = (b \<noteq> []) \<and> x = y"
      have "equal_loop a b e = equal_loop a' b' ?e" using eq ne r by simp
      also have "\<dots> = (case (codepoints a', codepoints b') of
          (Some x, Some y) \<Rightarrow> if ?e \<and> x = y then 1 else 0 | _ \<Rightarrow> -1)"
        by (rule 1(1)[OF ne _ refl refl refl refl]) (simp add: r ra_def[symmetric] rb_def[symmetric])
      also have "\<dots> = (case (codepoints a, codepoints b) of
          (Some x, Some y) \<Rightarrow> if e \<and> x = y then 1 else 0 | _ \<Rightarrow> -1)"
        using r ne by (cases "a = []"; cases "b = []")
          (auto simp: ra_def rb_def codepoints_Cons split: option.splits)
      finally show ?thesis .
    qed
  qed
qed

text \<open>The iteration of the reader accepts the literals and nothing else.\<close>

lemma literal_codepoints: "json_literal vs s \<Longrightarrow> codepoints s = Some vs"
proof (induction rule: json_literal.induct)
  case (more v p vs s)
  have "p \<noteq> []" using more(1) read_spelling[of v p "[]"] by (auto simp: read_codepoint_def)
  then show ?case using more read_spelling[OF more(1), of s] by (simp add: codepoints_Cons)
qed simp

lemma codepoints_literal: "codepoints s = Some vs \<Longrightarrow> json_literal vs s"
proof (induction s arbitrary: vs rule: codepoints.induct)
  case (1 s)
  show ?case
  proof (cases "s = []")
    case True
    then show ?thesis using 1(2) json_literal.empty by simp
  next
    case False
    then obtain v s' ws where v: "read_codepoint s = Some (v, s')" "codepoints s' = Some ws" "vs = v # ws"
      using 1(2) by (auto simp: codepoints_Cons split: option.splits)
    then obtain p where "spelling v p" "s = p @ s'" using codepoint_spelling by blast
    then show ?thesis using json_literal.more 1(1)[OF False v(1) refl v(2)] v(3) by simp
  qed
qed

lemma codepoints_iff: "codepoints s = Some vs \<longleftrightarrow> json_literal vs s"
  using literal_codepoints codepoints_literal by blast

text \<open>The encoding is injective on sequences of scalar values.\<close>

definition first_scalar :: "string \<Rightarrow> (nat \<times> string) option" where
  "first_scalar s = (case s of [] \<Rightarrow> None
     | c # t \<Rightarrow> if byte c < 0x80 then Some (byte c, t) else utf8_tail c t)"

lemma first_scalar_encode: "scalar_value v \<Longrightarrow> first_scalar (encode_codepoint v @ r) = Some (v, r)"
proof (cases "v < 128")
  case True
  then show ?thesis by (simp add: encode_codepoint_def first_scalar_def)
next
  case False
  assume v: "scalar_value v"
  then obtain c t where ct: "encode_codepoint v = c # t" "128 \<le> byte c" using encode_lead[of v] False by auto
  then show ?thesis using utf8_tail_encode[OF _ v ct(1), of r] False ct by (simp add: first_scalar_def)
qed

lemma encode_inj:
  "list_all scalar_value xs \<Longrightarrow> list_all scalar_value ys \<Longrightarrow>
   concat (map encode_codepoint xs) = concat (map encode_codepoint ys) \<Longrightarrow> xs = ys"
proof (induction xs arbitrary: ys)
  case Nil
  have "encode_codepoint v \<noteq> []" for v by (simp add: encode_codepoint_def)
  then show ?case using Nil by (cases ys) auto
next
  case (Cons v xs)
  have "encode_codepoint v \<noteq> []" by (simp add: encode_codepoint_def)
  then obtain w zs where ys: "ys = w # zs" using Cons.prems by (cases ys) auto
  have "Some (v, concat (map encode_codepoint xs)) = first_scalar (concat (map encode_codepoint (v # xs)))"
    using Cons.prems(1) by (simp add: first_scalar_encode)
  also have "\<dots> = first_scalar (concat (map encode_codepoint (w # zs)))"
    using Cons.prems(3) ys by simp
  also have "\<dots> = Some (w, concat (map encode_codepoint zs))"
    using Cons.prems(2) ys by (simp add: first_scalar_encode)
  finally show ?case using Cons ys by simp
qed

definition utf8_text :: "nat list \<Rightarrow> string" where
  "utf8_text vs = concat (map encode_codepoint vs)"

text \<open>The UTF-8 text of a sequence of scalar values, without the bit operations of the encoder.\<close>

definition utf8_bytes :: "nat list \<Rightarrow> string" where
  "utf8_bytes vs = map char_of (concat (map utf8_encode vs))"

lemma utf8_text_bytes: "list_all scalar_value vs \<Longrightarrow> utf8_text vs = utf8_bytes vs"
  by (induction vs) (simp_all add: utf8_text_def utf8_bytes_def encode_codepoint_utf8 scalar_value_def)

lemma json_string_decode_codepoints:
  assumes "length s < SIZE_MAX"
  shows "json_string_decode alloc (Some s) =
    Some (case codepoints s of
            None \<Rightarrow> (-1, None)
          | Some vs \<Rightarrow> if alloc then (0, Some (utf8_text vs)) else (-2, None)) \<and>
    (\<forall>vs. codepoints s = Some vs \<longrightarrow> list_all scalar_value vs \<and> length (utf8_text vs) \<le> length s)"
proof (cases "codepoints s")
  case None
  then show ?thesis using assms
    by (simp add: json_string_decode_def json_string_equal_decoded_def equal_loop_codepoints)
next
  case (Some vs)
  note c = codepoints_Some[OF Some]
  have "decode_loop (length s + 1) s [] = Some (utf8_text vs)"
    using decode_loop_codepoints[OF Some, of "[]" "length s + 1"] by (simp add: utf8_text_def)
  then show ?thesis using assms Some c
    by (simp add: json_string_decode_def json_string_equal_decoded_def equal_loop_codepoints utf8_text_def)
qed

section \<open>Properties\<close>

text \<open>
  C28.  Decoding: when the input is a JSON literal, the result is the UTF-8 text of its code points
  (\<open>-2\<close> when \<open>malloc\<close> fails); each of them is a Unicode scalar value, and the decoded bytes are never
  longer than the input, so that no write leaves the buffer of \<open>len + 1\<close> bytes.  An input that is no
  JSON literal (a control character, an unknown escape, an unpaired surrogate, ill-formed UTF-8) is
  refused with \<open>-1\<close>.
\<close>

theorem json_string_decode_correct:
  assumes "length s < SIZE_MAX"
  shows "(\<forall>vs. json_literal vs s \<longrightarrow>
      json_string_decode alloc (Some s) = Some (if alloc then (0, Some (utf8_bytes vs)) else (-2, None)) \<and>
      list_all scalar_value vs \<and> length (utf8_bytes vs) \<le> length s) \<and>
    ((\<nexists>vs. json_literal vs s) \<longrightarrow> json_string_decode alloc (Some s) = Some (-1, None))"
proof (cases "codepoints s")
  case None
  then show ?thesis using json_string_decode_codepoints[OF assms, of alloc] by (simp flip: codepoints_iff)
next
  case (Some ws)
  have l: "json_literal vs s \<longleftrightarrow> vs = ws" for vs using Some by (auto simp flip: codepoints_iff)
  show ?thesis using json_string_decode_codepoints[OF assms, of alloc] Some utf8_text_bytes[of ws] by (simp add: l)
qed

theorem json_string_decode_correct_witness:
  "json_string_decode True (Some (CHR ''a'' # CHR 0x5C # ''n'' @ CHR 0x5C # ''u00e9'')) =
     Some (0, Some [CHR ''a'', CHR 0x0A, CHR 0xC3, CHR 0xA9])"
proof -
  have s: "spelling 97 [CHR ''a'']" "spelling 10 [CHR 0x5C, CHR ''n'']"
    using spelling.plain[of 97] spelling.short[of "CHR ''n''" 10] by (simp_all add: short_escapes_def char_of_def bit_0)
  have "hex_quartet 233 ''00e9''"
    using hex_quartet.intros[of 0 "CHR ''0''" 0 "CHR ''0''" 14 "CHR ''e''" 9 "CHR ''9''"] by (simp add: hex_digit_def)
  then have u: "spelling 233 (CHR 0x5C # ''u00e9'')" using spelling.unicode by (simp add: scalar_value_def)
  have "json_literal [97, 10, 233] ([CHR ''a''] @ [CHR 0x5C, CHR ''n''] @ (CHR 0x5C # ''u00e9'') @ [])"
    by (intro json_literal.more json_literal.empty s u)
  moreover have "utf8_bytes [97, 10, 233] = [CHR ''a'', CHR 0x0A, CHR 0xC3, CHR 0xA9]" by code_simp
  ultimately show ?thesis
    using json_string_decode_correct[of "CHR ''a'' # CHR 0x5C # ''n'' @ CHR 0x5C # ''u00e9''" True]
    by (auto simp: SIZE_MAX_def)
qed

text \<open>
  C29.  Comparison without decoding: for two literals that decode, the answer is 1 exactly
  when the decoded texts are equal byte for byte and 0 otherwise, whatever escapes the two
  literals use.  This is the test that a submitted answer is the flag.
\<close>

theorem json_string_equal_decoded_correct:
  assumes "length a < SIZE_MAX" "length b < SIZE_MAX"
    and "json_string_decode True (Some a) = Some (0, Some x)" "json_string_decode True (Some b) = Some (0, Some y)"
  shows "json_string_equal_decoded (Some a) (Some b) = (if x = y then 1 else 0)"
proof -
  have 1: "\<exists>vs. codepoints s = Some vs \<and> z = utf8_text vs \<and> list_all scalar_value vs"
    if "length s < SIZE_MAX" "json_string_decode True (Some s) = Some (0, Some z)" for s z
    using json_string_decode_codepoints[OF that(1), of True] that(2)
    by (auto split: option.splits)
  obtain va vb where v: "codepoints a = Some va" "x = utf8_text va" "list_all scalar_value va"
    "codepoints b = Some vb" "y = utf8_text vb" "list_all scalar_value vb"
    using 1[OF assms(1,3)] 1[OF assms(2,4)] by auto
  have "va = vb \<longleftrightarrow> x = y" using encode_inj[OF v(3,6)] v(2,5) by (auto simp: utf8_text_def)
  then show ?thesis using v by (simp add: json_string_equal_decoded_def equal_loop_codepoints)
qed

theorem json_string_equal_decoded_correct_witness:
  "json_string_equal_decoded (Some (CHR 0x5C # ''u0061'')) (Some ''a'') = 1"
proof -
  have a: "json_string_decode True (Some (CHR 0x5C # ''u0061'')) = Some (0, Some ''a'')"
    and b: "json_string_decode True (Some ''a'') = Some (0, Some ''a'')" by code_simp+
  show ?thesis using json_string_equal_decoded_correct[OF _ _ a b] by (simp add: SIZE_MAX_def)
qed

end
