(* ===== verification/JsonGrammar.thy ===== *)
theory JsonGrammar
  imports JsonString
begin

text \<open>
  The grammar of JSON and the soundness of the scanner of \<open>json_parser.c\<close> for it.  The
  callback interface \<open>json_field_reader\<close> is the locale \<open>field_reader\<close>; the object reader is
  proved once for every callback that keeps the contract.
\<close>

section \<open>The contents of a string literal\<close>


inductive json_content :: "string \<Rightarrow> bool" where
  empty: "json_content []"
| plain: "0x20 \<le> byte c \<Longrightarrow> byte c < 0x80 \<Longrightarrow> c \<noteq> CHR 0x22 \<Longrightarrow> c \<noteq> CHR 0x5C \<Longrightarrow> json_content t \<Longrightarrow>
    json_content (c # t)"
| escape: "d \<in> {CHR 0x22, CHR 0x5C, CHR ''/'', CHR ''b'', CHR ''f'', CHR ''n'', CHR ''r'', CHR ''t''} \<Longrightarrow>
    json_content t \<Longrightarrow> json_content (CHR 0x5C # d # t)"
| unicode: "length q = 4 \<Longrightarrow> list_all is_xdigit q \<Longrightarrow> json_content t \<Longrightarrow>
    json_content (CHR 0x5C # CHR ''u'' # q @ t)"
| utf8: "128 \<le> v \<Longrightarrow> scalar_value v \<Longrightarrow> json_content t \<Longrightarrow> json_content (encode_codepoint v @ t)"

lemma encode_high:
  assumes "128 \<le> v" "scalar_value v" 
  obtains c t where "encode_codepoint v = c # t" "128 \<le> byte c"
proof -
  have e: "encode_codepoint v = map char_of (utf8_encode v)"
    using assms(2) by (intro encode_codepoint_utf8) (simp add: scalar_value_def)
  then obtain c t where ct: "encode_codepoint v = c # t" by (simp add: utf8_encode_def split: if_splits)
  have "128 \<le> byte c" using ct e assms by (auto simp: utf8_encode_def scalar_value_def split: if_splits)
  then show thesis using that ct by blast
qed

lemma scan_json_str_complete:
  "json_content t \<Longrightarrow> scan_json_str (t @ CHR 0x22 # r) = Some (t, r)"
proof (induction rule: json_content.induct)
  case empty
  then show ?case by (simp add: scan_json_str.simps)
next
  case (plain c t)
  then show ?case by (simp add: scan_json_str.simps)
next
  case (escape d t)
  then show ?case by (auto simp: scan_json_str.simps byte_def)
next
  case (unicode q t)
  then show ?case by (simp add: scan_json_str.simps byte_def)
next
  case (utf8 v t)
  obtain c u where e: "encode_codepoint v = c # u" "128 \<le> byte c" using encode_high[OF utf8(1,2)] by blast
  have "utf8_tail c (u @ t @ CHR 0x22 # r) = Some (v, t @ CHR 0x22 # r)"
    by (rule utf8_tail_encode[OF utf8(1,2) e(1)])
  moreover have "c \<noteq> CHR 0x22" "c \<noteq> CHR 0x5C" using e(2) by (auto simp: byte_def)
  ultimately show ?case using e utf8(4) by (simp add: scan_json_str.simps)
qed

lemma scan_json_str_sound:
  "scan_json_str s = Some (t, r) \<Longrightarrow> json_content t \<and> s = t @ CHR 0x22 # r"
proof (induction s arbitrary: t rule: scan_json_str.induct)
  case (2 c s)
  consider (q) "c = CHR 0x22" | (e) "c = CHR 0x5C" | (h) "128 \<le> byte c" "c \<noteq> CHR 0x22" "c \<noteq> CHR 0x5C"
    | (p) "0x20 \<le> byte c" "byte c < 128" "c \<noteq> CHR 0x22" "c \<noteq> CHR 0x5C"
    using 2(5) by (auto simp: scan_json_str.simps split: if_splits)
  then show ?case
  proof cases
    case q
    then show ?thesis using 2(5) by (simp add: scan_json_str.simps json_content.empty)
  next
    case e
    then obtain d s1 where s: "s = d # s1" using 2(5) by (cases s) (auto simp: scan_json_str.simps byte_def)
    show ?thesis
    proof (cases "d = CHR ''u''")
      case True
      then obtain t1 where t1: "length s1 \<ge> 4" "list_all is_xdigit (take 4 s1)" "scan_json_str (drop 4 s1) = Some (t1, r)"
        "t = c # d # take 4 s1 @ t1"
        using 2(5) s e by (auto simp: scan_json_str.simps byte_def split: if_splits)
      have "json_content t1 \<and> drop 4 s1 = t1 @ CHR 0x22 # r"
        by (rule 2(1)) (use e s True t1 in \<open>simp_all add: byte_def\<close>)
      then show ?thesis using json_content.unicode[of "take 4 s1" t1] t1 s e True
        by (metis append_take_drop_id append.assoc append_Cons length_take min_absorb2)
    next
      case False
      then obtain t1 where t1: "d \<in> {CHR 0x22, CHR 0x5C, CHR ''/'', CHR ''b'', CHR ''f'', CHR ''n'', CHR ''r'', CHR ''t''}"
        "scan_json_str s1 = Some (t1, r)" "t = c # d # t1"
        using 2(5) s e by (auto simp: scan_json_str.simps byte_def split: if_splits)
      have "json_content t1 \<and> s1 = t1 @ CHR 0x22 # r"
        by (rule 2(2)) (use e s False t1 in \<open>simp_all add: byte_def\<close>)
      then show ?thesis using json_content.escape[OF t1(1)] t1 s e by simp
    qed
  next
    case h
    then obtain v s1 t1 where u: "utf8_tail c s = Some (v, s1)" "scan_json_str s1 = Some (t1, r)"
      "t = c # take (length s - length s1) s @ t1"
      using 2(5) by (auto simp: scan_json_str.simps split: option.splits)
    have ih: "json_content t1 \<and> s1 = t1 @ CHR 0x22 # r"
      by (rule 2(3)) (use h u in simp_all)
    from utf8_tail_sound[OF u(1)] have v: "128 \<le> v" "scalar_value v" "c # s = encode_codepoint v @ s1" by auto
    obtain w where w: "encode_codepoint v = c # w" "s = w @ s1"
      using v(3) encode_high[OF v(1,2)] by (metis append_Cons list.inject)
    then have "t = encode_codepoint v @ t1" using u(3) by simp
    then show ?thesis using json_content.utf8[OF v(1,2)] ih w by simp
  next
    case p
    then obtain t1 where t1: "scan_json_str s = Some (t1, r)" "t = c # t1"
      using 2(5) by (auto simp: scan_json_str.simps)
    have "json_content t1 \<and> s = t1 @ CHR 0x22 # r"
      by (rule 2(4)) (use p t1 in simp_all)
    then show ?thesis using json_content.plain[OF p(1) _ p(3,4)] p(2) t1 by simp
  qed
qed simp

lemma parse_json_str_iff:
  "parse_json_str s = Some (t, r) \<longleftrightarrow> json_content t \<and> s = CHR 0x22 # t @ CHR 0x22 # r"
  using scan_json_str_sound scan_json_str_complete
  by (auto simp: parse_json_str_def split: list.splits) 


section \<open>The grammar\<close>

abbreviation white :: "string \<Rightarrow> bool" where "white \<equiv> list_all is_json_space"

definition digits :: "string \<Rightarrow> bool" where "digits d \<longleftrightarrow> d \<noteq> [] \<and> list_all is_digit d"

definition json_number :: "string \<Rightarrow> bool" where
  "json_number n \<longleftrightarrow> (\<exists>sg i f e. n = sg @ i @ f @ e \<and> sg \<in> {[], ''-''} \<and>
     (i = ''0'' \<or> digits i \<and> hd i \<noteq> CHR ''0'') \<and>
     (f = [] \<or> (\<exists>d. f = CHR ''.'' # d \<and> digits d)) \<and>
     (e = [] \<or> (\<exists>x y d. e = x # y @ d \<and> x \<in> {CHR ''e'', CHR ''E''} \<and> y \<in> {[], ''+'', ''-''} \<and> digits d)))"

text \<open>\<open>json_value d v\<close>: a JSON value with at most \<open>d\<close> levels of nesting.\<close>

inductive json_value :: "nat \<Rightarrow> string \<Rightarrow> bool"
  and json_members :: "nat \<Rightarrow> (string \<times> string) list \<Rightarrow> string \<Rightarrow> bool"
  and json_elements :: "nat \<Rightarrow> string \<Rightarrow> bool" where
  str: "json_content t \<Longrightarrow> json_value (Suc d) (CHR 0x22 # t @ [CHR 0x22])"
| lit: "v \<in> {''true'', ''false'', ''null''} \<Longrightarrow> json_value (Suc d) v"
| num: "json_number v \<Longrightarrow> json_value (Suc d) v"
| obj0: "white w \<Longrightarrow> json_value (Suc d) (CHR ''{'' # w @ ''}'')"
| obj: "json_members d kvs m \<Longrightarrow> json_value (Suc d) (CHR ''{'' # m @ ''}'')"
| arr0: "white w \<Longrightarrow> json_value (Suc d) (CHR ''['' # w @ '']'')"
| arr: "json_elements d m \<Longrightarrow> json_value (Suc d) (CHR ''['' # m @ '']'')"
| member: "white w1 \<Longrightarrow> json_content k \<Longrightarrow> white w2 \<Longrightarrow> white w3 \<Longrightarrow> json_value d v \<Longrightarrow> white w4 \<Longrightarrow>
    json_members d [(k, v)] (w1 @ CHR 0x22 # k @ CHR 0x22 # w2 @ CHR '':'' # w3 @ v @ w4)"
| members: "white w1 \<Longrightarrow> json_content k \<Longrightarrow> white w2 \<Longrightarrow> white w3 \<Longrightarrow> json_value d v \<Longrightarrow> white w4 \<Longrightarrow>
    json_members d kvs m \<Longrightarrow> k \<notin> fst ` set kvs \<Longrightarrow>
    json_members d ((k, v) # kvs) (w1 @ CHR 0x22 # k @ CHR 0x22 # w2 @ CHR '':'' # w3 @ v @ w4 @ CHR '','' # m)"
| element: "white w1 \<Longrightarrow> json_value d v \<Longrightarrow> white w2 \<Longrightarrow> json_elements d (w1 @ v @ w2)"
| elements: "white w1 \<Longrightarrow> json_value d v \<Longrightarrow> white w2 \<Longrightarrow> json_elements d m \<Longrightarrow>
    json_elements d (w1 @ v @ w2 @ CHR '','' # m)"

section \<open>Cursor steps\<close>

lemma skip_whitespace_split: "\<exists>w. s = w @ skip_whitespace s \<and> white w"
proof (induction s)
  case (Cons c s)
  show ?case
  proof (cases "is_json_space c")
    case True
    then show ?thesis using Cons by (auto intro: exI[of _ "c # w" for w])
  next
    case False
    then show ?thesis by (intro exI[of _ "[]"]) simp
  qed
qed simp

lemma consume_True:
  assumes "consume p c = (True, q)"
  shows "\<exists>w. cur p = w @ c # cur q \<and> white w \<and> mem q = mem p"
  using assms skip_whitespace_split[of "cur p"]
  by (auto simp: consume_def Let_def split: list.splits if_splits)

lemma consume_False:
  assumes "consume p c = (False, q)"
  shows "\<exists>w. cur p = w @ cur q \<and> white w \<and> mem q = mem p"
  using assms skip_whitespace_split[of "cur p"]
  by (auto simp: consume_def Let_def split: list.splits if_splits)

lemma read_string_Inr:
  assumes "read_string p = Inr (k, q)"
  shows "\<exists>w. cur p = w @ CHR 0x22 # k @ CHR 0x22 # cur q \<and> white w \<and> json_content k \<and> mem q = mem p"
  using assms skip_whitespace_split[of "cur p"]
  by (auto simp: read_string_def parse_json_str_iff split: option.splits)

lemma read_string_Inl: "read_string p = Inl e \<Longrightarrow> e = -1"
  by (auto simp: read_string_def split: option.splits)

definition parse_error :: "int \<Rightarrow> bool" where "parse_error e \<longleftrightarrow> e = -1 \<or> e = -2"

lemma parse_error_simps [simp]: "parse_error (-1)" "parse_error (-2)" "\<not> parse_error 0"
  by (simp_all add: parse_error_def)

section \<open>The contract of a field reader\<close>

text \<open>
  \<open>json_field_reader\<close>, the callback of \<open>read_object\<close> at depth \<open>d\<close>: it fails with an error
  code or reads a value of the remaining levels behind some white space.  \<open>inv kvs ctx\<close> is
  what it keeps true of its context, where \<open>kvs\<close> are the members read so far, each key with
  the text of its value.
\<close>

locale field_reader =
  fixes read_field :: "string \<Rightarrow> nat \<Rightarrow> 'c \<Rightarrow> json_parser \<Rightarrow> int + 'c \<times> json_parser"
    and d :: nat
    and inv :: "(string \<times> string) list \<Rightarrow> 'c \<Rightarrow> bool"
  assumes reader_error: "read_field key (d + 1) ctx p = Inl e \<Longrightarrow> parse_error e"
    and reader_reads: "read_field key (d + 1) ctx p = Inr (ctx', p') \<Longrightarrow>
      \<exists>w v. cur p = w @ v @ cur p' \<and> white w \<and> json_value (MAX_JSON_DEPTH - d) v \<and>
        (\<forall>kvs. inv kvs ctx \<and> key \<notin> fst ` set kvs \<and> json_content key \<longrightarrow> inv (kvs @ [(key, v)]) ctx')"
begin

lemma read_members_error:
  assumes "read_members n read_field d keys ctx p = Inl e" "length (cur p) < n"
  shows "parse_error e"
  using assms
proof (induction n arbitrary: keys ctx p)
  case (Suc n)
  show ?case
  proof (cases "read_string p")
    case (Inl a)
    then show ?thesis using Suc.prems read_string_Inl[OF Inl] by (auto simp: parse_error_def)
  next
    case (Inr b)
    then obtain key p1 where k: "read_string p = Inr (key, p1)" by (cases b) auto
    obtain colon p2 where c: "consume (p1\<lparr>mem := mem p1 - 1\<rparr>) (CHR '':'') = (colon, p2)" by fastforce
    show ?thesis
    proof (cases "key \<in> set keys \<or> mem p1 = 0 \<or> \<not> colon")
      case True
      then show ?thesis using Suc.prems k c by (auto simp: Let_def split: if_splits)
    next
      case False
      show ?thesis
      proof (cases "read_field key (d + 1) ctx p2")
        case (Inl a)
        then show ?thesis using Suc.prems k c False reader_error[OF Inl] by simp
      next
        case (Inr b)
        then obtain ctx' p3 where f: "read_field key (d + 1) ctx p2 = Inr (ctx', p3)" by (cases b) auto
        obtain close p4 where cl: "consume p3 (CHR ''}'') = (close, p4)" by fastforce
        obtain comma p5 where co: "consume p4 (CHR '','') = (comma, p5)" by fastforce
        have len: "length (cur p5) < length (cur p)" if "\<not> close" "comma"
        proof -
          have "length (cur p1) < length (cur p)" using read_string_Inr[OF k] by auto
          moreover have "length (cur p2) < length (cur p1)" using consume_True c False by fastforce
          moreover have "length (cur p3) \<le> length (cur p2)" using reader_reads[OF f] by auto
          moreover have "length (cur p4) \<le> length (cur p3)" using consume_False cl that by fastforce
          moreover have "length (cur p5) < length (cur p4)" using consume_True co that by fastforce
          ultimately show ?thesis by linarith
        qed
        show ?thesis
        proof (cases "\<not> close \<and> comma")
          case True
          then have "read_members n read_field d (key # keys) ctx' p5 = Inl e"
            using Suc.prems(1) k c False f cl co by simp
          then show ?thesis using Suc.IH len True Suc.prems(2) by fastforce
        next
          case F: False
          then show ?thesis using Suc.prems(1) k c False f cl co by (auto split: if_splits)
        qed
      qed
    qed
  qed
qed simp


lemma read_members_sound:
  assumes "read_members n read_field d keys ctx p = Inr (ctx', p')" "inv seen ctx" "set keys = fst ` set seen"
  shows "\<exists>kvs m. cur p = m @ CHR ''}'' # cur p' \<and> json_members (MAX_JSON_DEPTH - d) kvs m \<and>
     fst ` set kvs \<inter> set keys = {} \<and> inv (seen @ kvs) ctx'"
  using assms
proof (induction n arbitrary: keys ctx p seen)
  case (Suc n)
  obtain key p1 where k: "read_string p = Inr (key, p1)"
    using Suc.prems(1) by (auto simp: bindE_eq_Inr)
  obtain colon p2 where c: "consume (p1\<lparr>mem := mem p1 - 1\<rparr>) (CHR '':'') = (colon, p2)" by fastforce
  have new: "key \<notin> set keys" "mem p1 \<noteq> 0" "colon"
    using Suc.prems(1) k c by (auto simp: Let_def split: if_splits)
  obtain ctx1 p3 where f: "read_field key (d + 1) ctx p2 = Inr (ctx1, p3)"
    using Suc.prems(1) k c new by (auto simp: bindE_eq_Inr)
  obtain close p4 where cl: "consume p3 (CHR ''}'') = (close, p4)" by fastforce
  obtain w1 where w1: "cur p = w1 @ CHR 0x22 # key @ CHR 0x22 # cur p1" "white w1" "json_content key"
    using read_string_Inr[OF k] by blast
  obtain w2 where w2: "cur p1 = w2 @ CHR '':'' # cur p2" "white w2" using consume_True c new(3) by fastforce
  obtain w3 v where v: "cur p2 = w3 @ v @ cur p3" "white w3" "json_value (MAX_JSON_DEPTH - d) v"
    and inv1: "inv (seen @ [(key, v)]) ctx1"
    using reader_reads[OF f] Suc.prems(2,3) new(1) w1(3) by blast
  show ?case
  proof (cases close)
    case True
    then obtain w4 where w4: "cur p3 = w4 @ CHR ''}'' # cur p4" "white w4" using consume_True cl by fastforce
    have e: "ctx1 = ctx'" "p4 = p'" using Suc.prems(1) k c new f cl True by auto
    let ?m = "w1 @ CHR 0x22 # key @ CHR 0x22 # w2 @ CHR '':'' # w3 @ v @ w4"
    have "json_members (MAX_JSON_DEPTH - d) [(key, v)] ?m" by (rule member) (use w1 w2 v w4 in simp_all)
    then show ?thesis using w1 w2 v w4 e new(1) inv1 by (intro exI[of _ "[(key, v)]"] exI[of _ ?m]) auto
  next
    case False
    obtain comma p5 where co: "consume p4 (CHR '','') = (comma, p5)" by fastforce
    have r: "comma" "read_members n read_field d (key # keys) ctx1 p5 = Inr (ctx', p')"
      using Suc.prems(1) k c new f cl co False by (auto split: if_splits)
    obtain w4 where w4: "cur p3 = w4 @ cur p4" "white w4" using consume_False cl False by fastforce
    obtain w5 where w5: "cur p4 = w5 @ CHR '','' # cur p5" "white w5" using consume_True co r(1) by fastforce
    obtain kvs m where m: "cur p5 = m @ CHR ''}'' # cur p'" "json_members (MAX_JSON_DEPTH - d) kvs m"
      "fst ` set kvs \<inter> set (key # keys) = {}" "inv (seen @ (key, v) # kvs) ctx'"
      using Suc.IH[OF r(2) inv1] Suc.prems(3) by auto
    let ?m = "w1 @ CHR 0x22 # key @ CHR 0x22 # w2 @ CHR '':'' # w3 @ v @ (w4 @ w5) @ CHR '','' # m"
    have "json_members (MAX_JSON_DEPTH - d) ((key, v) # kvs) ?m"
      by (rule members) (use w1 w2 v w4 w5 m in \<open>auto simp: disjoint_iff\<close>)
    then show ?thesis using w1 w2 v w4 w5 m new(1) by (intro exI[of _ "(key, v) # kvs"] exI[of _ ?m]) auto
  qed
qed simp

lemma read_object_error: "read_object p d read_field ctx = Inl e \<Longrightarrow> parse_error e"
  using read_members_error[of "length (cur q) + 1" "[]" ctx q e for q]
  by (auto simp: read_object_def Let_def split: if_splits prod.splits)

end

text \<open>The text of an object with the members \<open>kvs\<close>.\<close>

definition json_object :: "nat \<Rightarrow> (string \<times> string) list \<Rightarrow> string \<Rightarrow> bool" where
  "json_object d kvs v \<longleftrightarrow>
     (kvs = [] \<and> (\<exists>w. white w \<and> v = CHR ''{'' # w @ ''}'')) \<or> (\<exists>m. json_members d kvs m \<and> v = CHR ''{'' # m @ ''}'')"

lemma json_object_value: "json_object d kvs v \<Longrightarrow> json_value (Suc d) v"
  by (auto simp: json_object_def intro: obj0 obj)

context field_reader
begin

lemma read_object_sound:
  assumes "read_object p d read_field ctx = Inr (ctx', p')" "inv [] ctx"
  shows "d \<le> MAX_JSON_DEPTH \<and>
    (\<exists>w v kvs. cur p = w @ v @ cur p' \<and> white w \<and> json_object (MAX_JSON_DEPTH - d) kvs v \<and> inv kvs ctx')"
proof -
  obtain op p1 where o: "consume p (CHR ''{'') = (op, p1)" by fastforce
  obtain close p2 where c: "consume p1 (CHR ''}'') = (close, p2)" by fastforce
  have d: "d \<le> MAX_JSON_DEPTH" and op: "op"
    using assms(1) o by (auto simp: read_object_def split: if_splits)
  obtain w where w: "cur p = w @ CHR ''{'' # cur p1" "white w" using consume_True o op by fastforce
  show ?thesis
  proof (cases close)
    case True
    then obtain w2 where w2: "cur p1 = w2 @ CHR ''}'' # cur p2" "white w2" using consume_True c by fastforce
    have "ctx' = ctx" "p' = p2" using assms(1) o c op d True by (auto simp: read_object_def)
    then show ?thesis using w w2 d assms(2)
      by (intro conjI exI[of _ w] exI[of _ "CHR ''{'' # w2 @ ''}''"] exI[of _ "[]"]) (auto simp: json_object_def)
  next
    case False
    then obtain w2 where w2: "cur p1 = w2 @ cur p2" "white w2" using consume_False c by fastforce
    have "read_members (length (cur p2) + 1) read_field d [] ctx p2 = Inr (ctx', p')"
      using assms(1) o c op d False by (simp add: read_object_def)
    from read_members_sound[OF this assms(2)] obtain ks m where m: "cur p2 = m @ CHR ''}'' # cur p'"
      "json_members (MAX_JSON_DEPTH - d) ks m" "inv ks ctx'" by (auto simp: image_iff)
    have "json_members (MAX_JSON_DEPTH - d) ks (w2 @ m)"
      using m(2) w2(2)
    proof (cases rule: json_members.cases)
      case (member w1 k w2' w3 v w4)
      then show ?thesis using json_value_json_members_json_elements.member[of "w2 @ w1" k] w2(2) by simp
    next
      case (members w1 k w2' w3 v w4 kvs' m')
      then show ?thesis using json_value_json_members_json_elements.members[of "w2 @ w1" k] w2(2) by simp
    qed
    then show ?thesis using w w2 m d
      by (intro conjI exI[of _ w] exI[of _ "CHR ''{'' # (w2 @ m) @ ''}''"] exI[of _ ks]) (auto simp: json_object_def)
  qed
qed

end


section \<open>Values\<close>

lemma skip_literal_Some: "skip_literal ls s = Some r \<Longrightarrow> \<exists>l \<in> set ls. s = l @ r"
proof (induction ls)
  case (Cons l ls)
  show ?case
  proof (cases "length l \<le> length s \<and> take (length l) s = l")
    case True
    then have "s = l @ drop (length l) s" using append_take_drop_id[of "length l" s] by simp
    then show ?thesis using Cons.prems True by auto
  qed (use Cons in auto)
qed simp

lemma skip_digits_split: "\<exists>d. s = d @ skip_digits s \<and> list_all is_digit d"
  unfolding skip_digits_def
  by (intro exI[of _ "takeWhile is_digit s"]) (auto simp: list_all_iff dest: set_takeWhileD)

lemma skip_digits1_Some: "skip_digits1 s = Some r \<Longrightarrow> \<exists>d. s = d @ r \<and> digits d"
  using skip_digits_split[of s] by (auto simp: skip_digits1_def digits_def split: if_splits)

lemma skip_integer_Some:
  assumes "skip_integer s = Some r"
  shows "\<exists>i. s = i @ r \<and> (i = ''0'' \<or> digits i \<and> hd i \<noteq> CHR ''0'')"
proof -
  obtain c t where s: "s = c # t" using assms by (cases s) (auto simp: skip_integer_def)
  show ?thesis
  proof (cases "c = CHR ''0''")
    case True
    then show ?thesis using assms s by (auto simp: skip_integer_def)
  next
    case False
    then have c: "CHR ''1'' \<le> c" "c \<le> CHR ''9''" and r: "r = skip_digits t"
      using assms s by (auto simp: skip_integer_def split: if_splits)
    then have "is_digit c" by (auto simp: is_digit_code less_eq_char_def)
    moreover obtain d where "t = d @ r" "list_all is_digit d" using skip_digits_split[of t] r by auto
    ultimately show ?thesis using s False by (intro exI[of _ "c # d"]) (simp add: digits_def)
  qed
qed

lemma skip_fraction_Some:
  "skip_fraction s = Some r \<Longrightarrow> \<exists>f. s = f @ r \<and> (f = [] \<or> (\<exists>d. f = CHR ''.'' # d \<and> digits d))"
  by (auto simp: skip_fraction_def dest!: skip_digits1_Some split: list.splits if_splits)

lemma skip_sign_split: "\<exists>g. s = g @ skip_sign cs s \<and> (g = [] \<or> (\<exists>c\<in>cs. g = [c]))"
  by (cases s) (auto simp: skip_sign_def)

lemma skip_exponent_Some:
  assumes "skip_exponent s = Some r"
  shows "\<exists>e. s = e @ r \<and> (e = [] \<or> (\<exists>x y d. e = x # y @ d \<and> x \<in> {CHR ''e'', CHR ''E''} \<and>
     y \<in> {[], ''+'', ''-''} \<and> digits d))"
proof (cases "\<exists>x t. s = x # t \<and> x \<in> {CHR ''e'', CHR ''E''}")
  case True
  then obtain x t where x: "s = x # t" "x \<in> {CHR ''e'', CHR ''E''}" by blast
  obtain y where y: "t = y @ skip_sign {CHR ''+'', CHR ''-''} t" "y \<in> {[], ''+'', ''-''}"
    using skip_sign_split[of t "{CHR ''+'', CHR ''-''}"] by auto
  have "skip_digits1 (skip_sign {CHR ''+'', CHR ''-''} t) = Some r"
    using assms x by (auto simp: skip_exponent_def)
  from skip_digits1_Some[OF this] obtain d where "skip_sign {CHR ''+'', CHR ''-''} t = d @ r" "digits d" by auto
  then have "s = (x # y @ d) @ r" using x(1) y(1) by simp
  then show ?thesis using x(2) y(2) \<open>digits d\<close> by blast
next
  case False
  then have "r = s" using assms by (auto simp: skip_exponent_def split: list.splits if_splits)
  then show ?thesis by simp
qed

lemma skip_number_Some:
  assumes "skip_number s = Some r"
  shows "\<exists>n. s = n @ r \<and> json_number n"
proof -
  obtain s1 s2 where s: "skip_integer (skip_sign {CHR ''-''} s) = Some s1" "skip_fraction s1 = Some s2"
    "skip_exponent s2 = Some r" using assms by (auto simp: skip_number_def bind_eq_Some_conv)
  obtain g where g: "s = g @ skip_sign {CHR ''-''} s" "g \<in> {[], ''-''}"
    using skip_sign_split[of s "{CHR ''-''}"] by auto
  obtain i where i: "skip_sign {CHR ''-''} s = i @ s1" "i = ''0'' \<or> digits i \<and> hd i \<noteq> CHR ''0''"
    using skip_integer_Some[OF s(1)] by auto
  obtain f where f: "s1 = f @ s2" "f = [] \<or> (\<exists>d. f = CHR ''.'' # d \<and> digits d)"
    using skip_fraction_Some[OF s(2)] by auto
  obtain e where e: "s2 = e @ r" "e = [] \<or> (\<exists>x y d. e = x # y @ d \<and> x \<in> {CHR ''e'', CHR ''E''} \<and>
     y \<in> {[], ''+'', ''-''} \<and> digits d)" using skip_exponent_Some[OF s(3)] by blast
  have "s = (g @ i @ f @ e) @ r" using g(1) i(1) f(1) e(1) by simp
  moreover have "json_number (g @ i @ f @ e)"
    unfolding json_number_def using g(2) i(2) f(2) e(2) by blast
  ultimately show ?thesis by blast
qed

definition value_ok :: "nat \<Rightarrow> (json_parser \<Rightarrow> int + json_parser) \<Rightarrow> bool" where
  "value_ok d f \<longleftrightarrow> (\<forall>p e. f p = Inl e \<longrightarrow> parse_error e) \<and>
     (\<forall>p p'. f p = Inr p' \<longrightarrow> (\<exists>w v. cur p = w @ v @ cur p' \<and> white w \<and> json_value d v))"

lemma read_elements_ok:
  assumes "value_ok d f" "length (cur p) < n"
  shows "read_elements n f p = Inl e \<Longrightarrow> parse_error e"
    and "read_elements n f p = Inr p' \<Longrightarrow> \<exists>m. cur p = m @ CHR '']'' # cur p' \<and> json_elements d m"
proof -
  have "(\<forall>e. read_elements n f p = Inl e \<longrightarrow> parse_error e) \<and>
    (\<forall>p'. read_elements n f p = Inr p' \<longrightarrow> (\<exists>m. cur p = m @ CHR '']'' # cur p' \<and> json_elements d m))"
    using assms(2)
  proof (induction n arbitrary: p)
    case (Suc n)
    show ?case
    proof (cases "f p")
      case (Inl a)
      then show ?thesis using assms(1) by (simp add: value_ok_def)
    next
      case (Inr p1)
      obtain w1 v where v: "cur p = w1 @ v @ cur p1" "white w1" "json_value d v"
        using assms(1) Inr unfolding value_ok_def by blast
      obtain close p2 where c: "consume p1 (CHR '']'') = (close, p2)" by fastforce
      obtain comma p3 where co: "consume p2 (CHR '','') = (comma, p3)" by fastforce
      show ?thesis
      proof (cases close)
        case True
        then obtain w2 where w2: "cur p1 = w2 @ CHR '']'' # cur p2" "white w2" using consume_True c by fastforce
        have "json_elements d (w1 @ v @ w2)" using v w2 by (intro element)
        then show ?thesis using Inr c True v w2 by (auto intro: exI[of _ "w1 @ v @ w2"])
      next
        case False
        then obtain w2 where w2: "cur p1 = w2 @ cur p2" "white w2" using consume_False c by fastforce
        show ?thesis
        proof (cases comma)
          case F: False
          then show ?thesis using Inr c False co by simp
        next
          case True
          then obtain w3 where w3: "cur p2 = w3 @ CHR '','' # cur p3" "white w3" using consume_True co by fastforce
          have eq: "read_elements (Suc n) f p = read_elements n f p3" using Inr c False co True by simp
          have lt: "length (cur p3) < n" using Suc.prems v w2 w3 by simp
          have "json_elements d (w1 @ v @ (w2 @ w3) @ CHR '','' # m)" if "json_elements d m" for m
            by (rule elements) (use v w2 w3 that in simp_all)
          then show ?thesis unfolding eq using Suc.IH[OF lt] v w2 w3
            by (fastforce intro: exI[of _ "w1 @ v @ (w2 @ w3) @ CHR '','' # m" for m])
        qed
      qed
    qed
  qed simp
  then show "read_elements n f p = Inl e \<Longrightarrow> parse_error e"
    and "read_elements n f p = Inr p' \<Longrightarrow> \<exists>m. cur p = m @ CHR '']'' # cur p' \<and> json_elements d m" by blast+
qed


lemma value_within_ok: "levels \<le> MAX_JSON_DEPTH + 1 \<Longrightarrow> value_ok levels (value_within levels)"
proof (induction levels)
  case 0
  then show ?case by (simp add: value_ok_def)
next
  case (Suc n)
  then have ih: "value_ok n (value_within n)" and n: "n \<le> MAX_JSON_DEPTH" by simp_all
  define rf where "rf = (\<lambda>(key::string) (depth::nat) (ctx::unit) p. map_sum id (\<lambda>p'. (ctx, p')) (value_within n p))"
  have fr: "field_reader rf (MAX_JSON_DEPTH - n) (\<lambda>_ _. True)"
  proof
    fix key ctx p e
    show "rf key (MAX_JSON_DEPTH - n + 1) ctx p = Inl e \<Longrightarrow> parse_error e"
      using ih by (cases "value_within n p") (auto simp: rf_def value_ok_def)
  next
    fix key ctx p ctx' p'
    assume "rf key (MAX_JSON_DEPTH - n + 1) ctx p = Inr (ctx', p')"
    then have "value_within n p = Inr p'" by (cases "value_within n p") (auto simp: rf_def)
    then show "\<exists>w v. cur p = w @ v @ cur p' \<and> white w \<and> json_value (MAX_JSON_DEPTH - (MAX_JSON_DEPTH - n)) v \<and>
        (\<forall>kvs. True \<and> key \<notin> fst ` set kvs \<and> json_content key \<longrightarrow> True)"
      using ih n unfolding value_ok_def by simp
  qed
  have one: "(\<forall>e. value_within (Suc n) p = Inl e \<longrightarrow> parse_error e) \<and>
      (\<forall>p'. value_within (Suc n) p = Inr p' \<longrightarrow> (\<exists>w v. cur p = w @ v @ cur p' \<and> white w \<and> json_value (Suc n) v))" for p
  proof -
    define p1 where "p1 = p\<lparr>cur := skip_whitespace (cur p)\<rparr>"
    obtain w where w: "cur p = w @ cur p1" "white w" using skip_whitespace_split[of "cur p"] by (auto simp: p1_def)
    have vw: "value_within (Suc n) p = (case cur p1 of
        [] \<Rightarrow> Inl (-1)
      | c # t \<Rightarrow>
          if c = CHR 0x22 then bindE (read_string p1) (\<lambda>(raw, p2). Inr p2)
          else if c = CHR ''{'' then bindE (read_object p1 (MAX_JSON_DEPTH - n) rf ()) (\<lambda>(ctx, p2). Inr p2)
          else if c = CHR ''['' then
            let (close, p2) = consume (p1\<lparr>cur := t\<rparr>) (CHR '']'') in
            if close then Inr p2 else read_elements (length (cur p2) + 1) (value_within n) p2
          else (case skip_literal [''true'', ''false'', ''null''] (cur p1) of
                  Some r \<Rightarrow> Inr (p1\<lparr>cur := r\<rparr>)
                | None \<Rightarrow> (case skip_number (cur p1) of None \<Rightarrow> Inl (-1) | Some r \<Rightarrow> Inr (p1\<lparr>cur := r\<rparr>))))"
      by (simp only: value_within.simps Let_def p1_def [symmetric] rf_def)
    have lead: "\<exists>w v. cur p = w @ v @ r \<and> white w \<and> json_value (Suc n) v"
      if "cur p1 = w2 @ v @ r" "white w2" "json_value (Suc n) v" for w2 v r
      using w that by (intro exI[of _ "w @ w2"] exI[of _ v]) simp
    show ?thesis
    proof (cases "cur p1")
      case Nil
      then show ?thesis using vw by simp
    next
      case (Cons c t)
      consider (s) "c = CHR 0x22" | (o) "c = CHR ''{''" | (a) "c = CHR ''[''"
        | (x) "c \<noteq> CHR 0x22" "c \<noteq> CHR ''{''" "c \<noteq> CHR ''[''" by blast
      then show ?thesis
      proof cases
        case s
        then have vw: "value_within (Suc n) p = bindE (read_string p1) (\<lambda>(raw, p2). Inr p2)"
          using vw Cons by simp
        show ?thesis
        proof (cases "read_string p1")
          case (Inl e)
          then show ?thesis using vw read_string_Inl[OF Inl] by (auto simp: parse_error_def)
        next
          case (Inr b)
          then obtain k p2 where k: "read_string p1 = Inr (k, p2)" by (cases b) auto
          obtain w2 where "cur p1 = w2 @ (CHR 0x22 # k @ [CHR 0x22]) @ cur p2" "white w2" "json_content k"
            using read_string_Inr[OF k] by auto
          then show ?thesis using lead[of w2 _ "cur p2"] str vw k by simp
        qed
      next
        case o
        then have vw: "value_within (Suc n) p = bindE (read_object p1 (MAX_JSON_DEPTH - n) rf ()) (\<lambda>(ctx, p2). Inr p2)"
          using vw Cons by simp
        show ?thesis
        proof (cases "read_object p1 (MAX_JSON_DEPTH - n) rf ()")
          case (Inl e)
          then show ?thesis using vw field_reader.read_object_error[OF fr Inl] by simp
        next
          case (Inr b)
          then obtain u p2 where k: "read_object p1 (MAX_JSON_DEPTH - n) rf () = Inr (u, p2)" by (cases b) auto
          obtain w2 v ks where "cur p1 = w2 @ v @ cur p2" "white w2"
            "json_object (MAX_JSON_DEPTH - (MAX_JSON_DEPTH - n)) ks v"
            using field_reader.read_object_sound[OF fr k] by blast
          then show ?thesis using lead[of w2 v "cur p2"] json_object_value vw k n by simp
        qed
      next
        case a
        obtain close p2 where cl: "consume (p1\<lparr>cur := t\<rparr>) (CHR '']'') = (close, p2)" by fastforce
        have vw: "value_within (Suc n) p =
            (if close then Inr p2 else read_elements (length (cur p2) + 1) (value_within n) p2)"
          using vw Cons a cl by simp
        show ?thesis
        proof (cases close)
          case True
          then obtain w2 where "t = w2 @ CHR '']'' # cur p2" "white w2" using consume_True cl by fastforce
          then show ?thesis using vw True arr0[of w2 n] Cons a lead[of "[]" "CHR ''['' # w2 @ '']''" "cur p2"] by simp
        next
          case False
          then obtain w2 where w2: "t = w2 @ cur p2" "white w2" using consume_False cl by fastforce
          have "json_value (Suc n) (CHR ''['' # (w2 @ m) @ '']'')" if "json_elements n m" for m
          proof (rule arr)
            show "json_elements n (w2 @ m)" using that w2(2)
            proof (cases rule: json_elements.cases)
              case (element w1 v w3)
              then show ?thesis
                using json_value_json_members_json_elements.element[of "w2 @ w1" n v w3] w2(2) by simp
            next
              case (elements w1 v w3 m')
              then show ?thesis
                using json_value_json_members_json_elements.elements[of "w2 @ w1" n v w3 m'] w2(2) by simp
            qed
          qed
          then have "\<exists>v. CHR ''['' # w2 @ m @ '']'' @ r = v @ r \<and> json_value (Suc n) v"
            if "json_elements n m" for m r using that by fastforce
          then show ?thesis
            using vw False read_elements_ok[OF ih, of p2 "length (cur p2) + 1"] Cons a w2 lead[of "[]"] by fastforce
        qed
      next
        case x
        then have vw: "value_within (Suc n) p =
           (case skip_literal [''true'', ''false'', ''null''] (cur p1) of
              Some r \<Rightarrow> Inr (p1\<lparr>cur := r\<rparr>)
            | None \<Rightarrow> (case skip_number (cur p1) of None \<Rightarrow> Inl (-1) | Some r \<Rightarrow> Inr (p1\<lparr>cur := r\<rparr>)))"
          using vw Cons by simp
        have lead0: "\<exists>w v. cur p = w @ v @ r \<and> white w \<and> json_value (Suc n) v"
          if "cur p1 = v @ r" "json_value (Suc n) v" for v r using lead[of "[]" v r] that by simp
        have number: "\<exists>w v. cur p = w @ v @ r \<and> white w \<and> json_value (Suc n) v"
          if "skip_number (cur p1) = Some r" for r
          using skip_number_Some[OF that] num lead0 by blast
        have literal: "\<exists>w v. cur p = w @ v @ r \<and> white w \<and> json_value (Suc n) v"
          if "skip_literal [''true'', ''false'', ''null''] (cur p1) = Some r" for r
        proof -
          have "\<exists>l \<in> {''true'', ''false'', ''null''}. cur p1 = l @ r"
            using skip_literal_Some[OF that] by auto
          then show ?thesis using lead0 lit by blast
        qed
        show ?thesis
        proof (cases "skip_literal [''true'', ''false'', ''null''] (cur p1)")
          case None
          then show ?thesis unfolding vw using number by (cases "skip_number (cur p1)") simp_all
        next
          case (Some r)
          then show ?thesis unfolding vw using literal by simp
        qed
      qed
    qed
  qed
  show ?case unfolding value_ok_def using one by blast
qed


lemma read_value_ok: "value_ok (MAX_JSON_DEPTH + 1 - d) (\<lambda>p. read_value p d)"
  using value_within_ok[of "MAX_JSON_DEPTH + 1 - d"] by (simp add: read_value_def)

lemma read_value_Inl: "read_value p d = Inl e \<Longrightarrow> parse_error e"
  using read_value_ok[of d] by (simp add: value_ok_def)

lemma read_value_Inr: "read_value p d = Inr p' \<Longrightarrow>
    \<exists>w v. cur p = w @ v @ cur p' \<and> white w \<and> json_value (MAX_JSON_DEPTH + 1 - d) v"
  using read_value_ok[of d] by (simp add: value_ok_def)

lemma read_string_value:
  assumes "read_string p = Inr (k, p')" "d \<le> MAX_JSON_DEPTH"
  shows "\<exists>w v. cur p = w @ v @ cur p' \<and> white w \<and> json_value (MAX_JSON_DEPTH + 1 - d) v"
proof -
  obtain w where "cur p = w @ (CHR 0x22 # k @ [CHR 0x22]) @ cur p'" "white w" "json_content k"
    using read_string_Inr[OF assms(1)] by auto
  moreover have "MAX_JSON_DEPTH + 1 - d = Suc (MAX_JSON_DEPTH - d)" using assms(2) by simp
  ultimately show ?thesis using str by metis
qed

text \<open>The reader of \<open>read_value\<close>, a \<open>NULL\<close> callback.\<close>

definition read_any_field :: "string \<Rightarrow> nat \<Rightarrow> unit \<Rightarrow> json_parser \<Rightarrow> int + unit \<times> json_parser" where
  "read_any_field key depth ctx p = map_sum id (\<lambda>p'. (ctx, p')) (read_value p depth)"

interpretation any_field: field_reader read_any_field d "\<lambda>_ _. True" for d
proof
  fix key ctx p e
  show "read_any_field key (d + 1) ctx p = Inl e \<Longrightarrow> parse_error e"
    using read_value_Inl by (cases "read_value p (d + 1)") (auto simp: read_any_field_def)
next
  fix key ctx p ctx' p'
  assume "read_any_field key (d + 1) ctx p = Inr (ctx', p')"
  then have "read_value p (d + 1) = Inr p'"
    by (cases "read_value p (d + 1)") (auto simp: read_any_field_def)
  from read_value_Inr[OF this]
  show "\<exists>w v. cur p = w @ v @ cur p' \<and> white w \<and> json_value (MAX_JSON_DEPTH - d) v \<and>
      (\<forall>kvs. True \<and> key \<notin> fst ` set kvs \<and> json_content key \<longrightarrow> True)" by simp
qed


section \<open>Properties\<close>

text \<open>
  C30.  String literals: the scanner accepts exactly the JSON string literals (no control
  bytes, known escapes, four hexadecimal digits behind \<open>\u\<close>, well-formed UTF-8 in shortest
  form without surrogates), and the slice is the text between the first quote and the quote
  that closes it.
\<close>

theorem parse_json_str_correct:
  "parse_json_str s = Some (t, r) \<longleftrightarrow> json_content t \<and> s = CHR 0x22 # t @ CHR 0x22 # r"
  by (rule parse_json_str_iff)

text \<open>
  C31.  Values: the scanner always returns (the bounds on its loops are never reached); it
  fails only with \<open>-1\<close> or \<open>-2\<close>; and when it succeeds it has read white space and one JSON
  value that is nested at most 64 deep below the top and in which no object repeats a key,
  and leaves the cursor directly behind it.
\<close>

theorem read_value_sound:
  "case read_value p d of
     Inl e \<Rightarrow> e \<in> {-1, -2}
   | Inr p' \<Rightarrow> (\<exists>w v. cur p = w @ v @ cur p' \<and> white w \<and> json_value (MAX_JSON_DEPTH + 1 - d) v)"
  using read_value_Inl[of p d] read_value_Inr[of p d]
  by (cases "read_value p d") (auto simp: parse_error_def)

end
