(* ===== verification/Model.thy ===== *)
theory Model
  imports Prelude
begin

text \<open>
  The data of the application: \<open>src/src/app/model.c\<close>, \<open>model.h\<close>, \<open>model_request.h\<close>,
  \<open>json_auth.h\<close> and the slice comparisons of \<open>str.c\<close>.  A \<open>string_t\<close> is the list of its
  \<open>len\<close> bytes; where the code distinguishes a \<open>NULL\<close> pointer it is an option.  The flag
  \<open>is_string_allocated\<close>, which says whether a record owns its bytes, has no counterpart: values
  are never released.
\<close>

section \<open>Slices\<close>

definition string_equals :: "string \<Rightarrow> string \<Rightarrow> bool" where
  "string_equals a b = (if length a \<noteq> length b then False else take (length a) a = take (length a) b)"

definition string_equals_cstr :: "string \<Rightarrow> string \<Rightarrow> bool" where
  "string_equals_cstr a c = (if length a \<noteq> length c then False else take (length a) a = take (length a) c)"

lemma string_equals_iff [simp]: "string_equals a b \<longleftrightarrow> a = b" "string_equals_cstr a b \<longleftrightarrow> a = b"
  by (auto simp: string_equals_def string_equals_cstr_def)

section \<open>Genres\<close>

datatype ctf_genre =
  CTF_GENRE_WEB | CTF_GENRE_CRYPTO | CTF_GENRE_PWN | CTF_GENRE_REV | CTF_GENRE_FORENSICS
| CTF_GENRE_OSINT | CTF_GENRE_MISC

definition ctf_genre_from_string :: "string \<Rightarrow> ctf_genre" where
  "ctf_genre_from_string str =
     (if length str = 3 \<and> take 3 str = ''web'' then CTF_GENRE_WEB
      else if length str = 6 \<and> take 6 str = ''crypto'' then CTF_GENRE_CRYPTO
      else if length str = 3 \<and> take 3 str = ''pwn'' then CTF_GENRE_PWN
      else if length str = 3 \<and> take 3 str = ''rev'' then CTF_GENRE_REV
      else if length str = 9 \<and> take 9 str = ''forensics'' then CTF_GENRE_FORENSICS
      else if length str = 5 \<and> take 5 str = ''osint'' then CTF_GENRE_OSINT
      else CTF_GENRE_MISC)"

fun ctf_genre_to_string :: "ctf_genre \<Rightarrow> string" where
  "ctf_genre_to_string CTF_GENRE_WEB = ''web''"
| "ctf_genre_to_string CTF_GENRE_CRYPTO = ''crypto''"
| "ctf_genre_to_string CTF_GENRE_PWN = ''pwn''"
| "ctf_genre_to_string CTF_GENRE_REV = ''rev''"
| "ctf_genre_to_string CTF_GENRE_FORENSICS = ''forensics''"
| "ctf_genre_to_string CTF_GENRE_OSINT = ''osint''"
| "ctf_genre_to_string CTF_GENRE_MISC = ''misc''"

lemma ctf_genre_roundtrip [simp]: "ctf_genre_from_string (ctf_genre_to_string g) = g"
  by (cases g) (simp_all add: ctf_genre_from_string_def)

lemma ctf_genre_to_string_inj: "ctf_genre_to_string g = ctf_genre_to_string h \<longleftrightarrow> g = h"
  by (metis ctf_genre_roundtrip)

lemma ctf_genre_to_string_ne [simp]: "ctf_genre_to_string g \<noteq> []"
  by (cases g) simp_all

section \<open>Records\<close>

record challenge =
  ch_id :: int
  creator_id :: string
  ch_name :: string
  description :: string
  flag :: string
  genre :: ctf_genre

record answer =
  ans_id :: int
  ans_challenge_id :: int
  ans_user_id :: string
  ans_username :: string
  ans_text :: string
  is_corrected :: int
  created_at :: string

record create_challenge_request =
  req_name :: string
  req_description :: string
  req_flag :: string
  req_genre :: ctf_genre

record submit_answer_request =
  sub_challenge_id :: nat
  sub_answer :: string

record auth_request =
  auth_username :: "string option"
  auth_password :: "string option"

text \<open>The values of \<open>(create_challenge_request_t){0}\<close> and its like.\<close>

definition zero_create_challenge_request :: create_challenge_request where
  "zero_create_challenge_request = \<lparr>req_name = [], req_description = [], req_flag = [], req_genre = CTF_GENRE_WEB\<rparr>"

definition zero_submit_answer_request :: submit_answer_request where
  "zero_submit_answer_request = \<lparr>sub_challenge_id = 0, sub_answer = []\<rparr>"

definition zero_auth_request :: auth_request where
  "zero_auth_request = \<lparr>auth_username = None, auth_password = None\<rparr>"

end
