(* ===== verification/Printing.thy ===== *)
theory Printing
  imports Prelude
begin

text \<open>
  What the program uses of \<open>snprintf\<close>.  A buffer of \<open>cap\<close> bytes that is filled from its
  start is the text written so far.  \<open>emit\<close> formats behind it and \<open>put\<close> stores one byte;
  text that does not fit together with its terminator, which the callers never expect and
  behind which they would go on to write out of bounds, is \<open>None\<close>.
\<close>

section \<open>Decimal numbers\<close>

definition digit_text :: "nat \<Rightarrow> char" where "digit_text n = char_of (48 + n)"

function show_nat :: "nat \<Rightarrow> string" where
  "show_nat n = (if n < 10 then [digit_text n] else show_nat (n div 10) @ [digit_text (n mod 10)])"
  by pat_completeness auto
termination by (relation "measure id") simp_all

declare show_nat.simps [simp del]

definition show_int :: "int \<Rightarrow> string" where
  "show_int v = (if v < 0 then CHR ''-'' # show_nat (nat (- v)) else show_nat (nat v))"

section \<open>Bounded output\<close>

definition emit :: "nat \<Rightarrow> string \<Rightarrow> string \<Rightarrow> string option" where
  "emit cap t text = (if length text + length t < cap then Some (text @ t) else None)"

definition put :: "nat \<Rightarrow> char \<Rightarrow> string \<Rightarrow> string option" where
  "put cap c text = (if length text < cap then Some (text @ [c]) else None)"

text \<open>The bytes that \<open>%s\<close> and \<open>%.*s\<close> print: they stop at a NUL.\<close>

definition cstr :: "string \<Rightarrow> string" where "cstr s = takeWhile (\<lambda>c. c \<noteq> CHR 0x00) s"

definition no_nul :: "string \<Rightarrow> bool" where "no_nul s \<longleftrightarrow> CHR 0x00 \<notin> set s"

lemma cstr_no_nul [simp]: "no_nul s \<Longrightarrow> cstr s = s"
  by (auto simp: cstr_def no_nul_def takeWhile_eq_all_conv)

lemma no_nul_cstr: "no_nul (cstr s)"
  by (auto simp: cstr_def no_nul_def dest: set_takeWhileD)

lemma length_cstr: "length (cstr s) \<le> length s"
  by (simp add: cstr_def length_takeWhile_le)

lemma no_nul_append [simp]: "no_nul (s @ t) \<longleftrightarrow> no_nul s \<and> no_nul t" by (auto simp: no_nul_def)

lemma no_nul_Cons [simp]: "no_nul (c # s) \<longleftrightarrow> c \<noteq> CHR 0x00 \<and> no_nul s" by (auto simp: no_nul_def)

lemma no_nul_Nil [simp]: "no_nul []" by (simp add: no_nul_def)

lemma emit_Some: "length text + length t < cap \<Longrightarrow> emit cap t text = Some (text @ t)"
  by (simp add: emit_def)

lemma put_Some: "length text < cap \<Longrightarrow> put cap c text = Some (text @ [c])"
  by (simp add: put_def)

lemma emit_emit: "length text + length t + length u < cap \<Longrightarrow>
    Option.bind (emit cap t text) (emit cap u) = emit cap (t @ u) text"
  by (simp add: emit_def)

section \<open>The length of a printed number\<close>

text \<open>The loop \<open>while (value > 0) { length++; value /= 10; }\<close> that all length computations share.\<close>

function count_digits :: "nat \<Rightarrow> nat \<Rightarrow> nat" where
  "count_digits v len = (if v > 0 then count_digits (v div 10) (len + 1) else len)"
  by pat_completeness auto
termination by (relation "measure fst") simp_all

declare count_digits.simps [simp del]

lemma count_digits_add: "count_digits v (a + b) = count_digits v a + b"
proof (induction v a rule: count_digits.induct)
  case (1 v a)
  then show ?case by (cases "v > 0") (simp_all add: count_digits.simps[of v] count_digits.simps[of 0])
qed

lemma count_digits_show: "0 < n \<Longrightarrow> count_digits n 0 = length (show_nat n)"
proof (induction n rule: show_nat.induct)
  case (1 n)
  show ?case
  proof (cases "n < 10")
    case True
    then show ?thesis using 1(2)
      by (simp add: count_digits.simps[of n] count_digits.simps[of 0] show_nat.simps[of n])
  next
    case False
    then have "count_digits (n div 10) 0 = length (show_nat (n div 10))" using 1(1) by simp
    then show ?thesis using False count_digits_add[of "n div 10" 0 1]
      by (simp add: count_digits.simps[of n] show_nat.simps[of n])
  qed
qed

lemma show_nat_digits: "list_all is_digit (show_nat n) \<and> show_nat n \<noteq> []"
proof (induction n rule: show_nat.induct)
  case (1 n)
  have d: "is_digit (digit_text k)" if "k < 10" for k
    using that by (simp add: is_digit_code digit_text_def)
  show ?case
  proof (cases "n < 10")
    case True
    then show ?thesis using d[of n] by (simp add: show_nat.simps[of n])
  next
    case False
    then show ?thesis using 1 d[of "n mod 10"] by (simp add: show_nat.simps[of n])
  qed
qed

lemma no_nul_show_nat [simp]: "no_nul (show_nat n)"
  using show_nat_digits[of n] by (auto simp: no_nul_def list_all_iff is_digit_code)

lemma no_nul_show_int [simp]: "no_nul (show_int v)"
  by (simp add: show_int_def)

lemma hd_show_nat: "0 < n \<Longrightarrow> hd (show_nat n) \<noteq> CHR ''0''"
proof (induction n rule: show_nat.induct)
  case (1 n)
  show ?case
  proof (cases "n < 10")
    case True
    then have "of_char (digit_text n) \<noteq> (of_char (CHR ''0'') :: nat)" using 1(2) by (simp add: digit_text_def)
    then show ?thesis using True by (auto simp: show_nat.simps[of n])
  next
    case False
    then have "hd (show_nat (n div 10)) \<noteq> CHR ''0''" using 1(1) by simp
    then show ?thesis using False show_nat_digits[of "n div 10"] by (simp add: show_nat.simps[of n])
  qed
qed

text \<open>Reading a printed number back.\<close>

definition decimal :: "string \<Rightarrow> nat" where
  "decimal s = foldl (\<lambda>v c. v * 10 + digit_val c) 0 s"

lemma decimal_show_nat: "decimal (show_nat n) = n"
proof (induction n rule: show_nat.induct)
  case (1 n)
  have d: "digit_val (digit_text k) = k" if "k < 10" for k
    using that by (simp add: digit_val_def digit_text_def)
  show ?case
  proof (cases "n < 10")
    case True
    then show ?thesis using d[OF True] by (simp add: show_nat.simps[of n] decimal_def)
  next
    case False
    then have "decimal (show_nat (n div 10)) = n div 10" using 1 by simp
    then show ?thesis using False d[of "n mod 10"] by (simp add: show_nat.simps[of n] decimal_def)
  qed
qed

end
