(* ===== verification/JsonRequest.thy ===== *)
theory JsonRequest
  imports JsonGrammar JsonString Model Printing
begin

text \<open>
  \<open>src/src/app/json_request.c\<close>, \<open>json_answer.c\<close> and \<open>json_auth.c\<close>: the bodies of requests.
  Each is an object that \<open>read_object\<close> reads with a field reader of its own.  The first
  argument \<open>m\<close> is the number of allocations that succeed, the second the body (\<open>None\<close> is
  \<open>NULL\<close>); the result is the return code and the request that was stored.
\<close>

unbundle bit_operations_syntax

section \<open>Creating a challenge\<close>

record create_challenge_parser =
  request :: create_challenge_request
  cfields :: nat

definition challenge_bit :: "string \<Rightarrow> nat" where
  "challenge_bit key =
     (if string_equals_cstr key ''name'' then 1
      else if string_equals_cstr key ''description'' then 2
      else if string_equals_cstr key ''flag'' then 4
      else if string_equals_cstr key ''genre'' then 8
      else 0)"

definition store_challenge_field :: "nat \<Rightarrow> string \<Rightarrow> create_challenge_request \<Rightarrow> create_challenge_request" where
  "store_challenge_field b raw r =
     (if b = 1 then r\<lparr>req_name := raw\<rparr>
      else if b = 2 then r\<lparr>req_description := raw\<rparr>
      else if b = 4 then r\<lparr>req_flag := raw\<rparr>
      else r\<lparr>req_genre := ctf_genre_from_string raw\<rparr>)"

definition read_challenge_field ::
  "string \<Rightarrow> nat \<Rightarrow> create_challenge_parser \<Rightarrow> json_parser \<Rightarrow> int + create_challenge_parser \<times> json_parser" where
  "read_challenge_field key depth parsed p =
     (let b = challenge_bit key in
      if b = 0 then map_sum id (\<lambda>p'. (parsed, p')) (read_value p depth)
      else bindE (read_string p) (\<lambda>(raw, p').
        let parsed' = \<lparr>request = store_challenge_field b raw (request parsed), cfields = cfields parsed OR b\<rparr> in
        if b = 8 \<and> \<not> string_equals raw (ctf_genre_to_string (req_genre (request parsed'))) then Inl (-1)
        else Inr (parsed', p')))"

fun character_count_loop :: "string \<Rightarrow> nat \<Rightarrow> nat" where
  "character_count_loop [] count = count"
| "character_count_loop (c # s) count =
     character_count_loop s (if byte c AND 0xc0 \<noteq> 0x80 then count + 1 else count)"

definition stored_character_count :: "string \<Rightarrow> nat" where
  "stored_character_count s = character_count_loop s 0"

definition json_to_create_challenge_request :: "nat \<Rightarrow> string option \<Rightarrow> int \<times> create_challenge_request" where
  "json_to_create_challenge_request m json =
     (case json of
        None \<Rightarrow> (-1, zero_create_challenge_request)
      | Some s \<Rightarrow>
          if s = [] then (-1, zero_create_challenge_request)
          else
            (case read_object \<lparr>cur = s, mem = m\<rparr> 0 read_challenge_field
                    \<lparr>request = zero_create_challenge_request, cfields = 0\<rparr> of
               Inl e \<Rightarrow> (e, zero_create_challenge_request)
             | Inr (parsed, p) \<Rightarrow>
                 if skip_whitespace (cur p) \<noteq> [] \<or> cfields parsed \<noteq> 15 \<or>
                    length (req_name (request parsed)) = 0 \<or> length (req_flag (request parsed)) = 0 \<or>
                    stored_character_count (req_name (request parsed)) > 255 \<or>
                    stored_character_count (req_flag (request parsed)) > 255 \<or>
                    length (req_description (request parsed)) > 65535
                 then (-1, zero_create_challenge_request)
                 else (0, request parsed)))"

section \<open>Submitting an answer\<close>

definition read_answer_field ::
  "string \<Rightarrow> nat \<Rightarrow> submit_answer_request \<Rightarrow> json_parser \<Rightarrow> int + submit_answer_request \<times> json_parser" where
  "read_answer_field key depth r p =
     (if string_equals_cstr key ''challenge_id'' then
        bindE (read_positive_integer p) (\<lambda>(v, p'). Inr (r\<lparr>sub_challenge_id := v\<rparr>, p'))
      else if string_equals_cstr key ''answer'' then
        bindE (read_string p) (\<lambda>(raw, p'). Inr (r\<lparr>sub_answer := raw\<rparr>, p'))
      else map_sum id (\<lambda>p'. (r, p')) (read_value p depth))"

definition json_to_submit_answer_request :: "nat \<Rightarrow> string option \<Rightarrow> int \<times> submit_answer_request" where
  "json_to_submit_answer_request m json =
     (case json of
        None \<Rightarrow> (-1, zero_submit_answer_request)
      | Some s \<Rightarrow>
          if s = [] then (-1, zero_submit_answer_request)
          else
            (case read_object \<lparr>cur = s, mem = m\<rparr> 0 read_answer_field zero_submit_answer_request of
               Inl e \<Rightarrow> (e, zero_submit_answer_request)
             | Inr (parsed, p) \<Rightarrow>
                 if skip_whitespace (cur p) \<noteq> [] \<or> sub_challenge_id parsed = 0 \<or> length (sub_answer parsed) = 0
                 then (-1, zero_submit_answer_request)
                 else if character_count_loop (sub_answer parsed) 0 > 255 \<or>
                   json_string_equal_decoded (Some (sub_answer parsed)) (Some (sub_answer parsed)) < 0
                 then (-1, zero_submit_answer_request)
                 else (0, parsed)))"

section \<open>Credentials\<close>

record auth_parser =
  raw_username :: string
  raw_password :: string
  afields :: nat

text \<open>
  The table \<open>fields[]\<close> with the loop over its two rows: the bit of the row whose name the
  decoded key equals, \<open>Inl\<close> when the key cannot be decoded and 0 when no row matches.
\<close>

fun auth_bit :: "(string \<times> nat) list \<Rightarrow> string \<Rightarrow> int + nat" where
  "auth_bit [] key = Inr 0"
| "auth_bit ((name, b) # rows) key =
     (let equal = json_string_equal_decoded (Some key) (Some name) in
      if equal < 0 then Inl (-1) else if equal \<noteq> 0 then Inr b else auth_bit rows key)"

definition read_auth_field ::
  "string \<Rightarrow> nat \<Rightarrow> auth_parser \<Rightarrow> json_parser \<Rightarrow> int + auth_parser \<times> json_parser" where
  "read_auth_field key depth parsed p =
     bindE (auth_bit [(''username'', 1), (''password'', 2)] key) (\<lambda>b.
       if b = 0 then Inl (-1)
       else if afields parsed AND b \<noteq> 0 then Inl (-1)
       else bindE (read_string p) (\<lambda>(raw, p').
         Inr ((if b = 1 then parsed\<lparr>raw_username := raw\<rparr> else parsed\<lparr>raw_password := raw\<rparr>)
                \<lparr>afields := afields parsed OR b\<rparr>, p')))"

definition username_char :: "char \<Rightarrow> bool" where
  "username_char ch \<longleftrightarrow> (CHR ''a'' \<le> ch \<and> ch \<le> CHR ''z'') \<or> (CHR ''A'' \<le> ch \<and> ch \<le> CHR ''Z'') \<or>
     (CHR ''0'' \<le> ch \<and> ch \<le> CHR ''9'') \<or> ch = CHR ''_'' \<or> ch = CHR ''-''"

definition invalid_credentials :: "string \<Rightarrow> string \<Rightarrow> bool" where
  "invalid_credentials u p \<longleftrightarrow>
     length u < 3 \<or> length u > 32 \<or> length p < 8 \<or> length p > 128 \<or> memchr p (CHR 0x00) \<noteq> None \<or>
     \<not> list_all username_char u"

text \<open>
  The two decoded strings are allocated from what the keys have left of \<open>m\<close>; a slice is
  shorter than the body, so that \<open>SIZE_MAX\<close> is out of reach.  \<open>None\<close> is undefined behaviour.
\<close>

definition json_to_auth_request :: "nat \<Rightarrow> string option \<Rightarrow> (int \<times> auth_request) option" where
  "json_to_auth_request m json =
     (case json of
        None \<Rightarrow> Some (-1, zero_auth_request)
      | Some s \<Rightarrow>
          if s = [] \<or> length s \<ge> 65536 then Some (-1, zero_auth_request)
          else
            (case read_object \<lparr>cur = s, mem = m\<rparr> 0 read_auth_field
                    \<lparr>raw_username = [], raw_password = [], afields = 0\<rparr> of
               Inl e \<Rightarrow> Some (e, zero_auth_request)
             | Inr (parsed, p) \<Rightarrow>
                 if afields parsed \<noteq> 3 \<or> skip_whitespace (cur p) \<noteq> [] then Some (-1, zero_auth_request)
                 else do {
                   (r1, u) \<leftarrow> json_string_decode (mem p > 0) (Some (raw_username parsed));
                   if r1 \<noteq> 0 then Some (r1, zero_auth_request)
                   else do {
                     (r2, q) \<leftarrow> json_string_decode (mem p > 1) (Some (raw_password parsed));
                     if r2 \<noteq> 0 then Some (r2, zero_auth_request)
                     else do {
                       ut \<leftarrow> u;
                       qt \<leftarrow> q;
                       if invalid_credentials ut qt then Some (-1, zero_auth_request)
                       else Some (0, \<lparr>auth_username = Some ut, auth_password = Some qt\<rparr>)
                     }
                   }
                 }))"


section \<open>The members that were read\<close>

definition quoted :: "string \<Rightarrow> string" where "quoted t = CHR 0x22 # t @ [CHR 0x22]"

definition has_member :: "(string \<times> string) list \<Rightarrow> string \<Rightarrow> bool" where
  "has_member kvs k \<longleftrightarrow> k \<in> fst ` set kvs"

text \<open>The contents of the string that is the value of the member \<open>k\<close>.\<close>

definition member_text :: "(string \<times> string) list \<Rightarrow> string \<Rightarrow> string" where
  "member_text kvs k = (case map_of kvs k of None \<Rightarrow> [] | Some v \<Rightarrow> butlast (tl v))"

definition string_member :: "(string \<times> string) list \<Rightarrow> string \<Rightarrow> string \<Rightarrow> bool" where
  "string_member kvs k t \<longleftrightarrow> map_of kvs k = Some (quoted t) \<and> json_content t"

lemma has_member_simps [simp]:
  "\<not> has_member [] k" "has_member (kvs @ [(key, v)]) k \<longleftrightarrow> has_member kvs k \<or> k = key"
  by (auto simp: has_member_def)

lemma map_of_snoc:
  "\<not> has_member kvs key \<Longrightarrow> map_of (kvs @ [(key, v)]) k = (if k = key then Some v else map_of kvs k)"
  by (induction kvs) (auto simp: has_member_def)

lemma member_text_snoc:
  "\<not> has_member kvs key \<Longrightarrow> member_text (kvs @ [(key, quoted t)]) k = (if k = key then t else member_text kvs k)"
  "\<not> has_member kvs key \<Longrightarrow> k \<noteq> key \<Longrightarrow> member_text (kvs @ [(key, v)]) k = member_text kvs k"
  by (simp_all add: member_text_def map_of_snoc quoted_def del: map_of_append)

lemma member_text_Nil [simp]: "member_text [] k = []" by (simp add: member_text_def)

lemma string_member_snoc:
  "\<not> has_member kvs key \<Longrightarrow> string_member (kvs @ [(key, v)]) k t \<longleftrightarrow>
    (if k = key then v = quoted t \<and> json_content t else string_member kvs k t)"
  by (auto simp: string_member_def map_of_snoc simp del: map_of_append)

lemma string_member_has: "string_member kvs k t \<Longrightarrow> has_member kvs k"
  using map_of_SomeD[of kvs k "quoted t"] unfolding string_member_def has_member_def image_iff by force

lemma read_string_quoted:
  assumes "read_string p = Inr (raw, p')"
  obtains w where "cur p = w @ quoted raw @ cur p'" "white w" "json_content raw"
    "json_value MAX_JSON_DEPTH (quoted raw)"
  using read_string_Inr[OF assms] str[of raw 63] by (auto simp: quoted_def MAX_JSON_DEPTH_def)

section \<open>Creating a challenge\<close>

lemma challenge_bit_cases:
  "challenge_bit key = (if key = ''name'' then 1 else if key = ''description'' then 2
     else if key = ''flag'' then 4 else if key = ''genre'' then 8 else 0)"
  by (simp add: challenge_bit_def)

definition field_bits :: "bool \<Rightarrow> bool \<Rightarrow> bool \<Rightarrow> bool \<Rightarrow> nat" where
  "field_bits a b c d = of_bool a + 2 * of_bool b + 4 * of_bool c + 8 * of_bool d"

definition challenge_inv :: "(string \<times> string) list \<Rightarrow> create_challenge_parser \<Rightarrow> bool" where
  "challenge_inv kvs c \<longleftrightarrow>
     req_name (request c) = member_text kvs ''name'' \<and>
     req_description (request c) = member_text kvs ''description'' \<and>
     req_flag (request c) = member_text kvs ''flag'' \<and>
     (has_member kvs ''genre'' \<longrightarrow> ctf_genre_to_string (req_genre (request c)) = member_text kvs ''genre'') \<and>
     cfields c = field_bits (has_member kvs ''name'') (has_member kvs ''description'')
       (has_member kvs ''flag'') (has_member kvs ''genre'') \<and>
     (\<forall>k. k \<in> {''name'', ''description'', ''flag'', ''genre''} \<and> has_member kvs k \<longrightarrow>
        string_member kvs k (member_text kvs k))"

lemma field_bits_table: "list_all (\<lambda>a. list_all (\<lambda>b. list_all (\<lambda>c. list_all (\<lambda>d.
    field_bits False b c d OR 1 = field_bits True b c d \<and>
    field_bits a False c d OR 2 = field_bits a True c d \<and>
    field_bits a b False d OR 4 = field_bits a b True d \<and>
    field_bits a b c False OR 8 = field_bits a b c True \<and>
    (field_bits a b c d = 15) = (a \<and> b \<and> c \<and> d))
    [True, False]) [True, False]) [True, False]) [True, False]" by code_simp
lemma all_bool: "list_all P [True, False] \<Longrightarrow> P b" by (cases b) simp_all
lemma field_bits:
  "field_bits False b c d OR 1 = field_bits True b c d"
  "field_bits a False c d OR 2 = field_bits a True c d"
  "field_bits a b False d OR 4 = field_bits a b True d"
  "field_bits a b c False OR 8 = field_bits a b c True"
  "(field_bits a b c d = 15) = (a \<and> b \<and> c \<and> d)"
  using field_bits_table [THEN all_bool, of a, THEN all_bool, of b, THEN all_bool, of c, THEN all_bool, of d] by blast+

lemma challenge_inv_step:
  assumes inv: "challenge_inv kvs c" and new: "\<not> has_member kvs key" and "json_content raw"
    and b: "challenge_bit key = b" "b \<noteq> 0" "b = 8 \<longrightarrow> raw = ctf_genre_to_string (ctf_genre_from_string raw)"
  shows "challenge_inv (kvs @ [(key, quoted raw)])
    \<lparr>request = store_challenge_field b raw (request c), cfields = cfields c OR b\<rparr>"
proof -
  note t = member_text_snoc(1)[OF new, of raw] string_member_snoc[OF new, of "quoted raw"]
  have str: "\<forall>k. k \<in> {''name'', ''description'', ''flag'', ''genre''} \<and> has_member (kvs @ [(key, quoted raw)]) k \<longrightarrow>
      string_member (kvs @ [(key, quoted raw)]) k (member_text (kvs @ [(key, quoted raw)]) k)"
    using inv assms(3) unfolding challenge_inv_def t by auto
  consider "key = ''name''" "b = 1" | "key = ''description''" "b = 2" | "key = ''flag''" "b = 4" | "key = ''genre''" "b = 8"
    using b(1,2) by (auto simp: challenge_bit_cases split: if_splits)
  then show ?thesis
    unfolding challenge_inv_def
    by cases (insert inv[unfolded challenge_inv_def] str new b(3),
      simp_all add: member_text_snoc string_member_snoc store_challenge_field_def field_bits del: One_nat_def)
qed

lemma challenge_inv_skip:
  assumes "challenge_inv kvs c" "\<not> has_member kvs key" "challenge_bit key = 0"
  shows "challenge_inv (kvs @ [(key, v)]) c"
proof -
  have k: "key \<noteq> ''name''" "key \<noteq> ''description''" "key \<noteq> ''flag''" "key \<noteq> ''genre''"
    using assms(3) by (auto simp: challenge_bit_cases split: if_splits)
  have "\<forall>k. k \<in> {''name'', ''description'', ''flag'', ''genre''} \<and> has_member (kvs @ [(key, v)]) k \<longrightarrow>
      string_member (kvs @ [(key, v)]) k (member_text (kvs @ [(key, v)]) k)"
    using assms(1,2) k unfolding challenge_inv_def
    by (auto simp: member_text_snoc(2) string_member_snoc)
  then show ?thesis using assms(1,2) k[symmetric] unfolding challenge_inv_def
    by (simp add: member_text_snoc(2))
qed

lemma read_challenge_field_Inr:
  assumes "read_challenge_field key depth c p = Inr (c', p')"
  shows "(challenge_bit key = 0 \<and> read_value p depth = Inr p' \<and> c' = c) \<or>
    (challenge_bit key \<noteq> 0 \<and> (\<exists>raw. read_string p = Inr (raw, p') \<and>
      c' = \<lparr>request = store_challenge_field (challenge_bit key) raw (request c), cfields = cfields c OR challenge_bit key\<rparr> \<and>
      (challenge_bit key = 8 \<longrightarrow> raw = ctf_genre_to_string (ctf_genre_from_string raw))))"
proof (cases "challenge_bit key = 0")
  case True
  then show ?thesis using assms by (cases "read_value p depth") (auto simp: read_challenge_field_def)
next
  case False
  then show ?thesis using assms
    by (cases "read_string p") (auto simp: read_challenge_field_def Let_def store_challenge_field_def split: if_splits)
qed

interpretation challenge_field: field_reader read_challenge_field 0 challenge_inv
proof
  fix key ctx p e
  assume "read_challenge_field key (0 + 1) ctx p = Inl e"
  then show "parse_error e"
    using read_value_Inl[of p 1] read_string_Inl[of p]
    by (cases "challenge_bit key = 0"; cases "read_value p 1"; cases "read_string p")
      (auto simp: read_challenge_field_def Let_def split: if_splits)
next
  fix key ctx p ctx' p'
  assume a: "read_challenge_field key (0 + 1) ctx p = Inr (ctx', p')"
  show "\<exists>w v. cur p = w @ v @ cur p' \<and> white w \<and> json_value (MAX_JSON_DEPTH - 0) v \<and>
      (\<forall>kvs. challenge_inv kvs ctx \<and> key \<notin> fst ` set kvs \<and> json_content key \<longrightarrow>
        challenge_inv (kvs @ [(key, v)]) ctx')"
    using read_challenge_field_Inr[OF a]
  proof (elim disjE conjE exE)
    assume "challenge_bit key = 0" "read_value p (0 + 1) = Inr p'" "ctx' = ctx"
    then show ?thesis
      using read_value_Inr[of p "0 + 1" p'] challenge_inv_skip[of _ ctx key] by (auto simp: has_member_def)
  next
    fix raw
    assume k: "challenge_bit key \<noteq> 0" and r: "read_string p = Inr (raw, p')"
      and c: "ctx' = \<lparr>request = store_challenge_field (challenge_bit key) raw (request ctx), cfields = cfields ctx OR challenge_bit key\<rparr>"
      and g: "challenge_bit key = 8 \<longrightarrow> raw = ctf_genre_to_string (ctf_genre_from_string raw)"
    obtain w where "cur p = w @ quoted raw @ cur p'" "white w" "json_content raw" "json_value MAX_JSON_DEPTH (quoted raw)"
      using read_string_quoted[OF r] .
    moreover have "challenge_inv (kvs @ [(key, quoted raw)]) ctx'"
      if "challenge_inv kvs ctx" "key \<notin> fst ` set kvs" for kvs
      unfolding c using challenge_inv_step[OF that(1) _ \<open>json_content raw\<close> refl k g] that(2) by (simp add: has_member_def)
    ultimately show ?thesis by (intro exI[of _ w] exI[of _ "quoted raw"]) simp
  qed
qed


section \<open>Positive integers\<close>

lemma show_nat_snoc: "0 < n \<Longrightarrow> k < 10 \<Longrightarrow> show_nat (n * 10 + k) = show_nat n @ [digit_text k]"
  by (simp add: show_nat.simps[of "n * 10 + k"])

lemma digit_text_val: "is_digit c \<Longrightarrow> digit_text (digit_val c) = c"
  by (simp add: digit_text_def digit_val_def is_digit_code)

lemma digit_val_text: "k < 10 \<Longrightarrow> digit_val (digit_text k) = k" "k < 10 \<Longrightarrow> is_digit (digit_text k)"
  by (simp_all add: digit_val_def digit_text_def is_digit_code)

lemma integer_loop_Some:
  "integer_loop s n = Some (v, r) \<Longrightarrow> 0 < n \<Longrightarrow> n \<le> INT_MAX \<Longrightarrow>
    n \<le> v \<and> v \<le> INT_MAX \<and> (\<exists>d. s = d @ r \<and> show_nat v = show_nat n @ d) \<and> (r = [] \<or> \<not> is_digit (hd r))"
proof (induction s n rule: integer_loop.induct)
  case (2 c s n)
  show ?case
  proof (cases "is_digit c")
    case True
    then have d: "digit_val c \<le> 9" by (rule digit_val_le)
    have g: "n \<le> (INT_MAX - digit_val c) div 10" "integer_loop s (n * 10 + digit_val c) = Some (v, r)"
      using 2(2) True by (auto split: if_splits)
    then have "n * 10 \<le> INT_MAX - digit_val c" by (simp add: less_eq_div_iff_mult_less_eq)
    moreover have "digit_val c \<le> INT_MAX" using d by (simp add: INT_MAX_def)
    ultimately have b: "n * 10 + digit_val c \<le> INT_MAX" by linarith
    have ih: "n * 10 + digit_val c \<le> v" "v \<le> INT_MAX" "r = [] \<or> \<not> is_digit (hd r)"
      "\<exists>e. s = e @ r \<and> show_nat v = show_nat (n * 10 + digit_val c) @ e"
      using 2(1)[OF True _ g(2)] 2(3) g(1) b by simp_all
    then show ?thesis using show_nat_snoc[OF 2(3), of "digit_val c"] d True
      by (auto simp: digit_text_val)
  qed (use 2 in auto)
qed auto

lemma integer_loop_digits:
  assumes "0 < n" "v \<le> INT_MAX" "show_nat v = show_nat n @ d" "r = [] \<or> \<not> is_digit (hd r)" "n \<le> INT_MAX"
  shows "integer_loop (d @ r) n = Some (v, r)"
  using assms
proof (induction d arbitrary: n)
  case Nil
  then have "v = n" using decimal_show_nat by (metis append_Nil2)
  then show ?case using Nil by (cases r) auto
next
  case (Cons c d)
  have dig: "list_all is_digit (show_nat v)" using show_nat_digits by blast
  then have c: "is_digit c" using Cons.prems(3) by simp
  have dc: "digit_val c \<le> 9" using c by (rule digit_val_le)
  have eq: "show_nat v = show_nat (n * 10 + digit_val c) @ d"
    using Cons.prems(1,3) dc show_nat_snoc[of n "digit_val c"] by (simp add: digit_text_val[OF c])
  have mono: "foldl (\<lambda>v c. v * 10 + digit_val c) a d \<ge> (a::nat)" for a
  proof (induction d arbitrary: a)
    case (Cons x d)
    have "a \<le> a * 10 + digit_val x" by simp
    also have "\<dots> \<le> foldl (\<lambda>v c. v * 10 + digit_val c) (a * 10 + digit_val x) d" by (rule Cons)
    finally show ?case by simp
  qed simp
  have "v = decimal (show_nat (n * 10 + digit_val c) @ d)" using eq decimal_show_nat by metis
  also have "\<dots> = foldl (\<lambda>v c. v * 10 + digit_val c) (n * 10 + digit_val c) d"
    using decimal_show_nat[of "n * 10 + digit_val c"] by (simp add: decimal_def)
  finally have le: "n * 10 + digit_val c \<le> v" using mono by simp
  then have "n * 10 \<le> INT_MAX - digit_val c" using Cons.prems(2) by linarith
  then have "n \<le> (INT_MAX - digit_val c) div 10" by (simp add: less_eq_div_iff_mult_less_eq)
  moreover have "integer_loop (d @ r) (n * 10 + digit_val c) = Some (v, r)"
    using Cons.IH[of "n * 10 + digit_val c"] Cons.prems eq le by simp
  ultimately show ?case using c by simp
qed

lemma nonzero_digit: "\<not> (c < CHR ''1'' \<or> CHR ''9'' < c) \<longleftrightarrow> is_digit c \<and> 0 < digit_val c"
  by (auto simp: is_digit_code digit_val_def less_char_def)

lemma show_nat_digit_val: "is_digit c \<Longrightarrow> show_nat (digit_val c) = [c]"
  using digit_val_le[of c] by (simp add: show_nat.simps[of "digit_val c"] digit_text_val)

lemma skip_whitespace_white: "white w \<Longrightarrow> skip_whitespace (w @ s) = skip_whitespace s"
  by (induction w) simp_all

lemma skip_whitespace_digit: "is_digit c \<Longrightarrow> skip_whitespace (c # s) = c # s"
  by (auto simp: is_json_space_def is_digit_code)

lemma show_nat_Cons:
  assumes "0 < v"
  obtains c d where "show_nat v = c # d" "is_digit c" "0 < digit_val c" "show_nat (digit_val c) = [c]"
proof -
  obtain c d where cd: "show_nat v = c # d" using show_nat_digits[of v] by (cases "show_nat v") auto
  then have "is_digit c" "c \<noteq> CHR ''0''" using show_nat_digits[of v] hd_show_nat[OF assms] by auto
  moreover have "digit_text 0 = CHR ''0''" by code_simp
  moreover from calculation have "0 < digit_val c" using digit_text_val[of c] by (metis gr0I)
  ultimately show thesis using that cd show_nat_digit_val by blast
qed

text \<open>
  Positive integers: the reader succeeds exactly when, behind white space, stands the decimal
  text of a number from 1 to \<open>INT_MAX\<close> that no digit follows, and then yields this number; no
  larger number of digits wraps around.
\<close>

lemma read_positive_integer_iff:
  "read_positive_integer p = Inr (v, p') \<longleftrightarrow>
    1 \<le> v \<and> v \<le> INT_MAX \<and> mem p' = mem p \<and> (cur p' = [] \<or> \<not> is_digit (hd (cur p'))) \<and>
    (\<exists>w. white w \<and> cur p = w @ show_nat v @ cur p')" (is "?L = ?R")
proof
  assume a: ?L
  then obtain c s where s: "skip_whitespace (cur p) = c # s" and c1: "\<not> (c < CHR ''1'' \<or> CHR ''9'' < c)"
    and l: "integer_loop (c # s) 0 = Some (v, cur p')" and m: "mem p' = mem p"
    by (cases "skip_whitespace (cur p)")
      (auto simp: read_positive_integer_def simp del: integer_loop.simps split: if_splits option.splits)
  have c: "is_digit c" "0 < digit_val c" using c1 nonzero_digit by blast+
  have d: "digit_val c \<le> 9" using c(1) by (rule digit_val_le)
  then have dI: "digit_val c \<le> INT_MAX" by (simp add: INT_MAX_def)
  have "integer_loop s (digit_val c) = Some (v, cur p')" using l c(1) by simp
  from integer_loop_Some[OF this c(2) dI] obtain e where e: "s = e @ cur p'" "show_nat v = c # e"
    "digit_val c \<le> v" "v \<le> INT_MAX" "cur p' = [] \<or> \<not> is_digit (hd (cur p'))"
    using show_nat_digit_val[OF c(1)] by auto
  obtain w where w: "cur p = w @ c # s" "white w" using skip_whitespace_split[of "cur p"] s by auto
  show ?R using e w c(2) m by (intro conjI exI[of _ w]) auto
next
  assume r: ?R
  then obtain w where w: "white w" "cur p = w @ show_nat v @ cur p'" by blast
  obtain c d where c: "show_nat v = c # d" "is_digit c" "0 < digit_val c" "show_nat (digit_val c) = [c]"
    using show_nat_Cons[of v] r by auto
  have s: "skip_whitespace (cur p) = c # d @ cur p'"
    using w c by (simp add: skip_whitespace_white skip_whitespace_digit del: skip_whitespace.simps)
  have "digit_val c \<le> INT_MAX" using digit_val_le[OF c(2)] by (simp add: INT_MAX_def)
  then have "integer_loop (d @ cur p') (digit_val c) = Some (v, cur p')"
    by (intro integer_loop_digits) (use r c in simp_all)
  moreover have "p\<lparr>cur := cur p'\<rparr> = p'" using r by (cases p; cases p') simp
  moreover have "\<not> (c < CHR ''1'' \<or> CHR ''9'' < c)" using nonzero_digit c by blast
  ultimately show ?L using s c(2) by (simp add: read_positive_integer_def)
qed

lemma json_number_show_nat: "0 < v \<Longrightarrow> json_number (show_nat v)"
  using show_nat_digits[of v] hd_show_nat[of v] unfolding json_number_def digits_def
  by (intro exI[of _ "[]"] exI[of _ "show_nat v"]) simp


section \<open>Submitting an answer\<close>

definition answer_inv :: "(string \<times> string) list \<Rightarrow> submit_answer_request \<Rightarrow> bool" where
  "answer_inv kvs r \<longleftrightarrow>
     sub_answer r = member_text kvs ''answer'' \<and>
     (has_member kvs ''answer'' \<longrightarrow> string_member kvs ''answer'' (sub_answer r)) \<and>
     (if has_member kvs ''challenge_id''
      then map_of kvs ''challenge_id'' = Some (show_nat (sub_challenge_id r)) \<and>
        1 \<le> sub_challenge_id r \<and> sub_challenge_id r \<le> INT_MAX
      else sub_challenge_id r = 0)"

lemma answer_inv_step:
  assumes "answer_inv kvs r" "\<not> has_member kvs key"
  shows "key = ''answer'' \<Longrightarrow> json_content raw \<Longrightarrow> answer_inv (kvs @ [(key, quoted raw)]) (r\<lparr>sub_answer := raw\<rparr>)"
    and "key = ''challenge_id'' \<Longrightarrow> 1 \<le> v \<Longrightarrow> v \<le> INT_MAX \<Longrightarrow>
      answer_inv (kvs @ [(key, show_nat v)]) (r\<lparr>sub_challenge_id := v\<rparr>)"
    and "key \<noteq> ''answer'' \<Longrightarrow> key \<noteq> ''challenge_id'' \<Longrightarrow> answer_inv (kvs @ [(key, x)]) r"
  using assms unfolding answer_inv_def
  by (auto simp: member_text_snoc string_member_snoc map_of_snoc simp del: map_of_append)

lemma read_answer_field_Inr:
  assumes "read_answer_field key depth r p = Inr (r', p')"
  shows "(key = ''challenge_id'' \<and> (\<exists>v. read_positive_integer p = Inr (v, p') \<and> r' = r\<lparr>sub_challenge_id := v\<rparr>)) \<or>
    (key = ''answer'' \<and> (\<exists>raw. read_string p = Inr (raw, p') \<and> r' = r\<lparr>sub_answer := raw\<rparr>)) \<or>
    (key \<noteq> ''challenge_id'' \<and> key \<noteq> ''answer'' \<and> read_value p depth = Inr p' \<and> r' = r)"
  using assms
  by (cases "read_value p depth"; cases "read_string p"; cases "read_positive_integer p")
    (auto simp: read_answer_field_def split: if_splits)

lemma read_positive_integer_Inl: "read_positive_integer p = Inl e \<Longrightarrow> e = -1"
  by (auto simp: read_positive_integer_def split: list.splits if_splits option.splits)

interpretation answer_field: field_reader read_answer_field 0 answer_inv
proof
  fix key ctx p e
  assume "read_answer_field key (0 + 1) ctx p = Inl e"
  then show "parse_error e"
    using read_value_Inl[of p 1] read_string_Inl[of p] read_positive_integer_Inl[of p]
    by (cases "read_value p 1"; cases "read_string p"; cases "read_positive_integer p")
      (auto simp: read_answer_field_def split: if_splits)
next
  fix key ctx p ctx' p'
  assume a: "read_answer_field key (0 + 1) ctx p = Inr (ctx', p')"
  show "\<exists>w v. cur p = w @ v @ cur p' \<and> white w \<and> json_value (MAX_JSON_DEPTH - 0) v \<and>
      (\<forall>kvs. answer_inv kvs ctx \<and> key \<notin> fst ` set kvs \<and> json_content key \<longrightarrow> answer_inv (kvs @ [(key, v)]) ctx')"
    using read_answer_field_Inr[OF a]
  proof (elim disjE conjE exE)
    fix v assume k: "key = ''challenge_id''" and v: "read_positive_integer p = Inr (v, p')"
      and c: "ctx' = ctx\<lparr>sub_challenge_id := v\<rparr>"
    then obtain w where w: "white w" "cur p = w @ show_nat v @ cur p'" and r: "1 \<le> v" "v \<le> INT_MAX"
      using read_positive_integer_iff by auto
    have "json_value MAX_JSON_DEPTH (show_nat v)"
      using num[OF json_number_show_nat[of v], of 63] r by (simp add: MAX_JSON_DEPTH_def)
    then show ?thesis unfolding c using w answer_inv_step(2)[OF _ _ k r]
      by (intro exI[of _ w] exI[of _ "show_nat v"]) (simp add: has_member_def)
  next
    fix raw assume k: "key = ''answer''" and r: "read_string p = Inr (raw, p')"
      and c: "ctx' = ctx\<lparr>sub_answer := raw\<rparr>"
    obtain w where w: "cur p = w @ quoted raw @ cur p'" "white w" "json_content raw" "json_value MAX_JSON_DEPTH (quoted raw)"
      using read_string_quoted[OF r] .
    then show ?thesis unfolding c using answer_inv_step(1)[OF _ _ k w(3)]
      by (intro exI[of _ w] exI[of _ "quoted raw"]) (simp add: has_member_def)
  next
    assume "key \<noteq> ''challenge_id''" "key \<noteq> ''answer''" "read_value p (0 + 1) = Inr p'" "ctx' = ctx"
    then show ?thesis using read_value_Inr[of p "0 + 1" p'] answer_inv_step(3) by (auto simp: has_member_def)
  qed
qed

section \<open>Credentials\<close>

definition spells :: "string \<Rightarrow> string \<Rightarrow> bool" where
  "spells key name \<longleftrightarrow> codepoints key = Some (map byte name)"

definition auth_inv :: "(string \<times> string) list \<Rightarrow> auth_parser \<Rightarrow> bool" where
  "auth_inv kvs c \<longleftrightarrow>
     (afields c = 0 \<and> kvs = []) \<or>
     (afields c = 1 \<and> (\<exists>k. kvs = [(k, quoted (raw_username c))] \<and> spells k ''username'')) \<or>
     (afields c = 2 \<and> (\<exists>k. kvs = [(k, quoted (raw_password c))] \<and> spells k ''password'')) \<or>
     (afields c = 3 \<and> (\<exists>k l. kvs \<in> {[(k, quoted (raw_username c)), (l, quoted (raw_password c))],
         [(l, quoted (raw_password c)), (k, quoted (raw_username c))]} \<and> spells k ''username'' \<and> spells l ''password''))"

lemma spells_names: "codepoints ''username'' = Some (map byte ''username'')"
  "codepoints ''password'' = Some (map byte ''password'')"
  by code_simp+

lemma auth_bit_Inr:
  assumes "auth_bit [(''username'', 1), (''password'', 2)] key = Inr b"
  shows "b = 0 \<or> b = 1 \<and> spells key ''username'' \<or> b = 2 \<and> spells key ''password''"
proof -
  have e: "codepoints key = Some (map byte n)"
    if "json_string_equal_decoded (Some key) (Some n) > 0" "codepoints n = Some (map byte n)" for n
    using that by (auto simp: json_string_equal_decoded_def equal_loop_codepoints split: option.splits if_splits)
  show ?thesis using assms e[OF _ spells_names(1)] e[OF _ spells_names(2)]
    by (auto simp: Let_def spells_def linorder_neq_iff split: if_splits)
qed

lemma auth_bit_Inl: "auth_bit rows key = Inl e \<Longrightarrow> e = -1"
  by (induction rows key rule: auth_bit.induct) (auto simp: Let_def split: if_splits)

lemma and_or_bits: "(1 AND 2) = (0::nat)" "(2 AND 1) = (0::nat)" "(1 AND 1) = (1::nat)" "(2 AND 2) = (2::nat)"
  "(3 AND 1) = (1::nat)" "(3 AND 2) = (2::nat)" "(0 OR 1) = (1::nat)" "(0 OR 2) = (2::nat)" "(1 OR 2) = (3::nat)"
  "(2 OR 1) = (3::nat)" by code_simp+

lemma auth_inv_step:
  assumes "auth_inv kvs c" "b = 1 \<and> spells key ''username'' \<or> b = 2 \<and> spells key ''password''" "afields c AND b = 0"
  shows "auth_inv (kvs @ [(key, quoted raw)])
    ((if b = 1 then c\<lparr>raw_username := raw\<rparr> else c\<lparr>raw_password := raw\<rparr>)\<lparr>afields := afields c OR b\<rparr>)"
  using assms unfolding auth_inv_def
  by (elim disjE conjE exE) (simp_all add: and_or_bits del: One_nat_def, blast+)


interpretation auth_field: field_reader read_auth_field 0 auth_inv
proof
  fix key ctx p e
  assume "read_auth_field key (0 + 1) ctx p = Inl e"
  then have "e = -1"
    using auth_bit_Inl[of "[(''username'', 1), (''password'', 2)]" key] read_string_Inl[of p]
    by (cases "auth_bit [(''username'', 1), (''password'', 2)] key"; cases "read_string p")
      (simp_all add: read_auth_field_def split_def del: auth_bit.simps split: if_splits)
  then show "parse_error e" by simp
next
  fix key ctx p ctx' p'
  assume a: "read_auth_field key (0 + 1) ctx p = Inr (ctx', p')"
  then obtain b where b: "auth_bit [(''username'', 1), (''password'', 2)] key = Inr b" "b \<noteq> 0" "afields ctx AND b = 0"
    by (auto simp: read_auth_field_def bindE_eq_Inr simp del: auth_bit.simps split: if_splits)
  then obtain raw where r: "read_string p = Inr (raw, p')"
    and c: "ctx' = (if b = 1 then ctx\<lparr>raw_username := raw\<rparr> else ctx\<lparr>raw_password := raw\<rparr>)\<lparr>afields := afields ctx OR b\<rparr>"
    using a by (auto simp: read_auth_field_def bindE_eq_Inr simp del: auth_bit.simps split: if_splits)
  obtain w where w: "cur p = w @ quoted raw @ cur p'" "white w" "json_value MAX_JSON_DEPTH (quoted raw)"
    using read_string_quoted[OF r] .
  show "\<exists>w v. cur p = w @ v @ cur p' \<and> white w \<and> json_value (MAX_JSON_DEPTH - 0) v \<and>
      (\<forall>kvs. auth_inv kvs ctx \<and> key \<notin> fst ` set kvs \<and> json_content key \<longrightarrow> auth_inv (kvs @ [(key, v)]) ctx')"
    unfolding c using w auth_inv_step[OF _ _ b(3)] auth_bit_Inr[OF b(1)] b(2)
    by (intro exI[of _ w] exI[of _ "quoted raw"]) simp
qed

section \<open>Properties\<close>

text \<open>\<open>body_object s kvs\<close>: the whole body is one object with the members \<open>kvs\<close>.\<close>

definition body_object :: "string \<Rightarrow> (string \<times> string) list \<Rightarrow> bool" where
  "body_object s kvs \<longleftrightarrow> (\<exists>w1 v w2. s = w1 @ v @ w2 \<and> white w1 \<and> white w2 \<and> json_object MAX_JSON_DEPTH kvs v)"

lemma body_objectI:
  assumes "\<exists>w v kvs. s = w @ v @ cur p \<and> white w \<and> json_object (MAX_JSON_DEPTH - 0) kvs v \<and> P kvs"
    "skip_whitespace (cur p) = []"
  shows "\<exists>kvs. body_object s kvs \<and> P kvs"
  using assms skip_whitespace_split[of "cur p"] unfolding body_object_def by fastforce

text \<open>What the invariants say of a body that is accepted.\<close>

lemma challenge_all_members:
  assumes "challenge_inv kvs c" "cfields c = 15"
  shows "string_member kvs ''name'' (req_name (request c)) \<and>
    string_member kvs ''description'' (req_description (request c)) \<and>
    string_member kvs ''flag'' (req_flag (request c)) \<and>
    string_member kvs ''genre'' (ctf_genre_to_string (req_genre (request c)))"
proof -
  have "has_member kvs ''name''" "has_member kvs ''description''" "has_member kvs ''flag''" "has_member kvs ''genre''"
    using assms unfolding challenge_inv_def by (auto simp: field_bits(5))
  then show ?thesis using assms(1) unfolding challenge_inv_def by simp
qed

lemma answer_all_members:
  assumes "answer_inv kvs c" "sub_challenge_id c \<noteq> 0" "sub_answer c \<noteq> []"
    "\<not> json_string_equal_decoded (Some (sub_answer c)) (Some (sub_answer c)) < 0"
  shows "map_of kvs ''challenge_id'' = Some (show_nat (sub_challenge_id c)) \<and>
    1 \<le> sub_challenge_id c \<and> sub_challenge_id c \<le> INT_MAX \<and>
    string_member kvs ''answer'' (sub_answer c) \<and> codepoints (sub_answer c) \<noteq> None"
proof -
  have "codepoints (sub_answer c) \<noteq> None"
    using assms(4) by (auto simp: json_string_equal_decoded_def equal_loop_codepoints split: option.splits)
  moreover have "has_member kvs ''challenge_id''" using assms(1,2) by (auto simp: answer_inv_def split: if_splits)
  moreover have "has_member kvs ''answer''"
  proof (rule ccontr)
    assume "\<not> has_member kvs ''answer''"
    then have "member_text kvs ''answer'' = []"
      by (auto simp: member_text_def has_member_def map_of_eq_None_iff[symmetric] split: option.splits)
    then show False using assms(1,3) by (simp add: answer_inv_def)
  qed
  moreover have "has_member kvs ''answer'' \<longrightarrow> string_member kvs ''answer'' (sub_answer c)"
    using assms(1) unfolding answer_inv_def by (elim conjE)
  moreover have "has_member kvs ''challenge_id'' \<longrightarrow> map_of kvs ''challenge_id'' = Some (show_nat (sub_challenge_id c)) \<and>
      1 \<le> sub_challenge_id c \<and> sub_challenge_id c \<le> INT_MAX"
    using assms(1) by (cases "has_member kvs ''challenge_id''") (simp_all add: answer_inv_def)
  ultimately show ?thesis by simp
qed

text \<open>
  C34.  Creating a challenge: a body is accepted only when it is one JSON object whose
  members \<open>name\<close>, \<open>description\<close>, \<open>flag\<close> and \<open>genre\<close> are all strings, the genre is the name
  of one of the seven genres, name and flag have 1 to 255 characters and the description at
  most 65535 bytes; the request then holds exactly these contents.  Every other outcome is
  one of the two error codes, with an empty request.
\<close>

theorem json_to_create_challenge_request_correct:
  "case json_to_create_challenge_request m json of (r, req) \<Rightarrow>
     (r \<in> {-1, -2} \<and> req = zero_create_challenge_request) \<or>
     (r = 0 \<and> (\<exists>s kvs. json = Some s \<and> body_object s kvs \<and>
        string_member kvs ''name'' (req_name req) \<and>
        string_member kvs ''description'' (req_description req) \<and>
        string_member kvs ''flag'' (req_flag req) \<and>
        string_member kvs ''genre'' (ctf_genre_to_string (req_genre req)) \<and>
        req_name req \<noteq> [] \<and> stored_character_count (req_name req) \<le> 255 \<and>
        req_flag req \<noteq> [] \<and> stored_character_count (req_flag req) \<le> 255 \<and>
        length (req_description req) \<le> 65535))"
proof (cases "json = None \<or> json = Some []")
  case True
  then show ?thesis by (auto simp: json_to_create_challenge_request_def)
next
  case False
  then obtain s where s: "json = Some s" "s \<noteq> []" by (cases json) auto
  let ?c0 = "\<lparr>request = zero_create_challenge_request, cfields = 0\<rparr>"
  have inv0: "challenge_inv [] ?c0"
    by (simp add: challenge_inv_def zero_create_challenge_request_def field_bits_def)
  show ?thesis
  proof (cases "read_object \<lparr>cur = s, mem = m\<rparr> 0 read_challenge_field ?c0")
    case (Inl e)
    then show ?thesis using s challenge_field.read_object_error[OF Inl]
      by (simp add: json_to_create_challenge_request_def parse_error_def)
  next
    case (Inr b)
    then obtain c p where r: "read_object \<lparr>cur = s, mem = m\<rparr> 0 read_challenge_field ?c0 = Inr (c, p)"
      by (cases b) auto
    show ?thesis
    proof (cases "skip_whitespace (cur p) \<noteq> [] \<or> cfields c \<noteq> 15 \<or>
        length (req_name (request c)) = 0 \<or> length (req_flag (request c)) = 0 \<or>
        stored_character_count (req_name (request c)) > 255 \<or>
        stored_character_count (req_flag (request c)) > 255 \<or> length (req_description (request c)) > 65535")
      case True
      then show ?thesis using s r by (simp add: json_to_create_challenge_request_def)
    next
      case False
      then have res: "json_to_create_challenge_request m json = (0, request c)"
        using s r unfolding json_to_create_challenge_request_def by simp
      obtain kvs where k: "body_object s kvs" "challenge_inv kvs c"
        using body_objectI[of s p "\<lambda>kvs. challenge_inv kvs c"] challenge_field.read_object_sound[OF r inv0] False
        by auto
      have "string_member kvs ''name'' (req_name (request c)) \<and>
        string_member kvs ''description'' (req_description (request c)) \<and>
        string_member kvs ''flag'' (req_flag (request c)) \<and>
        string_member kvs ''genre'' (ctf_genre_to_string (req_genre (request c)))"
        by (rule challenge_all_members[OF k(2)]) (use False in simp)
      then show ?thesis using res s k(1) False by auto
    qed
  qed
qed

text \<open>
  C35.  Submitting an answer: a body is accepted only when it is one JSON object whose member
  \<open>challenge_id\<close> is the decimal text of an integer from 1 to \<open>INT_MAX\<close> without sign, leading
  zero, fraction or exponent, and whose member \<open>answer\<close> is a string of at least one byte and
  at most 255 characters that decodes; the request holds exactly that number and these
  contents.  Every other outcome is one of the two error codes, with an empty request.
\<close>

theorem json_to_submit_answer_request_correct:
  "case json_to_submit_answer_request m json of (r, req) \<Rightarrow>
     (r \<in> {-1, -2} \<and> req = zero_submit_answer_request) \<or>
     (r = 0 \<and> (\<exists>s kvs. json = Some s \<and> body_object s kvs \<and>
        map_of kvs ''challenge_id'' = Some (show_nat (sub_challenge_id req)) \<and>
        1 \<le> sub_challenge_id req \<and> sub_challenge_id req \<le> INT_MAX \<and>
        string_member kvs ''answer'' (sub_answer req) \<and> sub_answer req \<noteq> [] \<and>
        character_count_loop (sub_answer req) 0 \<le> 255 \<and> codepoints (sub_answer req) \<noteq> None))"
proof (cases "json = None \<or> json = Some []")
  case True
  then show ?thesis by (auto simp: json_to_submit_answer_request_def)
next
  case False
  then obtain s where s: "json = Some s" "s \<noteq> []" by (cases json) auto
  have inv0: "answer_inv [] zero_submit_answer_request"
    by (simp add: answer_inv_def zero_submit_answer_request_def)
  show ?thesis
  proof (cases "read_object \<lparr>cur = s, mem = m\<rparr> 0 read_answer_field zero_submit_answer_request")
    case (Inl e)
    then show ?thesis using s answer_field.read_object_error[OF Inl]
      by (simp add: json_to_submit_answer_request_def parse_error_def)
  next
    case (Inr b)
    then obtain c p where r: "read_object \<lparr>cur = s, mem = m\<rparr> 0 read_answer_field zero_submit_answer_request = Inr (c, p)"
      by (cases b) auto
    show ?thesis
    proof (cases "skip_whitespace (cur p) \<noteq> [] \<or> sub_challenge_id c = 0 \<or> length (sub_answer c) = 0 \<or>
        character_count_loop (sub_answer c) 0 > 255 \<or>
        json_string_equal_decoded (Some (sub_answer c)) (Some (sub_answer c)) < 0")
      case True
      then show ?thesis using s r by (auto simp: json_to_submit_answer_request_def)
    next
      case False
      then have res: "json_to_submit_answer_request m json = (0, c)"
        using s r unfolding json_to_submit_answer_request_def by simp
      obtain kvs where k: "body_object s kvs" "answer_inv kvs c"
        using body_objectI[of s p "\<lambda>kvs. answer_inv kvs c"] answer_field.read_object_sound[OF r inv0] False
        by auto
      have "map_of kvs ''challenge_id'' = Some (show_nat (sub_challenge_id c)) \<and>
          1 \<le> sub_challenge_id c \<and> sub_challenge_id c \<le> INT_MAX \<and>
          string_member kvs ''answer'' (sub_answer c) \<and> codepoints (sub_answer c) \<noteq> None"
        by (rule answer_all_members) (use k(2) False in simp_all)
      then show ?thesis using res s k(1) False by auto
    qed
  qed
qed


definition accepted_credentials :: "string \<Rightarrow> string \<Rightarrow> bool" where
  "accepted_credentials u q \<longleftrightarrow> 3 \<le> length u \<and> length u \<le> 32 \<and> list_all username_char u \<and>
     8 \<le> length q \<and> length q \<le> 128 \<and> CHR 0x00 \<notin> set q"

lemma invalid_credentials: "invalid_credentials u q \<longleftrightarrow> \<not> accepted_credentials u q"
  by (auto simp: invalid_credentials_def accepted_credentials_def memchr_None not_less not_le)

lemma decode_body_string:
  assumes "length s < 65536"
  shows "json_string_decode alloc (Some s) = Some (case codepoints s of None \<Rightarrow> (-1, None)
      | Some vs \<Rightarrow> if alloc then (0, Some (utf8_text vs)) else (-2, None))"
proof -
  have "length s < SIZE_MAX" using assms by (simp add: SIZE_MAX_def)
  from json_string_decode_codepoints[OF this] show ?thesis by blast
qed

lemma json_members_length: "json_members d kvs m \<Longrightarrow> (k, v) \<in> set kvs \<Longrightarrow> length v \<le> length m"
proof (induction kvs arbitrary: m)
  case (Cons x kvs)
  from Cons.prems(1) show ?case
  proof (cases rule: json_members.cases)
    case (member w1 k w2 w3 v w4)
    then show ?thesis using Cons.prems(2) by auto
  next
    case (members w1 k' w2 w3 v' w4 m')
    then have "(k, v) \<in> set kvs \<Longrightarrow> length v \<le> length m'" using Cons.IH by simp
    then show ?thesis using members Cons.prems(2) by auto
  qed
qed simp

lemma length_quoted_member:
  assumes "body_object s kvs" "(k, quoted t) \<in> set kvs"
  shows "length t \<le> length s"
proof -
  obtain w1 v w2 m where "s = w1 @ v @ w2" "json_members MAX_JSON_DEPTH kvs m" "v = CHR ''{'' # m @ ''}''"
    using assms by (auto simp: body_object_def json_object_def)
  then show ?thesis using json_members_length[OF _ assms(2)] by (fastforce simp: quoted_def)
qed

lemma json_to_auth_request_cases:
  "\<exists>r req. json_to_auth_request m json = Some (r, req) \<and>
     ((r \<in> {-1, -2} \<and> req = zero_auth_request) \<or>
      (r = 0 \<and> (\<exists>s kvs k l ru rq us qs. json = Some s \<and> length s < 65536 \<and> body_object s kvs \<and>
         kvs \<in> {[(k, quoted ru), (l, quoted rq)], [(l, quoted rq), (k, quoted ru)]} \<and>
         spells k ''username'' \<and> spells l ''password'' \<and>
         codepoints ru = Some us \<and> codepoints rq = Some qs \<and>
         req = \<lparr>auth_username = Some (utf8_text us), auth_password = Some (utf8_text qs)\<rparr> \<and>
         accepted_credentials (utf8_text us) (utf8_text qs))))"
proof (cases "json = None \<or> json = Some [] \<or> 65536 \<le> length (the json)")
  case True
  then show ?thesis by (auto simp: json_to_auth_request_def split: option.splits)
next
  case False
  then obtain s where s: "json = Some s" "s \<noteq> []" "length s < 65536" by (cases json) auto
  let ?c0 = "\<lparr>raw_username = [], raw_password = [], afields = 0\<rparr>"
  have inv0: "auth_inv [] ?c0" by (simp add: auth_inv_def)
  show ?thesis
  proof (cases "read_object \<lparr>cur = s, mem = m\<rparr> 0 read_auth_field ?c0")
    case (Inl e)
    then show ?thesis using s auth_field.read_object_error[OF Inl]
      by (auto simp: json_to_auth_request_def parse_error_def)
  next
    case (Inr b)
    then obtain c p where r: "read_object \<lparr>cur = s, mem = m\<rparr> 0 read_auth_field ?c0 = Inr (c, p)"
      by (cases b) auto
    show ?thesis
    proof (cases "afields c \<noteq> 3 \<or> skip_whitespace (cur p) \<noteq> []")
      case True
      then show ?thesis using s r by (auto simp: json_to_auth_request_def)
    next
      case fields: False
      obtain kvs where k: "body_object s kvs" "auth_inv kvs c"
        using body_objectI[of s p "\<lambda>kvs. auth_inv kvs c"] auth_field.read_object_sound[OF r inv0] fields
        by auto
      obtain k1 k2 where kv: "kvs \<in> {[(k1, quoted (raw_username c)), (k2, quoted (raw_password c))],
          [(k2, quoted (raw_password c)), (k1, quoted (raw_username c))]}" "spells k1 ''username''" "spells k2 ''password''"
        using k(2) fields unfolding auth_inv_def by auto
      have "length (raw_username c) < 65536" "length (raw_password c) < 65536"
        using length_quoted_member[OF k(1), of k1 "raw_username c"] length_quoted_member[OF k(1), of k2 "raw_password c"]
          kv(1) s(3) by auto
      note dec = this [THEN decode_body_string]
      have res: "json_to_auth_request m json =
          (case codepoints (raw_username c) of None \<Rightarrow> Some (-1, zero_auth_request)
           | Some us \<Rightarrow> if mem p = 0 then Some (-2, zero_auth_request) else
              (case codepoints (raw_password c) of None \<Rightarrow> Some (-1, zero_auth_request)
               | Some qs \<Rightarrow> if mem p \<le> 1 then Some (-2, zero_auth_request) else
                  if accepted_credentials (utf8_text us) (utf8_text qs)
                  then Some (0, \<lparr>auth_username = Some (utf8_text us), auth_password = Some (utf8_text qs)\<rparr>)
                  else Some (-1, zero_auth_request)))"
        using s r fields by (simp add: json_to_auth_request_def dec invalid_credentials split: option.split)
      show ?thesis
      proof (cases "\<exists>us qs. codepoints (raw_username c) = Some us \<and> codepoints (raw_password c) = Some qs \<and>
          1 < mem p \<and> accepted_credentials (utf8_text us) (utf8_text qs)")
        case True
        then obtain us qs where u: "codepoints (raw_username c) = Some us" "codepoints (raw_password c) = Some qs"
          "1 < mem p" "accepted_credentials (utf8_text us) (utf8_text qs)" by blast
        then have "json_to_auth_request m json = Some (0, \<lparr>auth_username = Some (utf8_text us), auth_password = Some (utf8_text qs)\<rparr>)"
          using res by simp
        then show ?thesis
          by (intro exI conjI disjI2) (assumption | rule s(1) s(3) k(1) kv u(1,2,4) refl)+
      next
        case False
        then have "json_to_auth_request m json \<in> {Some (-1, zero_auth_request), Some (-2, zero_auth_request)}"
          using res by (auto split: option.splits)
        then show ?thesis by auto
      qed
    qed
  qed
qed

text \<open>
  C36.  Credentials: a body is accepted only when it is one JSON object of fewer than 65536
  bytes with exactly two members, one whose key spells \<open>username\<close> and one whose key spells
  \<open>password\<close> once escapes are decoded, both strings that decode; the user name has 3 to 32
  letters, digits, underscores or hyphens and the password 8 to 128 bytes without NUL, and
  the request holds the decoded texts.  Every other outcome is one of the two error codes,
  with no string left, and no input leads to undefined behaviour.
\<close>

theorem json_to_auth_request_correct:
  "\<exists>r req. json_to_auth_request m json = Some (r, req) \<and>
     ((r \<in> {-1, -2} \<and> req = zero_auth_request) \<or>
      (r = 0 \<and> (\<exists>s kvs k l ru rq us qs. json = Some s \<and> length s < 65536 \<and> body_object s kvs \<and>
         kvs \<in> {[(k, quoted ru), (l, quoted rq)], [(l, quoted rq), (k, quoted ru)]} \<and>
         spells k ''username'' \<and> spells l ''password'' \<and>
         codepoints ru = Some us \<and> codepoints rq = Some qs \<and>
         req = \<lparr>auth_username = Some (utf8_text us), auth_password = Some (utf8_text qs)\<rparr> \<and>
         accepted_credentials (utf8_text us) (utf8_text qs))))"
  by (rule json_to_auth_request_cases)

lemma read_positive_integer_example:
  "read_positive_integer \<lparr>cur = '' 2147483647,'', mem = 0\<rparr> = Inr (2147483647, \<lparr>cur = '','', mem = 0\<rparr>)"
proof -
  have "show_nat 2147483647 = ''2147483647''" by code_simp
  then have "\<exists>w. white w \<and> '' 2147483647,'' = w @ show_nat 2147483647 @ '',''"
    by (intro exI[of _ "'' ''"]) (simp add: is_json_space_def)
  then show ?thesis
    using read_positive_integer_iff[of "\<lparr>cur = '' 2147483647,'', mem = 0\<rparr>" 2147483647 "\<lparr>cur = '','', mem = 0\<rparr>"]
    by (simp add: INT_MAX_def is_digit_def)
qed

end
