(* ===== verification/Score.thy ===== *)
theory Score
  imports Prelude "HOL-Library.Multiset"
begin

text \<open>
  \<open>src/src/app/score.c\<close>: the scoreboard.  Identifiers are NUL-terminated strings without
  NUL bytes, compared with \<open>strcmp\<close>.  \<open>qsort\<close> of the C library is a parameter: the standard
  promises a sorted permutation and nothing about the order of equal elements.  A score is an \<open>int\<close>
  where the code has \<open>int64_t\<close>: 100 points for each solved challenge of a list that fits in memory do
  not exceed its range.
\<close>

section \<open>Comparison functions\<close>

text \<open>\<open>strcmp\<close>: the difference of the first bytes that differ.\<close>

fun strcmp :: "string \<Rightarrow> string \<Rightarrow> int" where
  "strcmp [] [] = 0"
| "strcmp [] (d # t) = - int (of_char d)"
| "strcmp (c # s) [] = int (of_char c)"
| "strcmp (c # s) (d # t) = (if c = d then strcmp s t else int (of_char c) - int (of_char d))"

record public_user =
  user_name_id :: string
  username :: string
  score :: int

record score_answer =
  answer_user_id :: string
  answer_challenge :: int
  answer_created_at :: int

definition compare_user_ids :: "public_user \<Rightarrow> public_user \<Rightarrow> int" where
  "compare_user_ids a b = strcmp (user_name_id a) (user_name_id b)"

definition compare_answers :: "score_answer \<Rightarrow> score_answer \<Rightarrow> int" where
  "compare_answers a b =
     (let order = strcmp (answer_user_id a) (answer_user_id b) in
      if order \<noteq> 0 then order
      else of_bool (answer_challenge a > answer_challenge b) - of_bool (answer_challenge a < answer_challenge b))"

definition compare_scores :: "public_user \<Rightarrow> public_user \<Rightarrow> int" where
  "compare_scores a b =
     (if score a \<noteq> score b then of_bool (score a < score b) - of_bool (score a > score b)
      else strcmp (user_name_id a) (user_name_id b))"

section \<open>The scores\<close>

text \<open>
  The \<open>while\<close> loop for one user: the score, and the answers from \<open>answer_index\<close> on.
\<close>

fun count_answers :: "bool \<Rightarrow> int \<Rightarrow> string \<Rightarrow> int \<Rightarrow> int \<Rightarrow> score_answer list \<Rightarrow> int \<times> score_answer list" where
  "count_answers end_enabled end_at uid last_challenge sc [] = (sc, [])"
| "count_answers end_enabled end_at uid last_challenge sc (a # as) =
     (let order = strcmp (answer_user_id a) uid in
      if order > 0 then (sc, a # as)
      else if order < 0 \<or> (end_enabled \<and> answer_created_at a \<ge> end_at) then
        count_answers end_enabled end_at uid last_challenge sc as
      else if answer_challenge a \<noteq> last_challenge then
        count_answers end_enabled end_at uid (answer_challenge a) (sc + 100) as
      else count_answers end_enabled end_at uid last_challenge sc as)"

fun score_users :: "bool \<Rightarrow> int \<Rightarrow> public_user list \<Rightarrow> score_answer list \<Rightarrow> public_user list" where
  "score_users end_enabled end_at [] as = []"
| "score_users end_enabled end_at (u # us) as =
     (let (sc, as') = count_answers end_enabled end_at (user_name_id u) 0 0 as
      in u\<lparr>score := sc\<rparr> # score_users end_enabled end_at us as')"

type_synonym 'a qsort_fun = "('a \<Rightarrow> 'a \<Rightarrow> int) \<Rightarrow> 'a list \<Rightarrow> 'a list"

definition sort_if_many :: "'a qsort_fun \<Rightarrow> ('a \<Rightarrow> 'a \<Rightarrow> int) \<Rightarrow> 'a list \<Rightarrow> 'a list" where
  "sort_if_many qs cmp xs = (if length xs > 1 then qs cmp xs else xs)"

definition calculate_user_scores :: "public_user qsort_fun \<Rightarrow> score_answer qsort_fun \<Rightarrow>
    public_user list \<Rightarrow> score_answer list \<Rightarrow> bool \<Rightarrow> int \<Rightarrow> public_user list" where
  "calculate_user_scores qs_users qs_answers users answers end_enabled end_at =
     sort_if_many qs_users compare_scores
       (score_users end_enabled end_at (sort_if_many qs_users compare_user_ids users)
          (sort_if_many qs_answers compare_answers answers))"

section \<open>The contract of \<open>qsort\<close>\<close>

text \<open>A comparison function that orders the elements of an array.\<close>

definition orders :: "('a \<Rightarrow> 'a \<Rightarrow> int) \<Rightarrow> 'a set \<Rightarrow> bool" where
  "orders cmp A \<longleftrightarrow> (\<forall>x\<in>A. \<forall>y\<in>A. cmp x y \<le> 0 \<or> cmp y x \<le> 0) \<and>
     (\<forall>x\<in>A. \<forall>y\<in>A. \<forall>z\<in>A. cmp x y \<le> 0 \<longrightarrow> cmp y z \<le> 0 \<longrightarrow> cmp x z \<le> 0)"

abbreviation sorted_by :: "('a \<Rightarrow> 'a \<Rightarrow> int) \<Rightarrow> 'a list \<Rightarrow> bool" where
  "sorted_by cmp xs \<equiv> sorted_wrt (\<lambda>x y. cmp x y \<le> 0) xs"

lemma sorted_by_unique:
  assumes "sorted_by cmp zs" "sorted_by cmp ws" "mset zs = mset ws"
    and "\<And>x y. x \<in> set zs \<Longrightarrow> y \<in> set zs \<Longrightarrow> cmp x y \<le> 0 \<Longrightarrow> cmp y x \<le> 0 \<Longrightarrow> x = y"
  shows "zs = ws"
  using assms
proof (induction zs arbitrary: ws)
  case (Cons z zs)
  then obtain w ws' where ws: "ws = w # ws'" by (cases ws) auto
  have sets: "set (z # zs) = set (w # ws')" using Cons.prems(3) ws by (metis set_mset_mset)
  have w: "w \<in> set (z # zs)" using sets by simp
  have "cmp z w \<le> 0 \<or> z = w" using Cons.prems(1) w by auto
  moreover have "cmp w z \<le> 0 \<or> z = w" using Cons.prems(2) sets ws by auto
  ultimately have "z = w" using Cons.prems(4) w by (meson list.set_intros(1))
  then show ?case using Cons ws by simp
qed simp

locale qsort_contract =
  fixes qs :: "'a qsort_fun"
  assumes qs_mset: "mset (qs cmp xs) = mset xs"
    and qs_sorted: "orders cmp (set xs) \<Longrightarrow> sorted_by cmp (qs cmp xs)"
begin

lemma sort_if_many_mset: "mset (sort_if_many qs cmp xs) = mset xs"
  by (simp add: sort_if_many_def qs_mset)

lemma sort_if_many_set: "set (sort_if_many qs cmp xs) = set xs"
  using sort_if_many_mset[of cmp xs] by (metis set_mset_mset)

lemma sort_if_many_sorted:
  assumes "orders cmp (set xs)"
  shows "sorted_by cmp (sort_if_many qs cmp xs)"
proof (cases "length xs > 1")
  case True
  then show ?thesis using qs_sorted[OF assms] by (simp add: sort_if_many_def)
next
  case False
  then have "xs = [] \<or> (\<exists>x. xs = [x])" by (cases xs) auto
  then show ?thesis by (auto simp: sort_if_many_def)
qed

end

text \<open>Insertion sort, one function that keeps the contract, to evaluate the model with.\<close>

fun insert_by :: "('a \<Rightarrow> 'a \<Rightarrow> int) \<Rightarrow> 'a \<Rightarrow> 'a list \<Rightarrow> 'a list" where
  "insert_by cmp x [] = [x]"
| "insert_by cmp x (y # ys) = (if cmp x y \<le> 0 then x # y # ys else y # insert_by cmp x ys)"

definition insertion_sort :: "'a qsort_fun" where
  "insertion_sort cmp xs = foldr (insert_by cmp) xs []"

lemma mset_insert_by [simp]: "mset (insert_by cmp x ys) = add_mset x (mset ys)"
  by (induction ys) auto

lemma set_insert_by [simp]: "set (insert_by cmp x ys) = insert x (set ys)"
  by (metis mset_insert_by set_mset_add_mset_insert set_mset_mset)

lemma orders_subset: "orders cmp A \<Longrightarrow> B \<subseteq> A \<Longrightarrow> orders cmp B"
  unfolding orders_def by blast

lemma sorted_insert_by:
  "orders cmp (insert x (set ys)) \<Longrightarrow> sorted_by cmp ys \<Longrightarrow> sorted_by cmp (insert_by cmp x ys)"
proof (induction ys)
  case (Cons y ys)
  have o: "orders cmp (insert x (set ys))" by (rule orders_subset[OF Cons.prems(1)]) auto
  show ?case
  proof (cases "cmp x y \<le> 0")
    case True
    have "cmp x z \<le> 0" if "z \<in> set (y # ys)" for z
    proof (cases "z = y")
      case False
      then have "cmp y z \<le> 0" using that Cons.prems(2) by simp
      then show ?thesis using True Cons.prems(1) that unfolding orders_def by (meson insertI1 insertI2 list.set_intros(1))
    qed (use True in simp)
    then show ?thesis using True Cons.prems(2) by simp
  next
    case False
    then have "cmp y x \<le> 0" using Cons.prems(1) unfolding orders_def by simp
    then show ?thesis using False Cons.IH[OF o] Cons.prems(2) by simp
  qed
qed simp

interpretation insertion: qsort_contract "insertion_sort :: 'a qsort_fun"
proof
  fix cmp :: "'a \<Rightarrow> 'a \<Rightarrow> int" and xs
  show m: "mset (insertion_sort cmp xs) = mset xs" for xs
    by (induction xs) (simp_all add: insertion_sort_def)
  show "sorted_by cmp (insertion_sort cmp xs)" if "orders cmp (set xs)"
    using that
  proof (induction xs)
    case (Cons x xs)
    have "set (insertion_sort cmp xs) = set xs" using m[of xs] by (metis set_mset_mset)
    moreover have "orders cmp (set xs)" by (rule orders_subset[OF Cons.prems]) auto
    ultimately show ?case using Cons sorted_insert_by[of cmp x "insertion_sort cmp xs"]
      by (simp add: insertion_sort_def)
  qed (simp add: insertion_sort_def)
qed

section \<open>The comparison functions are orders\<close>

definition c_string :: "string \<Rightarrow> bool" where "c_string s \<longleftrightarrow> CHR 0x00 \<notin> set s"

lemma byte_pos: "CHR 0x00 \<noteq> c \<Longrightarrow> 0 < (of_char c :: nat)"
proof -
  have "(of_char c :: nat) = 0 \<longleftrightarrow> of_char c = (of_char (CHR 0x00) :: nat)" by simp
  then show "CHR 0x00 \<noteq> c \<Longrightarrow> ?thesis" by (simp only: of_char_eq_iff) auto
qed

lemma strcmp_zero: "c_string a \<Longrightarrow> c_string b \<Longrightarrow> strcmp a b = 0 \<longleftrightarrow> a = b"
  by (induction a b rule: strcmp.induct) (auto simp: c_string_def dest: byte_pos)

lemma strcmp_sym: "strcmp b a = - strcmp a b"
  by (induction a b rule: strcmp.induct) auto

lemma strcmp_trans:
  "c_string a \<Longrightarrow> c_string b \<Longrightarrow> c_string c \<Longrightarrow> strcmp a b \<le> 0 \<Longrightarrow> strcmp b c \<le> 0 \<Longrightarrow> strcmp a c \<le> 0"
proof (induction a b arbitrary: c rule: strcmp.induct)
  case (3 x s)
  then show ?case using byte_pos[of x] by (auto simp: c_string_def)
next
  case (4 x s y t)
  show ?case
  proof (cases c)
    case Nil
    then show ?thesis using 4 byte_pos[of y] by (auto simp: c_string_def)
  next
    case (Cons z u)
    have d: "x \<noteq> y \<Longrightarrow> (of_char x :: nat) \<noteq> of_char y" for x y by simp
    show ?thesis using 4 Cons d by (auto simp: c_string_def split: if_splits)
  qed
next
  case (2 y t)
  then show ?case by (cases c) simp_all
qed simp

lemma strcmp_linear: "strcmp a b \<le> 0 \<or> strcmp b a \<le> 0"
  using strcmp_sym[of a b] by linarith

lemma orders_users: "\<forall>u\<in>A. c_string (user_name_id u) \<Longrightarrow> orders compare_user_ids A"
  unfolding orders_def compare_user_ids_def using strcmp_linear strcmp_trans by blast

lemma orders_answers:
  assumes "\<forall>a\<in>A. c_string (answer_user_id a)"
  shows "orders compare_answers A"
proof -
  have le: "compare_answers a b \<le> 0 \<longleftrightarrow> strcmp (answer_user_id a) (answer_user_id b) < 0 \<or>
      answer_user_id a = answer_user_id b \<and> answer_challenge a \<le> answer_challenge b"
    if "a \<in> A" "b \<in> A" for a b
    using strcmp_zero[of "answer_user_id a" "answer_user_id b"] assms that
    by (auto simp: compare_answers_def Let_def)
  have lin: "compare_answers a b \<le> 0 \<or> compare_answers b a \<le> 0" if "a \<in> A" "b \<in> A" for a b
    using that strcmp_sym[of "answer_user_id a" "answer_user_id b"]
      strcmp_zero[of "answer_user_id a" "answer_user_id b"] assms by (auto simp: le)
  have lt: "strcmp a c < 0" if "c_string a" "c_string b" "c_string c" "strcmp a b \<le> 0" "strcmp b c \<le> 0" "a \<noteq> b \<or> b \<noteq> c"
    for a b c
  proof -
    have "strcmp a c \<le> 0" by (rule strcmp_trans[OF that(1-5)])
    moreover have "strcmp a c \<noteq> 0"
      using that strcmp_zero strcmp_sym by (metis neg_le_0_iff_le order_antisym)
    ultimately show ?thesis by simp
  qed
  have "compare_answers a c \<le> 0" if "a \<in> A" "b \<in> A" "c \<in> A" "compare_answers a b \<le> 0" "compare_answers b c \<le> 0" for a b c
    using that lt[of "answer_user_id a" "answer_user_id b" "answer_user_id c"] assms strcmp_zero
    by (fastforce simp: le)
  then show ?thesis using lin unfolding orders_def by blast
qed

lemma orders_scores:
  assumes "\<forall>u\<in>A. c_string (user_name_id u)"
  shows "orders compare_scores A"
proof -
  have le: "compare_scores a b \<le> 0 \<longleftrightarrow> score b < score a \<or>
      score a = score b \<and> strcmp (user_name_id a) (user_name_id b) \<le> 0" for a b
    by (auto simp: compare_scores_def)
  have "compare_scores a b \<le> 0 \<or> compare_scores b a \<le> 0" for a b
    using strcmp_linear[of "user_name_id a" "user_name_id b"] by (auto simp: le)
  moreover have "compare_scores a c \<le> 0"
    if "a \<in> A" "b \<in> A" "c \<in> A" "compare_scores a b \<le> 0" "compare_scores b c \<le> 0" for a b c
    using that strcmp_trans[of "user_name_id a" "user_name_id b" "user_name_id c"] assms by (auto simp: le)
  ultimately show ?thesis unfolding orders_def by blast
qed

section \<open>The score of a user\<close>

definition eligible :: "bool \<Rightarrow> int \<Rightarrow> score_answer \<Rightarrow> bool" where
  "eligible end_enabled end_at a \<longleftrightarrow> \<not> (end_enabled \<and> end_at \<le> answer_created_at a)"

text \<open>The challenges a user has solved in time.\<close>

definition solved :: "bool \<Rightarrow> int \<Rightarrow> score_answer set \<Rightarrow> string \<Rightarrow> int set" where
  "solved end_enabled end_at A uid =
     answer_challenge ` {a \<in> A. answer_user_id a = uid \<and> eligible end_enabled end_at a}"

lemma count_answers_correct:
  assumes "sorted_by compare_answers as" "\<forall>a\<in>set as. c_string (answer_user_id a)" "c_string uid"
    and "\<forall>c \<in> solved en ea (set as) uid. prev \<le> c"
  shows "count_answers en ea uid prev sc as =
    (sc + 100 * int (card (solved en ea (set as) uid - {prev})),
     dropWhile (\<lambda>a. strcmp (answer_user_id a) uid \<le> 0) as)"
  using assms
proof (induction as arbitrary: prev sc)
  case Nil
  then show ?case by (simp add: solved_def)
next
  case (Cons a as)
  define o1 where "o1 = strcmp (answer_user_id a) uid"
  have hyps: "sorted_by compare_answers as" "\<forall>a\<in>set as. c_string (answer_user_id a)" "c_string uid"
    using Cons.prems by simp_all
  have cs: "c_string (answer_user_id a)" using Cons.prems by simp
  consider (gt) "o1 > 0" | (skip) "o1 \<le> 0" "o1 \<noteq> 0 \<or> \<not> eligible en ea a" | (hit) "o1 = 0" "eligible en ea a"
    by linarith
  then show ?case
  proof cases
    case gt
    have "answer_user_id b \<noteq> uid" if "b \<in> set (a # as)" for b
    proof
      assume b: "answer_user_id b = uid"
      then have "b \<noteq> a" using gt strcmp_zero[OF cs hyps(3)] by (auto simp: o1_def)
      then have "compare_answers a b \<le> 0" using that Cons.prems(1) by simp
      then have "o1 \<le> 0" using b by (auto simp: compare_answers_def Let_def o1_def split: if_splits)
      then show False using gt by simp
    qed
    then have "solved en ea (set (a # as)) uid = {}" by (auto simp: solved_def)
    then show ?thesis using gt by (simp add: Let_def o1_def[symmetric])
  next
    case skip
    have "answer_user_id a \<noteq> uid \<or> \<not> eligible en ea a"
      using skip(2) strcmp_zero[OF cs hyps(3)] by (auto simp: o1_def)
    then have s: "solved en ea (set (a # as)) uid = solved en ea (set as) uid" by (auto simp: solved_def)
    have "o1 < 0 \<or> (en \<and> answer_created_at a \<ge> ea)" using skip by (auto simp: eligible_def)
    then show ?thesis using skip(1) Cons.IH[OF hyps, of prev sc] Cons.prems(4)
      by (simp add: Let_def o1_def[symmetric] s del: List.set_simps)
  next
    case hit
    have uid: "answer_user_id a = uid" using hit(1) strcmp_zero[OF cs hyps(3)] by (simp add: o1_def)
    have s: "solved en ea (set (a # as)) uid = insert (answer_challenge a) (solved en ea (set as) uid)"
      using uid hit(2) by (auto simp: solved_def)
    have min: "\<forall>c \<in> solved en ea (set as) uid. answer_challenge a \<le> c"
    proof
      fix c assume "c \<in> solved en ea (set as) uid"
      then obtain b where b: "b \<in> set as" "answer_user_id b = uid" "c = answer_challenge b" by (auto simp: solved_def)
      then have "compare_answers a b \<le> 0" using Cons.prems(1) by simp
      then show "answer_challenge a \<le> c"
        using b uid strcmp_zero[OF hyps(3) hyps(3)] by (auto simp: compare_answers_def split: if_splits)
    qed
    have prevle: "prev \<le> answer_challenge a" using Cons.prems(4) unfolding s by simp
    have nl: "\<not> (o1 < 0 \<or> (en \<and> answer_created_at a \<ge> ea))" using hit by (auto simp: eligible_def)
    have fin: "finite (solved en ea (set as) uid)" by (simp add: solved_def)
    have ca: "count_answers en ea uid prev sc (a # as) =
        (if answer_challenge a \<noteq> prev then count_answers en ea uid (answer_challenge a) (sc + 100) as
         else count_answers en ea uid prev sc as)"
      using nl hit(1) by (cases en) (simp_all add: Let_def o1_def[symmetric])
    have dw: "dropWhile (\<lambda>a. strcmp (answer_user_id a) uid \<le> 0) (a # as) =
        dropWhile (\<lambda>a. strcmp (answer_user_id a) uid \<le> 0) as"
      using hit(1) by (simp add: o1_def)
    show ?thesis
    proof (cases "answer_challenge a = prev")
      case True
      have "insert prev S - {prev} = S - {prev}" for S :: "int set" by auto
      moreover have "\<forall>c\<in>solved en ea (set as) uid. prev \<le> c" using min True by simp
      ultimately show ?thesis using Cons.IH[OF hyps, of prev sc] True unfolding ca dw s by simp
    next
      case False
      then have "prev \<notin> solved en ea (set as) uid" using min prevle by force
      then have "insert (answer_challenge a) (solved en ea (set as) uid) - {prev} =
          insert (answer_challenge a) (solved en ea (set as) uid)" using False by blast
      then have "card (insert (answer_challenge a) (solved en ea (set as) uid) - {prev}) =
          Suc (card (solved en ea (set as) uid - {answer_challenge a}))"
        using card.insert_remove[OF fin] by simp
      then show ?thesis using Cons.IH[OF hyps min, of "sc + 100"] False unfolding ca dw s by simp
    qed
  qed
qed

lemma score_users_correct:
  assumes "sorted_by compare_user_ids us" "distinct (map user_name_id us)"
    and "\<forall>u\<in>set us. c_string (user_name_id u)"
    and "sorted_by compare_answers as" "\<forall>a\<in>set as. c_string (answer_user_id a) \<and> 0 < answer_challenge a"
  shows "score_users en ea us as =
    map (\<lambda>u. u\<lparr>score := 100 * int (card (solved en ea (set as) (user_name_id u)))\<rparr>) us"
  using assms
proof (induction us arbitrary: as)
  case (Cons u us)
  let ?P = "\<lambda>a. strcmp (answer_user_id a) (user_name_id u) \<le> 0"
  have pos: "0 \<notin> solved en ea (set as) v" "\<forall>c\<in>solved en ea (set as) v. 0 \<le> c" for v
    using Cons.prems(5) by (force simp: solved_def)+
  have ca: "count_answers en ea (user_name_id u) 0 0 as =
      (100 * int (card (solved en ea (set as) (user_name_id u))), dropWhile ?P as)"
    using count_answers_correct[of as "user_name_id u" en ea 0 0] Cons.prems(3-5) pos by simp
  have rest: "solved en ea (set (dropWhile ?P as)) (user_name_id v) = solved en ea (set as) (user_name_id v)"
    if "v \<in> set us" for v
  proof -
    have "\<not> ?P a" if "a \<in> set as" "answer_user_id a = user_name_id v" for a
    proof
      assume le: "?P a"
      have "strcmp (user_name_id u) (user_name_id v) \<le> 0"
        using Cons.prems(1) \<open>v \<in> set us\<close> by (auto simp: compare_user_ids_def)
      then have "strcmp (user_name_id u) (user_name_id v) = 0"
        using le that(2) strcmp_sym[of "user_name_id u" "user_name_id v"] by simp
      then have "user_name_id u = user_name_id v" using strcmp_zero Cons.prems(3) \<open>v \<in> set us\<close> by simp
      then show False using Cons.prems(2) \<open>v \<in> set us\<close> by auto
    qed
    then have "{a \<in> set (dropWhile ?P as). answer_user_id a = user_name_id v \<and> eligible en ea a} =
        {a \<in> set as. answer_user_id a = user_name_id v \<and> eligible en ea a}"
      using set_dropWhileD[of _ ?P as] set_takeWhileD[of _ ?P as] takeWhile_dropWhile_id[of ?P as]
      by (metis (no_types, lifting) Un_iff set_append)
    then show ?thesis by (simp add: solved_def)
  qed
  have "sorted_by compare_answers (dropWhile ?P as)"
    using Cons.prems(4) takeWhile_dropWhile_id[of ?P as] by (metis sorted_wrt_append)
  then have ih: "score_users en ea us (dropWhile ?P as) =
    map (\<lambda>v. v\<lparr>score := 100 * int (card (solved en ea (set (dropWhile ?P as)) (user_name_id v)))\<rparr>) us"
    using Cons.prems set_dropWhileD by (intro Cons.IH) fastforce+
  show ?case using ca ih rest by simp
qed simp

text \<open>The scoreboard that the two sorts and the scan together compute.\<close>

definition scoreboard :: "bool \<Rightarrow> int \<Rightarrow> public_user list \<Rightarrow> score_answer list \<Rightarrow> public_user multiset" where
  "scoreboard end_enabled end_at users answers =
     image_mset (\<lambda>u. u\<lparr>score := 100 * int (card (solved end_enabled end_at (set answers) (user_name_id u)))\<rparr>)
       (mset users)"

lemma calculate_user_scores_main:
  assumes "qsort_contract qs_users" "qsort_contract qs_answers"
    and "distinct (map user_name_id users)" "\<forall>u\<in>set users. c_string (user_name_id u)"
    and "\<forall>a\<in>set answers. c_string (answer_user_id a) \<and> 0 < answer_challenge a"
  shows "sorted_by compare_scores (calculate_user_scores qs_users qs_answers users answers en ea) \<and>
     mset (calculate_user_scores qs_users qs_answers users answers en ea) = scoreboard en ea users answers"
proof -
  note u = qsort_contract.sort_if_many_sorted[OF assms(1)] qsort_contract.sort_if_many_mset[OF assms(1)]
    qsort_contract.sort_if_many_set[OF assms(1)]
  note a = qsort_contract.sort_if_many_sorted[OF assms(2)] qsort_contract.sort_if_many_set[OF assms(2)]
  define us where "us = sort_if_many qs_users compare_user_ids users"
  define as where "as = sort_if_many qs_answers compare_answers answers"
  have us: "sorted_by compare_user_ids us" "mset us = mset users" "set us = set users"
    using assms(4) u orders_users unfolding us_def by blast+
  have as: "sorted_by compare_answers as" "set as = set answers"
    using assms(5) a orders_answers unfolding as_def by blast+
  have "distinct (map user_name_id us)"
    using assms(3) us(2) by (metis mset_eq_imp_distinct_iff mset_map)
  then have sc: "score_users en ea us as =
      map (\<lambda>u. u\<lparr>score := 100 * int (card (solved en ea (set answers) (user_name_id u)))\<rparr>) us"
    using score_users_correct[of us as en ea] us as assms(4,5) by simp
  have r: "calculate_user_scores qs_users qs_answers users answers en ea =
      sort_if_many qs_users compare_scores (score_users en ea us as)"
    by (simp add: calculate_user_scores_def us_def as_def)
  have "\<forall>u\<in>set (score_users en ea us as). c_string (user_name_id u)" using sc us(3) assms(4) by auto
  then have "sorted_by compare_scores (sort_if_many qs_users compare_scores (score_users en ea us as))"
    using u(1) orders_scores by blast
  moreover have "mset (score_users en ea us as) = scoreboard en ea users answers"
    using sc us(2) by (simp add: scoreboard_def mset_map)
  ultimately show ?thesis unfolding r using u(2) by simp
qed

lemma compare_scores_antisym:
  "c_string (user_name_id x) \<Longrightarrow> c_string (user_name_id y) \<Longrightarrow>
   compare_scores x y \<le> 0 \<Longrightarrow> compare_scores y x \<le> 0 \<Longrightarrow> user_name_id x = user_name_id y"
  using strcmp_sym[of "user_name_id x" "user_name_id y"] strcmp_zero
  by (auto simp: compare_scores_def split: if_splits)

section \<open>Properties\<close>

text \<open>
  C19.  The scoreboard: with any \<open>qsort\<close> that sorts, the result lists every user once with
  100 points for each distinct challenge that the user solved before the end of the contest
  (repeated correct answers count once, late answers not at all), the highest score first
  and users with equal scores by identifier.
\<close>

theorem calculate_user_scores_correct:
  assumes "qsort_contract qs_users" "qsort_contract qs_answers"
    and "distinct (map user_name_id users)" "\<forall>u\<in>set users. c_string (user_name_id u)"
    and "\<forall>a\<in>set answers. c_string (answer_user_id a) \<and> 0 < answer_challenge a"
  shows "sorted_by compare_scores (calculate_user_scores qs_users qs_answers users answers en ea) \<and>
     mset (calculate_user_scores qs_users qs_answers users answers en ea) = scoreboard en ea users answers"
  by (rule calculate_user_scores_main[OF assms])

theorem calculate_user_scores_correct_witness:
  "mset (calculate_user_scores insertion_sort insertion_sort
      [\<lparr>user_name_id = ''b'', username = ''x'', score = 7\<rparr>, \<lparr>user_name_id = ''a'', username = ''y'', score = 0\<rparr>]
      [\<lparr>answer_user_id = ''b'', answer_challenge = 2, answer_created_at = 5\<rparr>,
       \<lparr>answer_user_id = ''b'', answer_challenge = 2, answer_created_at = 6\<rparr>,
       \<lparr>answer_user_id = ''a'', answer_challenge = 2, answer_created_at = 99\<rparr>] True 50) =
   {#\<lparr>user_name_id = ''b'', username = ''x'', score = 100\<rparr>, \<lparr>user_name_id = ''a'', username = ''y'', score = 0\<rparr>#}"
proof -
  let ?us = "[\<lparr>user_name_id = ''b'', username = ''x'', score = 7\<rparr>, \<lparr>user_name_id = ''a'', username = ''y'', score = 0\<rparr>]"
  let ?as = "[\<lparr>answer_user_id = ''b'', answer_challenge = 2, answer_created_at = 5\<rparr>,
       \<lparr>answer_user_id = ''b'', answer_challenge = 2, answer_created_at = 6\<rparr>,
       \<lparr>answer_user_id = ''a'', answer_challenge = 2, answer_created_at = 99\<rparr>]"
  have "{a. (a = ?as ! 0 \<or> a = ?as ! 1 \<or> a = ?as ! 2) \<and> answer_user_id a = ''b'' \<and> eligible True 50 a} = {?as ! 0, ?as ! 1}"
    "{a. (a = ?as ! 0 \<or> a = ?as ! 1 \<or> a = ?as ! 2) \<and> answer_user_id a = ''a'' \<and> eligible True 50 a} = {}"
    by (auto simp: eligible_def)
  then have s: "solved True 50 (set ?as) ''b'' = {2}" "solved True 50 (set ?as) ''a'' = {}"
    by (simp_all add: solved_def)
  have h: "distinct (map user_name_id ?us)" "\<forall>u\<in>set ?us. c_string (user_name_id u)"
    "\<forall>a\<in>set ?as. c_string (answer_user_id a) \<and> 0 < answer_challenge a" by (simp_all add: c_string_def)
  have "scoreboard True 50 ?us ?as = {#(?us ! 0)\<lparr>score := 100\<rparr>, (?us ! 1)\<lparr>score := 0\<rparr>#}"
    unfolding scoreboard_def using s by (simp del: List.set_simps)
  then show ?thesis
    using calculate_user_scores_correct[OF insertion.qsort_contract_axioms insertion.qsort_contract_axioms h, of True 50]
    by simp
qed

text \<open>
  The ranking does not depend on how \<open>qsort\<close> treats equal elements: any two functions
  that keep its contract give the same list.
\<close>

theorem calculate_user_scores_deterministic:
  assumes "qsort_contract qs_users" "qsort_contract qs_answers" "qsort_contract qs_users'" "qsort_contract qs_answers'"
    and "distinct (map user_name_id users)" "\<forall>u\<in>set users. c_string (user_name_id u)"
    and "\<forall>a\<in>set answers. c_string (answer_user_id a) \<and> 0 < answer_challenge a"
  shows "calculate_user_scores qs_users qs_answers users answers en ea =
     calculate_user_scores qs_users' qs_answers' users answers en ea"
proof (rule sorted_by_unique[of compare_scores])
  let ?r = "calculate_user_scores qs_users qs_answers users answers en ea"
  note m = calculate_user_scores_main[OF assms(1,2,5-7), of en ea] calculate_user_scores_main[OF assms(3-7), of en ea]
  show "sorted_by compare_scores ?r" "sorted_by compare_scores (calculate_user_scores qs_users' qs_answers' users answers en ea)"
    "mset ?r = mset (calculate_user_scores qs_users' qs_answers' users answers en ea)" using m by simp_all
  fix x y assume xy: "x \<in> set ?r" "y \<in> set ?r" "compare_scores x y \<le> 0" "compare_scores y x \<le> 0"
  define f where "f = (\<lambda>u :: public_user. u\<lparr>score := 100 * int (card (solved en ea (set answers) (user_name_id u)))\<rparr>)"
  have "mset ?r = image_mset f (mset users)" using m(1) by (simp add: scoreboard_def f_def)
  then have "set_mset (mset ?r) = f ` set_mset (mset users)" by simp
  then have "set ?r = f ` set users" by simp
  then obtain u v where uv: "u \<in> set users" "x = f u" "v \<in> set users" "y = f v" using xy(1,2) by auto
  have "user_name_id x = user_name_id y"
    by (rule compare_scores_antisym[OF _ _ xy(3,4)]) (use uv assms(6) in \<open>simp_all add: f_def\<close>)
  then have "user_name_id u = user_name_id v" using uv by (simp add: f_def)
  then have "u = v" using uv(1,3) assms(5) by (meson distinct_map inj_on_eq_iff)
  then show "x = y" using uv by simp
qed

text \<open>Another function with the contract, which reverses the order of equal elements.\<close>

definition reversing_sort :: "'a qsort_fun" where
  "reversing_sort cmp xs = rev (insertion_sort (\<lambda>x y. cmp y x) (rev xs))"

interpretation reversing: qsort_contract "reversing_sort :: 'a qsort_fun"
proof
  fix cmp :: "'a \<Rightarrow> 'a \<Rightarrow> int" and xs
  show "mset (reversing_sort cmp xs) = mset xs" by (simp add: reversing_sort_def insertion.qs_mset)
  assume "orders cmp (set xs)"
  then have "orders (\<lambda>x y. cmp y x) (set (rev xs))" unfolding orders_def set_rev by blast
  from insertion.qs_sorted[OF this] show "sorted_by cmp (reversing_sort cmp xs)"
    by (simp add: reversing_sort_def sorted_wrt_rev)
qed

theorem calculate_user_scores_deterministic_witness:
  "calculate_user_scores insertion_sort insertion_sort
     [\<lparr>user_name_id = ''b'', username = ''x'', score = 7\<rparr>, \<lparr>user_name_id = ''a'', username = ''y'', score = 0\<rparr>] [] True 50 =
   calculate_user_scores reversing_sort reversing_sort
     [\<lparr>user_name_id = ''b'', username = ''x'', score = 7\<rparr>, \<lparr>user_name_id = ''a'', username = ''y'', score = 0\<rparr>] [] True 50"
  by (rule calculate_user_scores_deterministic)
    (simp_all add: insertion.qsort_contract_axioms reversing.qsort_contract_axioms c_string_def)

end
