(* ===== verification/JsonPrint.thy ===== *)
theory JsonPrint
  imports JsonRequest Score
begin

text \<open>
  The printers \<open>src/src/app/json.c\<close>, \<open>json_answer.c\<close> and \<open>json_user.c\<close>.  Each computes the
  size of its buffer first and then prints into it; a size that is too small would be a write
  out of bounds and is \<open>None\<close>.  The value of \<open>*json\<close> is the pair of \<open>ptr\<close> (the bytes of the
  buffer with their terminator, \<open>None\<close> for \<open>NULL\<close>) and \<open>len\<close>.  Each text that \<open>snprintf\<close> prints is
  taken to be shorter than 2^31 bytes: the casts of the lengths of the slices to \<open>int\<close> then keep
  their values, and the result -1 of \<open>snprintf\<close> for longer texts does not occur.
\<close>

type_synonym json_str = "string option \<times> nat"

section \<open>One challenge\<close>

text \<open>\<open>-value\<close> overflows for \<open>INT_MIN\<close>.\<close>

definition int_string_length :: "int \<Rightarrow> nat option" where
  "int_string_length value =
     (if value = 0 then Some 1
      else if value = - int INT_MAX - 1 then None
      else if value < 0 then Some (count_digits (nat (- value)) 1)
      else Some (count_digits (nat value) 0))"

definition format_challenge :: "challenge \<Rightarrow> bool \<Rightarrow> string" where
  \<open>format_challenge c include_flag =
     ''{"id":'' @ show_int (ch_id c) @ '',"creator_id":"'' @ cstr (creator_id c) @
     ''","name":"'' @ cstr (ch_name c) @ ''","description":"'' @ cstr (description c) @
     (if include_flag then ''","flag":"'' @ cstr (flag c) else []) @
     ''","genre":"'' @ cstr (ctf_genre_to_string (genre c)) @ ''"}''\<close>

definition challenge_to_json_impl :: "bool \<Rightarrow> challenge \<Rightarrow> bool \<Rightarrow> bool \<Rightarrow> json_str option" where
  "challenge_to_json_impl alloc c only_size include_flag = do {
     id_len \<leftarrow> int_string_length (ch_id c);
     let buffer_size = 1 + (5 + id_len + 1) + (13 + length (creator_id c) + 3) + (7 + length (ch_name c) + 3) +
       (14 + length (description c) + 3) + (if include_flag then 7 + length (flag c) + 3 else 0) +
       (8 + length (ctf_genre_to_string (genre c)) + 4);
     if only_size then Some (None, buffer_size - 1)
     else if \<not> alloc then Some (None, 0)
     else Some (Some (take (buffer_size - 1) (format_challenge c include_flag) @ [CHR 0x00]), buffer_size - 1)
   }"

definition challenge_to_json :: "bool \<Rightarrow> challenge \<Rightarrow> bool \<Rightarrow> json_str option" where
  "challenge_to_json alloc c only_size = challenge_to_json_impl alloc c only_size True"

definition challenge_to_json_without_flag :: "bool \<Rightarrow> challenge \<Rightarrow> bool \<Rightarrow> json_str option" where
  "challenge_to_json_without_flag alloc c only_size = challenge_to_json_impl alloc c only_size False"

section \<open>All challenges\<close>

primrec challenges_size :: "bool \<Rightarrow> challenge list \<Rightarrow> nat \<Rightarrow> nat option" where
  "challenges_size include_flag [] acc = Some acc"
| "challenges_size include_flag (c # cs) acc = do {
     (ptr, n) \<leftarrow> challenge_to_json_impl True c True include_flag;
     challenges_size include_flag cs (acc + n + 1)
   }"

text \<open>
  The second loop.  \<open>alloc k\<close> tells whether the \<open>k\<close>-th allocation succeeds, the first being the
  array's buffer; \<open>Some None\<close> is the early return without memory.
\<close>

primrec challenges_loop ::
  "(nat \<Rightarrow> bool) \<Rightarrow> nat \<Rightarrow> bool \<Rightarrow> nat \<Rightarrow> nat \<Rightarrow> challenge list \<Rightarrow> string \<Rightarrow> string option option" where
  "challenges_loop alloc cap include_flag cnt i [] text = Some (Some text)"
| "challenges_loop alloc cap include_flag cnt i (c # cs) text = do {
     (ptr, n) \<leftarrow> challenge_to_json_impl (alloc (i + 1)) c False include_flag;
     (case ptr of
        None \<Rightarrow> Some None
      | Some t \<Rightarrow> do {
          text1 \<leftarrow> emit cap (cstr t) text;
          text2 \<leftarrow> (if i < cnt - 1 then put cap (CHR '','') text1 else Some text1);
          challenges_loop alloc cap include_flag cnt (i + 1) cs text2
        })
   }"

definition challenges_to_json_impl ::
  "(nat \<Rightarrow> bool) \<Rightarrow> challenge list option \<Rightarrow> bool \<Rightarrow> bool \<Rightarrow> json_str \<Rightarrow> json_str option" where
  "challenges_to_json_impl alloc challenges only_size include_flag json0 =
     (case challenges of
        None \<Rightarrow> Some json0
      | Some cs \<Rightarrow>
          if only_size then Some (None, 0)
          else do {
            n \<leftarrow> challenges_size include_flag cs 1;
            let total_size = n + 1;
            if \<not> alloc 0 then Some (None, 0)
            else do {
              text0 \<leftarrow> emit total_size ''['' [];
              r \<leftarrow> challenges_loop alloc total_size include_flag (length cs) 0 cs text0;
              (case r of
                 None \<Rightarrow> Some (None, 0)
               | Some text \<Rightarrow> do {
                   text1 \<leftarrow> put total_size (CHR '']'') text;
                   text2 \<leftarrow> put total_size (CHR 0x00) text1;
                   Some (Some text2, total_size - 1)
                 })
            }
          })"

definition challenges_to_json ::
  "(nat \<Rightarrow> bool) \<Rightarrow> challenge list option \<Rightarrow> bool \<Rightarrow> json_str \<Rightarrow> json_str option" where
  "challenges_to_json alloc challenges only_size json0 = challenges_to_json_impl alloc challenges only_size True json0"

definition challenges_to_json_without_flag ::
  "(nat \<Rightarrow> bool) \<Rightarrow> challenge list option \<Rightarrow> bool \<Rightarrow> json_str \<Rightarrow> json_str option" where
  "challenges_to_json_without_flag alloc challenges only_size json0 =
     challenges_to_json_impl alloc challenges only_size False json0"

section \<open>Answers\<close>

definition format_answer :: "answer \<Rightarrow> bool \<Rightarrow> string" where
  \<open>format_answer a public_view =
     (if public_view then
        ''{"challenge_id":'' @ show_int (ans_challenge_id a) @ '',"username":"'' @ cstr (ans_username a) @
        ''","answered_at":"'' @ cstr (created_at a) @ ''"}''
      else
        ''{"challenge_id":'' @ show_int (ans_challenge_id a) @ '',"answer":"'' @ cstr (ans_text a) @
        ''","correct":'' @ (if is_corrected a \<noteq> 0 then ''true'' else ''false'') @
        '',"username":"'' @ cstr (ans_username a) @ ''","answered_at":"'' @ cstr (created_at a) @ ''"}'')\<close>

text \<open>The result of \<open>snprintf\<close>: the length of the text, negative when it is no \<open>int\<close>.\<close>

definition printed_length :: "string \<Rightarrow> int" where
  "printed_length t = (if length t \<le> INT_MAX then int (length t) else -1)"

definition answer_to_json :: "bool \<Rightarrow> answer \<Rightarrow> json_str option" where
  "answer_to_json alloc a =
     (let len = printed_length (format_answer a False) in
      if len < 0 then Some (None, 0)
      else if \<not> alloc then Some (None, 0)
      else do {
        text \<leftarrow> emit (nat len + 1) (format_answer a False) [];
        Some (Some (text @ [CHR 0x00]), nat len)
      })"

primrec answers_size :: "bool \<Rightarrow> nat \<Rightarrow> answer list \<Rightarrow> nat \<Rightarrow> nat option" where
  "answers_size public_view i [] acc = Some acc"
| "answers_size public_view i (a # as) acc =
     (let len = printed_length (format_answer a public_view) in
      if len < 0 \<or> acc > SIZE_MAX - nat len - of_bool (i \<noteq> 0) then None
      else answers_size public_view (i + 1) as (acc + (nat len + of_bool (i \<noteq> 0))))"

primrec answers_loop :: "nat \<Rightarrow> bool \<Rightarrow> nat \<Rightarrow> answer list \<Rightarrow> string \<Rightarrow> string option" where
  "answers_loop cap public_view i [] text = Some text"
| "answers_loop cap public_view i (a # as) text = do {
     text1 \<leftarrow> (if i \<noteq> 0 then put cap (CHR '','') text else Some text);
     text2 \<leftarrow> emit cap (format_answer a public_view) text1;
     answers_loop cap public_view (i + 1) as text2
   }"

definition answers_to_json :: "bool \<Rightarrow> answer list \<Rightarrow> bool \<Rightarrow> json_str option" where
  "answers_to_json alloc answers public_view =
     (case answers_size public_view 0 answers 3 of
        None \<Rightarrow> Some (None, 0)
      | Some acc \<Rightarrow>
          if \<not> alloc then Some (None, 0)
          else do {
            text0 \<leftarrow> put acc (CHR ''['') [];
            text1 \<leftarrow> answers_loop acc public_view 0 answers text0;
            text2 \<leftarrow> put acc (CHR '']'') text1;
            text3 \<leftarrow> put acc (CHR 0x00) text2;
            Some (Some text3, length text2)
          })"

section \<open>Users\<close>

definition format_public_user :: "public_user \<Rightarrow> string" where
  \<open>format_public_user u =
     ''{"id":"'' @ cstr (user_name_id u) @ ''","username":"'' @ cstr (username u) @
     ''","score":'' @ show_int (score u) @ ''}''\<close>

primrec users_size :: "nat \<Rightarrow> public_user list \<Rightarrow> nat \<Rightarrow> nat option" where
  "users_size i [] acc = Some acc"
| "users_size i (u # us) acc =
     (let len = printed_length (format_public_user u) in
      if len < 0 \<or> nat len + of_bool (i > 0) > SIZE_MAX - acc then None
      else users_size (i + 1) us (acc + (nat len + of_bool (i > 0))))"

text \<open>\<open>Some None\<close> is the early return when a user does not fit.\<close>

primrec users_loop :: "nat \<Rightarrow> nat \<Rightarrow> public_user list \<Rightarrow> string \<Rightarrow> string option option" where
  "users_loop cap i [] text = Some (Some text)"
| "users_loop cap i (u # us) text = do {
     text1 \<leftarrow> (if i \<noteq> 0 then put cap (CHR '','') text else Some text);
     let len = printed_length (format_public_user u);
     if len < 0 \<or> nat len \<ge> cap - length text1 then Some None
     else do {
       text2 \<leftarrow> emit cap (format_public_user u) text1;
       users_loop cap (i + 1) us text2
     }
   }"

text \<open>The users are \<open>None\<close> when the pointer is \<open>NULL\<close>.\<close>

definition public_users_to_json :: "bool \<Rightarrow> public_user list option \<Rightarrow> nat \<Rightarrow> json_str option" where
  "public_users_to_json alloc users cnt =
     (if users = None \<and> cnt \<noteq> 0 then Some (None, 0)
      else
        let us = take cnt (case users of None \<Rightarrow> [] | Some us \<Rightarrow> us) in
        (case users_size 0 us 3 of
           None \<Rightarrow> Some (None, 0)
         | Some acc \<Rightarrow>
             if \<not> alloc then Some (None, 0)
             else do {
               text0 \<leftarrow> put acc (CHR ''['') [];
               r \<leftarrow> users_loop acc 0 us text0;
               (case r of
                  None \<Rightarrow> Some (None, 0)
                | Some text1 \<Rightarrow> do {
                    text2 \<leftarrow> put acc (CHR '']'') text1;
                    text3 \<leftarrow> put acc (CHR 0x00) text2;
                    Some (Some text3, length text2)
                  })
             }))"


section \<open>Specification: the printed texts as JSON\<close>

fun commas :: "string list \<Rightarrow> string" where
  "commas [] = []"
| "commas (x # xs) = x @ (if xs = [] then [] else CHR '','' # commas xs)"

definition array_text :: "string list \<Rightarrow> string" where
  "array_text xs = CHR ''['' # commas xs @ '']''"

fun members_text :: "(string \<times> string) list \<Rightarrow> string" where
  "members_text [] = []"
| "members_text ((k, v) # kvs) = quoted k @ CHR '':'' # v @ (if kvs = [] then [] else CHR '','' # members_text kvs)"

definition object_text :: "(string \<times> string) list \<Rightarrow> string" where
  "object_text kvs = CHR ''{'' # members_text kvs @ ''}''"

definition challenge_members :: "challenge \<Rightarrow> bool \<Rightarrow> (string \<times> string) list" where
  "challenge_members c include_flag =
     [(''id'', show_int (ch_id c)), (''creator_id'', quoted (creator_id c)), (''name'', quoted (ch_name c)),
      (''description'', quoted (description c))] @
     (if include_flag then [(''flag'', quoted (flag c))] else []) @
     [(''genre'', quoted (ctf_genre_to_string (genre c)))]"

definition answer_members :: "answer \<Rightarrow> bool \<Rightarrow> (string \<times> string) list" where
  "answer_members a public_view =
     (''challenge_id'', show_int (ans_challenge_id a)) #
     (if public_view then []
      else [(''answer'', quoted (ans_text a)), (''correct'', if is_corrected a \<noteq> 0 then ''true'' else ''false'')]) @
     [(''username'', quoted (ans_username a)), (''answered_at'', quoted (created_at a))]"

definition user_members :: "public_user \<Rightarrow> (string \<times> string) list" where
  "user_members u = [(''id'', quoted (user_name_id u)), (''username'', quoted (username u)), (''score'', show_int (score u))]"

lemma json_content_no_nul: "json_content t \<Longrightarrow> no_nul t"
proof (induction rule: json_content.induct)
  case (plain c t)
  then show ?case by (auto simp: byte_def)
next
  case (unicode q t)
  then show ?case by (auto simp: no_nul_def list_all_iff is_xdigit_def less_eq_char_def)
next
  case (utf8 v t)
  have e: "encode_codepoint v = map char_of (utf8_encode v)"
    using utf8(2) by (intro encode_codepoint_utf8) (simp add: scalar_value_def)
  have "\<forall>n \<in> set (utf8_encode v). 128 \<le> n \<and> n < 256"
    using utf8(1,2) by (auto simp: utf8_encode_def scalar_value_def)
  then have "\<forall>c \<in> set (encode_codepoint v). 128 \<le> byte c" unfolding e by (auto simp: byte_def)
  then have "no_nul (encode_codepoint v)" by (auto simp: no_nul_def byte_def)
  then show ?case using utf8 by simp
qed auto

lemma members_text_json:
  assumes "kvs \<noteq> []" "distinct (map fst kvs)" "\<forall>(k, v) \<in> set kvs. json_content k \<and> json_value d v"
  shows "json_members d kvs (members_text kvs)"
  using assms
proof (induction kvs)
  case (Cons x kvs)
  obtain k v where x: "x = (k, v)" by (cases x)
  show ?case
  proof (cases "kvs = []")
    case True
    then show ?thesis using Cons.prems(3) x member[of "[]" k "[]" "[]" d v "[]"] by (simp add: quoted_def)
  next
    case False
    then have "json_members d kvs (members_text kvs)" using Cons by simp
    then show ?thesis
      using Cons.prems(2,3) x False members[of "[]" k "[]" "[]" d v "[]" kvs "members_text kvs"]
      by (simp add: quoted_def)
  qed
qed simp

lemma object_text_json:
  "kvs \<noteq> [] \<Longrightarrow> distinct (map fst kvs) \<Longrightarrow> \<forall>(k, v) \<in> set kvs. json_content k \<and> json_value d v \<Longrightarrow>
   json_object d kvs (object_text kvs)"
  using members_text_json[of kvs d] by (auto simp: json_object_def object_text_def)

lemma commas_json: "xs \<noteq> [] \<Longrightarrow> \<forall>x \<in> set xs. json_value d x \<Longrightarrow> json_elements d (commas xs)"
proof (induction xs)
  case (Cons x xs)
  show ?case
  proof (cases "xs = []")
    case True
    then show ?thesis using Cons.prems element[of "[]" d x "[]"] by simp
  next
    case False
    then show ?thesis using Cons elements[of "[]" d x "[]" "commas xs"] by simp
  qed
qed simp

lemma array_text_json: "\<forall>x \<in> set xs. json_value d x \<Longrightarrow> json_value (Suc d) (array_text xs)"
  using arr0[of "[]" d] arr[OF commas_json, of xs d] by (cases "xs = []") (simp_all add: array_text_def)

lemma json_content_literals:
  "json_content ''id''" "json_content ''creator_id''" "json_content ''name''" "json_content ''description''"
  "json_content ''flag''" "json_content ''genre''" "json_content ''challenge_id''" "json_content ''answer''"
  "json_content ''correct''" "json_content ''username''" "json_content ''answered_at''" "json_content ''score''"
proof -
  have "list_all (\<lambda>t. parse_json_str (quoted t) = Some (t, [])) [''id'', ''creator_id'', ''name'', ''description'', ''flag'',
      ''genre'', ''challenge_id'', ''answer'', ''correct'', ''username'', ''answered_at'', ''score'']" by code_simp
  then show "json_content ''id''" "json_content ''creator_id''" "json_content ''name''" "json_content ''description''"
    "json_content ''flag''" "json_content ''genre''" "json_content ''challenge_id''" "json_content ''answer''"
    "json_content ''correct''" "json_content ''username''" "json_content ''answered_at''" "json_content ''score''"
    by (simp_all add: parse_json_str_iff)
qed

lemma json_content_genre: "json_content (ctf_genre_to_string g)"
proof -
  have "parse_json_str (quoted (ctf_genre_to_string g)) = Some (ctf_genre_to_string g, [])"
    by (cases g) (simp; code_simp)+
  then show ?thesis by (simp add: parse_json_str_iff)
qed

lemma json_value_quoted: "json_content t \<Longrightarrow> json_value (Suc d) (quoted t)"
  unfolding quoted_def by (rule str)

lemma json_number_show_int: "json_number (show_int v)"
proof -
  have z: "show_nat 0 = ''0''" by code_simp
  have "json_number ''0''" unfolding json_number_def by (intro exI[of _ "[]"] exI[of _ "''0''"]) simp
  moreover have "json_number (CHR ''-'' # show_nat n)" if "0 < n" for n
    using show_nat_digits[of n] hd_show_nat[OF that] unfolding json_number_def digits_def
    by (intro exI[of _ "''-''"] exI[of _ "show_nat n"] exI[of _ "[]"]) simp
  ultimately show ?thesis
    using z json_number_show_nat[of "nat v"] by (cases "v = 0"; cases "v < 0") (simp_all add: show_int_def)
qed

lemma json_value_show_int: "json_value (Suc d) (show_int v)"
  by (rule num) (rule json_number_show_int)

section \<open>The formats\<close>

definition json_challenge :: "challenge \<Rightarrow> bool" where
  "json_challenge c \<longleftrightarrow> ch_id c \<noteq> - int INT_MAX - 1 \<and> json_content (creator_id c) \<and> json_content (ch_name c) \<and>
     json_content (description c) \<and> json_content (flag c)"

lemma no_nul_genre: "no_nul (ctf_genre_to_string g)" by (cases g) (simp_all add: no_nul_def)

lemma format_challenge_text:
  assumes "json_challenge c"
  shows "format_challenge c f = object_text (challenge_members c f)"
  using assms json_content_no_nul no_nul_genre
  by (simp add: format_challenge_def object_text_def challenge_members_def quoted_def json_challenge_def)

lemma challenge_members_json:
  assumes "json_challenge c"
  shows "json_object 1 (challenge_members c f) (object_text (challenge_members c f))"
proof (rule object_text_json)
  show "\<forall>(k, v) \<in> set (challenge_members c f). json_content k \<and> json_value 1 v"
    using assms json_value_quoted[of _ 0] json_value_show_int[of 0] json_content_literals json_content_genre
    by (auto simp: challenge_members_def json_challenge_def)
qed (simp_all add: challenge_members_def)


lemma int_string_length_show:
  "v \<noteq> - int INT_MAX - 1 \<Longrightarrow> int_string_length v = Some (length (show_int v))"
  using count_digits_add[of "nat (- v)" 0 1] count_digits_show[of "nat v"] count_digits_show[of "nat (- v)"]
  by (auto simp: int_string_length_def show_int_def show_nat.simps[of 0] )

lemma challenge_impl_text:
  assumes "json_challenge c"
  shows "challenge_to_json_impl alloc c only_size f =
    Some (if only_size then (None, length (format_challenge c f))
          else if \<not> alloc then (None, 0)
          else (Some (format_challenge c f @ [CHR 0x00]), length (format_challenge c f)))"
proof -
  have id: "int_string_length (ch_id c) = Some (length (show_int (ch_id c)))"
    using assms int_string_length_show unfolding json_challenge_def by blast
  have len: "1 + (5 + length (show_int (ch_id c)) + 1) + (13 + length (creator_id c) + 3) + (7 + length (ch_name c) + 3) +
       (14 + length (description c) + 3) + (if f then 7 + length (flag c) + 3 else 0) +
       (8 + length (ctf_genre_to_string (genre c)) + 4) = length (format_challenge c f) + 1"
    unfolding format_challenge_text[OF assms] object_text_def challenge_members_def
    by (simp add: quoted_def)
  show ?thesis unfolding challenge_to_json_impl_def id Option.bind.bind_lunit Let_def len by simp
qed

lemma challenges_size_sum:
  "\<forall>c \<in> set cs. json_challenge c \<Longrightarrow>
    challenges_size f cs acc = Some (acc + (\<Sum>c \<leftarrow> cs. length (format_challenge c f) + 1))"
  by (induction cs arbitrary: acc) (simp_all add: challenge_impl_text)

lemma format_challenge_no_nul: "no_nul (format_challenge c f)"
  using no_nul_cstr by (simp add: format_challenge_def)

lemma challenges_loop_text:
  assumes "\<forall>c \<in> set cs. json_challenge c" "n_items = i + length cs"
    "length t0 + (\<Sum>c \<leftarrow> cs. length (format_challenge c f) + 1) < cap"
  shows "challenges_loop (\<lambda>_. True) cap f n_items i cs t0 =
    Some (Some (t0 @ commas (map (\<lambda>c. format_challenge c f) cs)))"
  using assms
proof (induction cs arbitrary: i t0)
  case (Cons c cs)
  have e: "emit cap (cstr (format_challenge c f @ [CHR 0x00])) t0 = Some (t0 @ format_challenge c f)"
  proof -
    have "cstr (format_challenge c f @ [CHR 0x00]) = format_challenge c f"
      using format_challenge_no_nul[of c f] by (auto simp: cstr_def no_nul_def takeWhile_append)
    then show ?thesis using Cons.prems(3) by (simp add: emit_def)
  qed
  have i: "(i < n_items - 1) = (cs \<noteq> [])" using Cons.prems(2) by (cases cs) auto
  show ?case
  proof (cases "cs = []")
    case True
    then show ?thesis using Cons.prems(1) e i by (simp add: challenge_impl_text)
  next
    case False
    let ?t = "(t0 @ format_challenge c f) @ [CHR '','']"
    have "challenges_loop (\<lambda>_. True) cap f n_items (i + 1) cs ?t =
        Some (Some (?t @ commas (map (\<lambda>c. format_challenge c f) cs)))"
      by (rule Cons.IH) (use Cons.prems in simp_all)
    moreover have "put cap (CHR '','') (t0 @ format_challenge c f) = Some ?t"
      using Cons.prems(3) False by (cases cs) (auto simp: put_def)
    ultimately show ?thesis using Cons.prems(1) e i False by (simp add: challenge_impl_text)
  qed
qed simp

lemma length_commas: "xs \<noteq> [] \<Longrightarrow> length (commas xs) + 1 = (\<Sum>x \<leftarrow> xs. length x + 1)"
  by (induction xs) auto

lemma challenges_impl_text:
  assumes "\<forall>c \<in> set cs. json_challenge c" "cs \<noteq> []"
  shows "challenges_to_json_impl (\<lambda>_. True) (Some cs) False f json0 =
    (let t = array_text (map (\<lambda>c. format_challenge c f) cs) in
     Some (Some (t @ [CHR 0x00]), length t))"
proof -
  let ?fs = "map (\<lambda>c. format_challenge c f) cs"
  define S where "S = (\<Sum>c \<leftarrow> cs. length (format_challenge c f) + 1)"
  have S: "length (commas ?fs) + 1 = S" using length_commas[of ?fs] assms(2) by (simp add: S_def comp_def)
  have size: "challenges_size f cs 1 = Some (S + 1)" using challenges_size_sum[OF assms(1), of f 1] by (simp add: S_def)
  have loop: "challenges_loop (\<lambda>_. True) (S + 1 + 1) f (length cs) 0 cs ''['' = Some (Some (''['' @ commas ?fs))"
    by (rule challenges_loop_text) (use assms in \<open>simp_all only: S_def[symmetric], simp_all\<close>)
  have p: "put (S + 1 + 1) (CHR '']'') (CHR ''['' # commas ?fs) = Some (array_text ?fs)"
    "put (S + 1 + 1) (CHR 0x00) (array_text ?fs) = Some (array_text ?fs @ [CHR 0x00])"
    using S by (simp_all add: put_def array_text_def)
  have e: "emit (S + 1 + 1) ''['' [] = Some ''[''" by (simp add: emit_def)
  have len: "S + 1 = length (array_text ?fs)" using S by (simp add: array_text_def)
  show ?thesis
    by (simp add: challenges_to_json_impl_def size loop p e len [symmetric] Let_def del: One_nat_def add_2_eq_Suc' add_Suc_right)
qed

text \<open>The smallest number has no negative.\<close>

lemma int_string_length_min: "int_string_length (- int INT_MAX - 1) = None"
  by (simp add: int_string_length_def)

text \<open>With no challenge the terminator is stored one byte behind the buffer.\<close>

lemma challenges_to_json_empty: "challenges_to_json_impl (\<lambda>_. True) (Some []) False f json0 = None"
  by (simp add: challenges_to_json_impl_def emit_def put_def)

text \<open>
  Whatever the bytes of the strings are, the printers stay in bounds as long as there is a
  challenge and no number is \<open>INT_MIN\<close>.
\<close>

definition printable_id :: "challenge \<Rightarrow> bool" where
  "printable_id c \<longleftrightarrow> ch_id c \<noteq> - int INT_MAX - 1"

definition challenge_room :: "bool \<Rightarrow> challenge \<Rightarrow> nat" where
  "challenge_room f c = snd (the (challenge_to_json_impl True c True f))"

lemma challenge_to_json_impl_bounded:
  assumes "printable_id c"
  shows "challenge_to_json_impl a c True f = Some (None, challenge_room f c)"
    and "challenge_to_json_impl a c False f = Some (None, 0) \<or>
      (\<exists>t. challenge_to_json_impl a c False f = Some (Some t, challenge_room f c) \<and> length (cstr t) \<le> challenge_room f c)"
proof -
  have "int_string_length (ch_id c) \<noteq> None" using assms by (simp add: printable_id_def int_string_length_def)
  then obtain k where k: "int_string_length (ch_id c) = Some k" by blast
  have len: "length (cstr (take n t @ [CHR 0x00])) \<le> n" for n t
  proof -
    have "cstr (take n t @ [CHR 0x00]) = cstr (take n t)" unfolding cstr_def by (rule takeWhile_tail) simp
    then show ?thesis using length_cstr[of "take n t"] by simp
  qed
  show "challenge_to_json_impl a c True f = Some (None, challenge_room f c)"
    by (simp add: challenge_room_def challenge_to_json_impl_def k Let_def)
  show "challenge_to_json_impl a c False f = Some (None, 0) \<or>
      (\<exists>t. challenge_to_json_impl a c False f = Some (Some t, challenge_room f c) \<and> length (cstr t) \<le> challenge_room f c)"
    unfolding challenge_room_def challenge_to_json_impl_def k Let_def bind.simps if_True if_False option.sel snd_conv
    using len by simp
qed

lemma challenge_to_json_defined: "printable_id c \<Longrightarrow> challenge_to_json_impl a c False f \<noteq> None"
  using challenge_to_json_impl_bounded(2)[of c a f] by fastforce

lemma challenges_size_room:
  assumes "\<forall>c \<in> set cs. printable_id c"
  shows "challenges_size f cs acc = Some (acc + (\<Sum>c \<leftarrow> cs. challenge_room f c + 1))"
  using assms by (induction cs arbitrary: acc) (simp_all add: challenge_to_json_impl_bounded)

lemma challenges_loop_bounded:
  assumes "\<forall>c \<in> set cs. printable_id c" "cs \<noteq> []" "n_items = i + length cs"
    "length t0 + (\<Sum>c \<leftarrow> cs. challenge_room f c + 1) + 1 \<le> cap"
  shows "\<exists>r. challenges_loop alloc cap f n_items i cs t0 = Some r \<and> (\<forall>t. r = Some t \<longrightarrow> length t + 2 \<le> cap)"
  using assms
proof (induction cs arbitrary: i t0)
  case (Cons c cs)
  show ?case
  proof (cases "challenge_to_json_impl (alloc (i + 1)) c False f = Some (None, 0)")
    case False
    then obtain t where t: "challenge_to_json_impl (alloc (i + 1)) c False f = Some (Some t, challenge_room f c)"
      "length (cstr t) \<le> challenge_room f c"
      using challenge_to_json_impl_bounded(2)[of c "alloc (i + 1)" f] Cons.prems(1) by auto
    have e: "emit cap (cstr t) t0 = Some (t0 @ cstr t)" using Cons.prems(4) t(2) by (simp add: emit_def)
    have last: "(i < n_items - 1) = (cs \<noteq> [])" using Cons.prems(3) by (cases cs) auto
    show ?thesis
    proof (cases "cs = []")
      case True
      then show ?thesis using Cons.prems(4) e last t by simp
    next
      case more: False
      let ?t = "(t0 @ cstr t) @ [CHR '','']"
      have "put cap (CHR '','') (t0 @ cstr t) = Some ?t" using Cons.prems(4) t(2) by (simp add: put_def)
      moreover have "\<exists>r. challenges_loop alloc cap f n_items (i + 1) cs ?t = Some r \<and> (\<forall>t. r = Some t \<longrightarrow> length t + 2 \<le> cap)"
        by (rule Cons.IH) (use Cons.prems more t(2) in simp_all)
      ultimately show ?thesis using e last t(1) more by simp
    qed
  qed simp
qed simp

lemma challenges_to_json_impl_defined:
  assumes "\<forall>c \<in> set cs. printable_id c" "cs \<noteq> []"
  shows "challenges_to_json_impl alloc (Some cs) False f json0 \<noteq> None"
proof -
  let ?S = "\<Sum>c \<leftarrow> cs. challenge_room f c + 1"
  have s: "challenges_size f cs 1 = Some (1 + ?S)" by (rule challenges_size_room[OF assms(1)])
  obtain r where r: "challenges_loop alloc (1 + ?S + 1) f (length cs) 0 cs ''['' = Some r"
    "\<forall>t. r = Some t \<longrightarrow> length t + 2 \<le> 1 + ?S + 1"
    using challenges_loop_bounded[OF assms, of "length cs" 0 "''[''" f "1 + ?S + 1" alloc] by force
  have e: "emit (1 + ?S + 1) ''['' [] = Some ''[''" by (simp add: emit_def)
  show ?thesis
  proof (cases r)
    case None
    then show ?thesis using r(1) s e by (simp add: challenges_to_json_impl_def Let_def)
  next
    case (Some t)
    then have "length t + 2 \<le> 1 + ?S + 1" using r(2) by blast
    then have p: "put (1 + ?S + 1) (CHR '']'') t = Some (t @ '']'')"
      "put (1 + ?S + 1) (CHR 0x00) (t @ '']'') = Some ((t @ '']'') @ [CHR 0x00])"
      by (simp_all add: put_def)
    show ?thesis using s e r(1) p Some by (simp add: challenges_to_json_impl_def Let_def)
  qed
qed

section \<open>Answers and users\<close>

text \<open>The commas before every text but the first.\<close>

definition more :: "nat \<Rightarrow> string list \<Rightarrow> string" where
  "more i xs = (if i = 0 then commas xs else concat (map (\<lambda>x. CHR '','' # x) xs))"

lemma commas_Cons: "commas (x # xs) = x @ concat (map (\<lambda>y. CHR '','' # y) xs)"
  by (induction xs arbitrary: x) auto

lemma more_Nil [simp]: "more i [] = []" by (simp add: more_def)

lemma more_Cons: "more i (x # xs) = (if i \<noteq> 0 then [CHR '','' ] else []) @ x @ more (Suc i) xs"
  by (cases xs) (simp_all add: more_def commas_Cons del: commas.simps(2))

lemma more_0: "more 0 xs = commas xs" by (simp add: more_def)

definition texts_fit :: "nat \<Rightarrow> string list \<Rightarrow> bool" where
  "texts_fit n xs \<longleftrightarrow> (\<forall>x \<in> set xs. length x \<le> INT_MAX) \<and> n \<le> SIZE_MAX"

lemma answers_size_text:
  assumes "acc \<le> SIZE_MAX"
  shows "answers_size v i as acc =
    (let xs = map (\<lambda>a. format_answer a v) as; n = acc + length (more i xs) in
     if texts_fit n xs then Some n else None)"
  using assms
proof (induction as arbitrary: i acc)
  case (Cons a as)
  let ?n = "length (format_answer a v) + of_bool (i \<noteq> 0)"
  have m: "length (more i (map (\<lambda>a. format_answer a v) (a # as))) = ?n + length (more (Suc i) (map (\<lambda>a. format_answer a v) as))"
    by (simp add: more_Cons)
  show ?case
  proof (cases "length (format_answer a v) \<le> INT_MAX \<and> acc + ?n \<le> SIZE_MAX")
    case True
    then have "\<not> (acc > SIZE_MAX - length (format_answer a v) - of_bool (i \<noteq> 0))" by linarith
    then have "answers_size v i (a # as) acc = answers_size v (Suc i) as (acc + ?n)"
      using True by (simp add: Let_def printed_length_def)
    also have "\<dots> = (let xs = map (\<lambda>a. format_answer a v) as; n = (acc + ?n) + length (more (Suc i) xs) in
        if texts_fit n xs then Some n else None)"
      using Cons.IH[of "acc + ?n" "Suc i"] True by simp
    finally show ?thesis unfolding Let_def m using True by (simp add: texts_fit_def add.assoc)
  next
    case False
    have "length (format_answer a v) \<le> INT_MAX \<Longrightarrow> SIZE_MAX - length (format_answer a v) - of_bool (i \<noteq> 0) < acc"
      using False by (auto simp: INT_MAX_def SIZE_MAX_def)
    then have "answers_size v i (a # as) acc = None" by (auto simp: Let_def printed_length_def)
    moreover have "\<not> texts_fit (acc + length (more i (map (\<lambda>a. format_answer a v) (a # as)))) (map (\<lambda>a. format_answer a v) (a # as))"
      unfolding m texts_fit_def using False by auto
    ultimately show ?thesis by (simp add: Let_def)
  qed
qed (simp add: texts_fit_def Let_def)

lemma answers_loop_text:
  "length t0 + length (more i (map (\<lambda>a. format_answer a v) as)) < cap \<Longrightarrow>
   answers_loop cap v i as t0 = Some (t0 @ more i (map (\<lambda>a. format_answer a v) as))"
proof (induction as arbitrary: i t0)
  case (Cons a as)
  let ?t = "t0 @ (if i \<noteq> 0 then [CHR '','' ] else []) @ format_answer a v"
  have l: "length ?t + length (more (Suc i) (map (\<lambda>a. format_answer a v) as)) < cap"
    using Cons.prems by (simp add: more_Cons)
  have "answers_loop cap v i (a # as) t0 = answers_loop cap v (Suc i) as ?t"
    using l by (cases "i = 0") (simp_all add: put_def emit_def)
  then show ?case using Cons.IH[OF l] by (simp add: more_Cons)
qed simp

lemma answers_to_json_text:
  "answers_to_json alloc as v =
    (let xs = map (\<lambda>a. format_answer a v) as; t = array_text xs in
     Some (if alloc \<and> texts_fit (length t + 1) xs then (Some (t @ [CHR 0x00]), length t) else (None, 0)))"
proof -
  let ?xs = "map (\<lambda>a. format_answer a v) as"
  have size: "answers_size v 0 as 3 = (if texts_fit (length (array_text ?xs) + 1) ?xs then Some (length (commas ?xs) + 3) else None)"
    using answers_size_text[of 3 v 0 as] by (simp add: SIZE_MAX_def more_0 array_text_def Let_def numeral_3_eq_3)
  have loop: "answers_loop (length (commas ?xs) + 3) v 0 as ''['' = Some (CHR ''['' # commas ?xs)"
    using answers_loop_text[of "''[''" 0 v as "length (commas ?xs) + 3"] by (simp add: more_0)
  show ?thesis
  proof (cases "alloc \<and> texts_fit (length (array_text ?xs) + 1) ?xs")
    case True
    then show ?thesis
      by (simp add: answers_to_json_def size loop put_def Let_def array_text_def)
  next
    case False
    then show ?thesis by (auto simp: answers_to_json_def size Let_def)
  qed
qed

lemma users_size_text:
  assumes "acc \<le> SIZE_MAX"
  shows "users_size i us acc =
    (let xs = map format_public_user us; n = acc + length (more i xs) in
     if texts_fit n xs then Some n else None)"
  using assms
proof (induction us arbitrary: i acc)
  case (Cons u us)
  let ?n = "length (format_public_user u) + of_bool (i > 0)"
  have m: "length (more i (map format_public_user (u # us))) = ?n + length (more (Suc i) (map format_public_user us))"
    by (simp add: more_Cons)
  show ?case
  proof (cases "length (format_public_user u) \<le> INT_MAX \<and> acc + ?n \<le> SIZE_MAX")
    case True
    then have "\<not> (?n > SIZE_MAX - acc)" by linarith
    then have "users_size i (u # us) acc = users_size (Suc i) us (acc + ?n)"
      using True by (simp add: Let_def printed_length_def)
    also have "\<dots> = (let xs = map format_public_user us; n = (acc + ?n) + length (more (Suc i) xs) in
        if texts_fit n xs then Some n else None)"
      using Cons.IH[of "acc + ?n" "Suc i"] True by simp
    finally show ?thesis unfolding Let_def m using True by (simp add: texts_fit_def add.assoc)
  next
    case False
    have "length (format_public_user u) \<le> INT_MAX \<Longrightarrow> SIZE_MAX - acc < ?n"
      using False Cons.prems by linarith
    then have "users_size i (u # us) acc = None" by (auto simp: Let_def printed_length_def)
    moreover have "\<not> texts_fit (acc + length (more i (map format_public_user (u # us)))) (map format_public_user (u # us))"
      unfolding m texts_fit_def using False by auto
    ultimately show ?thesis by (simp add: Let_def)
  qed
qed (simp add: texts_fit_def Let_def)

lemma users_loop_text:
  "length t0 + length (more i (map format_public_user us)) < cap \<Longrightarrow>
   \<forall>x \<in> set (map format_public_user us). length x \<le> INT_MAX \<Longrightarrow>
   users_loop cap i us t0 = Some (Some (t0 @ more i (map format_public_user us)))"
proof (induction us arbitrary: i t0)
  case (Cons u us)
  let ?t = "t0 @ (if i \<noteq> 0 then [CHR '','' ] else []) @ format_public_user u"
  have l: "length ?t + length (more (Suc i) (map format_public_user us)) < cap"
    using Cons.prems(1) by (simp add: more_Cons)
  have "users_loop cap i (u # us) t0 = users_loop cap (Suc i) us ?t"
    using l Cons.prems(2) by (cases "i = 0") (simp_all add: put_def emit_def printed_length_def Let_def le_diff_conv)
  then show ?case using Cons.IH[OF l] Cons.prems(2) by (simp add: more_Cons)
qed simp

text \<open>
  Printing the scoreboard: the users are printed completely, in order, with the exact length, or
  the result is \<open>NULL\<close>; no access leaves the buffer.
\<close>

lemma public_users_to_json_text:
  "public_users_to_json alloc (Some us) (length us) =
    (let xs = map format_public_user us; t = array_text xs in
     Some (if alloc \<and> texts_fit (length t + 1) xs then (Some (t @ [CHR 0x00]), length t) else (None, 0)))"
proof -
  let ?xs = "map format_public_user us"
  have size: "users_size 0 us 3 = (if texts_fit (length (array_text ?xs) + 1) ?xs then Some (length (commas ?xs) + 3) else None)"
    using users_size_text[of 3 0 us] by (simp add: SIZE_MAX_def more_0 array_text_def Let_def numeral_3_eq_3)
  show ?thesis
  proof (cases "alloc \<and> texts_fit (length (array_text ?xs) + 1) ?xs")
    case True
    then have "users_loop (length (commas ?xs) + 3) 0 us ''['' = Some (Some (CHR ''['' # commas ?xs))"
      using users_loop_text[of "''[''" 0 us "length (commas ?xs) + 3"] by (simp add: more_0 texts_fit_def)
    then show ?thesis using True
      by (simp add: public_users_to_json_def size put_def Let_def array_text_def)
  next
    case False
    then show ?thesis by (auto simp: public_users_to_json_def size Let_def put_def)
  qed
qed


section \<open>Properties\<close>

lemma challenge_impl_flag:
  "challenge_to_json_impl alloc (c\<lparr>flag := x\<rparr>) only_size False = challenge_to_json_impl alloc c only_size False"
proof -
  have e: "format_challenge (c\<lparr>flag := x\<rparr>) False = format_challenge c False" by (simp add: format_challenge_def)
  show ?thesis unfolding challenge_to_json_impl_def e by simp
qed

lemma challenges_size_flag:
  "challenges_size False (map (\<lambda>c. c\<lparr>flag := g c\<rparr>) cs) n = challenges_size False cs n"
  by (induction cs arbitrary: n) (simp_all add: challenge_impl_flag)

lemma challenges_loop_flag:
  "challenges_loop alloc cap False m i (map (\<lambda>c. c\<lparr>flag := g c\<rparr>) cs) t0 = challenges_loop alloc cap False m i cs t0"
  by (induction cs arbitrary: i t0) (simp_all add: challenge_impl_flag cong: option.case_cong)

lemma challenges_text_json:
  assumes "\<forall>c \<in> set cs. json_challenge c"
  shows "json_value 3 (array_text (map (\<lambda>c. format_challenge c f) cs))"
proof -
  have "json_value 2 (format_challenge c f)" if "json_challenge c" for c
    using json_object_value[OF challenge_members_json[OF that, of f]] format_challenge_text[OF that, of f]
    by (simp add: numeral_2_eq_2)
  then show ?thesis using array_text_json[of "map (\<lambda>c. format_challenge c f) cs" 2] assms
    by (simp add: numeral_3_eq_3)
qed

text \<open>
  C37.  Printing challenges: for one or more challenges whose strings are contents of JSON
  strings, the array is printed completely into a buffer of exactly its size, with and
  without the flags; it is a JSON array, and each element is the object with the members
  \<open>id\<close>, \<open>creator_id\<close>, \<open>name\<close>, \<open>description\<close>, \<open>flag\<close> (in the private view) and \<open>genre\<close>.
\<close>

theorem challenges_to_json_correct:
  assumes "\<forall>c \<in> set cs. json_challenge c" "cs \<noteq> []"
  shows "challenges_to_json (\<lambda>_. True) (Some cs) False json0 =
      (let t = array_text (map (\<lambda>c. object_text (challenge_members c True)) cs) in
       Some (Some (t @ [CHR 0x00]), length t)) \<and>
    challenges_to_json_without_flag (\<lambda>_. True) (Some cs) False json0 =
      (let t = array_text (map (\<lambda>c. object_text (challenge_members c False)) cs) in
       Some (Some (t @ [CHR 0x00]), length t)) \<and>
    (\<forall>f. json_value 3 (array_text (map (\<lambda>c. object_text (challenge_members c f)) cs))) \<and>
    (\<forall>c \<in> set cs. \<forall>f. json_object 1 (challenge_members c f) (object_text (challenge_members c f)))"
proof -
  have e: "map (\<lambda>c. format_challenge c f) cs = map (\<lambda>c. object_text (challenge_members c f)) cs" for f
    using assms(1) format_challenge_text by simp
  show ?thesis
    using challenges_impl_text[OF assms] challenges_text_json[OF assms(1)] challenge_members_json assms(1)
    unfolding challenges_to_json_def challenges_to_json_without_flag_def e by blast
qed

theorem challenges_to_json_correct_witness:
  "challenges_to_json_without_flag (\<lambda>_. True)
     (Some [\<lparr>ch_id = 7, creator_id = ''ab'', ch_name = ''n'', description = ''d'', flag = ''secret'', genre = CTF_GENRE_PWN\<rparr>])
     False (None, 0) =
   (let t = array_text [object_text (challenge_members
      \<lparr>ch_id = 7, creator_id = ''ab'', ch_name = ''n'', description = ''d'', flag = ''secret'', genre = CTF_GENRE_PWN\<rparr> False)] in
    Some (Some (t @ [CHR 0x00]), length t))"
proof -
  have "list_all (\<lambda>t. parse_json_str (quoted t) = Some (t, [])) [''ab'', ''n'', ''d'', ''secret'']" by code_simp
  then have "json_content ''ab''" "json_content ''n''" "json_content ''d''" "json_content ''secret''"
    by (simp_all add: parse_json_str_iff)
  then have "json_challenge \<lparr>ch_id = 7, creator_id = ''ab'', ch_name = ''n'', description = ''d'', flag = ''secret'', genre = CTF_GENRE_PWN\<rparr>"
    by (simp add: json_challenge_def)
  then show ?thesis
    using challenges_to_json_correct[of "[\<lparr>ch_id = 7, creator_id = ''ab'', ch_name = ''n'', description = ''d'',
      flag = ''secret'', genre = CTF_GENRE_PWN\<rparr>]" "(None, 0)"] by simp
qed

text \<open>
  C38.  Secrecy of the flags: what the public listing returns, in every case (an allocation
  that fails, an early return, any strings), does not depend on the flags of the challenges.
\<close>

theorem challenges_to_json_without_flag_secret:
  "challenges_to_json_without_flag alloc (Some (map (\<lambda>c. c\<lparr>flag := g c\<rparr>) cs)) only_size json0 =
   challenges_to_json_without_flag alloc (Some cs) only_size json0"
  unfolding challenges_to_json_without_flag_def challenges_to_json_impl_def option.case challenges_size_flag
    challenges_loop_flag length_map by (rule refl)

definition json_answer :: "answer \<Rightarrow> bool" where
  "json_answer a \<longleftrightarrow> json_content (ans_text a) \<and> json_content (ans_username a) \<and> json_content (created_at a)"

lemma format_answer_text: "json_answer a \<Longrightarrow> format_answer a v = object_text (answer_members a v)"
  using json_content_no_nul
  by (simp add: format_answer_def object_text_def answer_members_def quoted_def json_answer_def)

lemma json_value_literals: "json_value (Suc d) ''true''" "json_value (Suc d) ''false''"
  by (rule lit, simp)+

lemma answer_members_json:
  assumes "json_answer a"
  shows "json_object 1 (answer_members a v) (object_text (answer_members a v))"
proof (rule object_text_json)
  show "\<forall>(k, w) \<in> set (answer_members a v). json_content k \<and> json_value 1 w"
    using assms json_value_quoted[of _ 0] json_value_show_int[of 0] json_content_literals json_value_literals[of 0]
    by (auto simp: answer_members_def json_answer_def)
qed (simp_all add: answer_members_def)

text \<open>
  C39.  Printing answers: for every list of answers the routine stays in bounds; the array is
  printed completely, with its exact length, unless memory runs out or the text cannot be
  addressed, and then the result is \<open>NULL\<close>.  When the strings are contents of JSON strings
  it is a JSON array of objects, and the public view has no member \<open>answer\<close> or \<open>correct\<close>.
\<close>

theorem answers_to_json_correct:
  "answers_to_json alloc as v =
    (let xs = map (\<lambda>a. format_answer a v) as; t = array_text xs in
     Some (if alloc \<and> texts_fit (length t + 1) xs then (Some (t @ [CHR 0x00]), length t) else (None, 0))) \<and>
   (\<forall>a \<in> set as. json_answer a \<longrightarrow> format_answer a v = object_text (answer_members a v) \<and>
      json_object 1 (answer_members a v) (object_text (answer_members a v)) \<and>
      (v \<longrightarrow> map fst (answer_members a v) = [''challenge_id'', ''username'', ''answered_at'']))"
  using answers_to_json_text[of alloc as v] format_answer_text answer_members_json
  by (simp add: answer_members_def[of _ True])

theorem answers_to_json_correct_witness:
  "map fst (answer_members \<lparr>ans_id = 1, ans_challenge_id = 2, ans_user_id = ''u'', ans_username = ''bob'',
     ans_text = ''x'', is_corrected = 1, created_at = ''now''\<rparr> True) = [''challenge_id'', ''username'', ''answered_at'']"
proof -
  have "list_all (\<lambda>t. parse_json_str (quoted t) = Some (t, [])) [''bob'', ''x'', ''now'']" by code_simp
  then have "json_content ''bob''" "json_content ''x''" "json_content ''now''"
    by (simp_all add: parse_json_str_iff)
  then have "json_answer \<lparr>ans_id = 1, ans_challenge_id = 2, ans_user_id = ''u'', ans_username = ''bob'',
     ans_text = ''x'', is_corrected = 1, created_at = ''now''\<rparr>" by (simp add: json_answer_def)
  then show ?thesis
    using answers_to_json_correct[of True "[\<lparr>ans_id = 1, ans_challenge_id = 2, ans_user_id = ''u'', ans_username = ''bob'',
     ans_text = ''x'', is_corrected = 1, created_at = ''now''\<rparr>]" True] by simp
qed

end
