(* ===== verification/LinkQueue.thy ===== *)
theory LinkQueue
  imports Prelude
begin

text \<open>
  The singly linked queues of the program: the task queues of \<open>src/src/db.c\<close> and the
  pending and done queues of \<open>src/src/app/password_worker.c\<close>.  The nodes are heap objects;
  \<open>heap\<close> gives the \<open>next\<close> pointer of each.  Every operation runs under the mutex of its queue
  and is therefore one step.
\<close>

type_synonym addr = nat
type_synonym heap = "addr \<Rightarrow> addr option"

record link_queue =
  head :: "addr option"
  tail :: "addr option"

definition empty_queue :: link_queue where "empty_queue = \<lparr>head = None, tail = None\<rparr>"

section \<open>The operations\<close>

definition task_queue_push :: "addr \<Rightarrow> heap \<times> link_queue \<Rightarrow> heap \<times> link_queue" where
  "task_queue_push t = (\<lambda>(nx, q).
     let nx = nx(t := None) in
     case tail q of
       Some u \<Rightarrow> (nx(u := Some t), q\<lparr>tail := Some t\<rparr>)
     | None \<Rightarrow> (nx, q\<lparr>head := Some t, tail := Some t\<rparr>))"

text \<open>
  \<open>task_queue_pop\<close> with a task in the queue; on an empty queue it waits, or returns \<open>NULL\<close>
  when the queue has been stopped (\<open>None\<close>).
\<close>

definition task_queue_pop :: "heap \<times> link_queue \<Rightarrow> addr option \<times> (heap \<times> link_queue)" where
  "task_queue_pop = (\<lambda>(nx, q).
     case head q of
       None \<Rightarrow> (None, (nx, q))
     | Some t \<Rightarrow>
         let q = q\<lparr>head := nx t\<rparr> in
         (Some t, (nx, if head q = None then q\<lparr>tail := None\<rparr> else q)))"

text \<open>The queue part of \<open>db_pool_get_latest_completed_task\<close>.\<close>

definition pop_completed :: "heap \<times> link_queue \<Rightarrow> addr option \<times> (heap \<times> link_queue)" where
  "pop_completed = (\<lambda>(nx, q).
     case head q of
       None \<Rightarrow> (None, (nx, q))
     | Some t \<Rightarrow>
         let q = q\<lparr>head := nx t\<rparr>;
             q = (if head q = None then q\<lparr>tail := None\<rparr> else q) in
         (Some t, (nx(t := None), q)))"

text \<open>The enqueueing of \<open>password_worker_submit\<close>; the new job is zeroed, \<open>next\<close> included.\<close>

definition append_pending :: "addr \<Rightarrow> heap \<times> link_queue \<Rightarrow> heap \<times> link_queue" where
  "append_pending t = (\<lambda>(nx, q).
     let nx = nx(t := None);
         (nx, q) = (case tail q of Some u \<Rightarrow> (nx(u := Some t), q) | None \<Rightarrow> (nx, q\<lparr>head := Some t\<rparr>)) in
     (nx, q\<lparr>tail := Some t\<rparr>))"

definition append_done :: "addr \<Rightarrow> heap \<times> link_queue \<Rightarrow> heap \<times> link_queue" where
  "append_done t = (\<lambda>(nx, q).
     let nx = nx(t := None);
         (nx, q) = (case tail q of Some u \<Rightarrow> (nx(u := Some t), q) | None \<Rightarrow> (nx, q\<lparr>head := Some t\<rparr>)) in
     (nx, q\<lparr>tail := Some t\<rparr>))"

text \<open>The queue part of \<open>password_worker_pop\<close>.\<close>

definition pop_done :: "heap \<times> link_queue \<Rightarrow> addr option \<times> (heap \<times> link_queue)" where
  "pop_done = (\<lambda>(nx, q).
     case head q of
       None \<Rightarrow> (None, (nx, q))
     | Some t \<Rightarrow>
         let q = q\<lparr>head := nx t\<rparr>; nx = nx(t := None) in
         (Some t, (nx, if head q = None then q\<lparr>tail := None\<rparr> else q)))"

section \<open>What a queue stands for\<close>

primrec linked :: "heap \<Rightarrow> addr option \<Rightarrow> addr list \<Rightarrow> bool" where
  "linked nx p [] \<longleftrightarrow> p = None"
| "linked nx p (x # xs) \<longleftrightarrow> p = Some x \<and> linked nx (nx x) xs"

definition queue :: "heap \<times> link_queue \<Rightarrow> addr list \<Rightarrow> bool" where
  "queue = (\<lambda>(nx, q) xs. linked nx (head q) xs \<and> distinct xs \<and>
     tail q = (if xs = [] then None else Some (last xs)))"

lemma queue_pair: "queue (nx, q) xs \<longleftrightarrow> linked nx (head q) xs \<and> distinct xs \<and>
     tail q = (if xs = [] then None else Some (last xs))"
  by (simp add: queue_def)

lemma linked_frame: "\<forall>x \<in> set xs. nx' x = nx x \<Longrightarrow> linked nx' p xs = linked nx p xs"
  by (induction xs arbitrary: p) auto

lemma linked_snoc:
  assumes "linked nx p xs" "distinct xs" "xs \<noteq> []" "t \<notin> set xs"
  shows "linked (nx(t := None, last xs := Some t)) p (xs @ [t])"
  using assms
proof (induction xs arbitrary: p)
  case (Cons x xs)
  show ?case
  proof (cases "xs = []")
    case False
    then have "x \<noteq> last xs" "x \<noteq> t" using Cons.prems by auto
    then show ?thesis using Cons False by (simp add: fun_upd_twist)
  qed (use Cons.prems in simp)
qed simp

lemma queue_unique:
  assumes "queue s xs" "queue s ys"
  shows "xs = ys"
proof -
  have "linked nx p xs \<Longrightarrow> linked nx p ys \<Longrightarrow> xs = ys" for nx p xs ys
    by (induction xs arbitrary: p ys; case_tac ys) auto
  then show ?thesis using assms by (cases s) (auto simp: queue_def)
qed

section \<open>The contract of a first-in first-out queue\<close>

text \<open>
  \<open>push\<close> appends a node that is not in the queue and touches only it and the last node;
  \<open>pop\<close> takes the first node out and touches no other.  A heap is shared by several queues,
  so that the frame is part of the contract.
\<close>

datatype queue_op = Push addr | Pop

primrec pushed :: "queue_op list \<Rightarrow> addr list" where
  "pushed [] = []"
| "pushed (o1 # os) = (case o1 of Push t \<Rightarrow> t # pushed os | Pop \<Rightarrow> pushed os)"

locale fifo =
  fixes push :: "addr \<Rightarrow> heap \<times> link_queue \<Rightarrow> heap \<times> link_queue"
    and pop :: "heap \<times> link_queue \<Rightarrow> addr option \<times> (heap \<times> link_queue)"
  assumes push_queue: "queue s xs \<Longrightarrow> t \<notin> set xs \<Longrightarrow> queue (push t s) (xs @ [t])"
    and push_frame: "queue s xs \<Longrightarrow> a \<noteq> t \<Longrightarrow> a \<notin> set xs \<Longrightarrow> fst (push t s) a = fst s a"
    and pop_empty: "queue s [] \<Longrightarrow> pop s = (None, s)"
    and pop_queue: "queue s (x # xs) \<Longrightarrow> fst (pop s) = Some x \<and> queue (snd (pop s)) xs"
    and pop_frame: "queue s (x # xs) \<Longrightarrow> a \<noteq> x \<Longrightarrow> fst (snd (pop s)) a = fst s a"
begin

text \<open>A run of operations: what was popped, and the queue after it.\<close>

primrec run :: "queue_op list \<Rightarrow> heap \<times> link_queue \<Rightarrow> addr list \<times> (heap \<times> link_queue)" where
  "run [] s = ([], s)"
| "run (o1 # os) s =
     (case o1 of
        Push t \<Rightarrow> run os (push t s)
      | Pop \<Rightarrow> (case pop s of
           (None, s') \<Rightarrow> run os s'
         | (Some t, s') \<Rightarrow> (let (ts, s'') = run os s' in (t # ts, s''))))"

text \<open>A second queue in the same heap is not disturbed.\<close>

lemma push_other:
  assumes "queue s xs" "queue (fst s, r) ys" "set xs \<inter> set ys = {}" "t \<notin> set ys"
  shows "queue (fst (push t s), r) ys"
proof -
  have "\<forall>y \<in> set ys. fst (push t s) y = fst s y"
  proof (rule ballI)
    fix y assume y: "y \<in> set ys"
    have n: "y \<noteq> t" "y \<notin> set xs" using y assms(3,4) by auto
    show "fst (push t s) y = fst s y" by (rule push_frame[OF assms(1) n])
  qed
  from linked_frame[OF this] show ?thesis using assms(2) unfolding queue_pair by simp
qed

lemma pop_other:
  assumes "queue s (x # xs)" "queue (fst s, r) ys" "x \<notin> set ys"
  shows "queue (fst (snd (pop s)), r) ys"
proof -
  have "\<forall>y \<in> set ys. fst (snd (pop s)) y = fst s y"
  proof (rule ballI)
    fix y assume y: "y \<in> set ys"
    have n: "y \<noteq> x" using y assms(3) by auto
    show "fst (snd (pop s)) y = fst s y" by (rule pop_frame[OF assms(1) n])
  qed
  from linked_frame[OF this] show ?thesis using assms(2) unfolding queue_pair by simp
qed

lemma run_fifo:
  assumes "queue s xs" "distinct (xs @ pushed os)"
  shows "\<exists>ys. queue (snd (run os s)) ys \<and> fst (run os s) @ ys = xs @ pushed os"
  using assms
proof (induction os arbitrary: s xs)
  case (Cons o1 os)
  show ?case
  proof (cases o1)
    case (Push t)
    then have "queue (push t s) (xs @ [t])" using push_queue Cons.prems by simp
    then show ?thesis using Cons.IH[of "push t s" "xs @ [t]"] Cons.prems Push by simp
  next
    case Pop
    show ?thesis
    proof (cases xs)
      case Nil
      then show ?thesis using Cons.IH[of s "[]"] Cons.prems Pop pop_empty[of s] by simp
    next
      case (Cons x zs)
      obtain s' where p: "pop s = (Some x, s')" "queue s' zs"
        using pop_queue[of s x zs] Cons.prems(1) local.Cons by (cases "pop s") auto
      then show ?thesis using Cons.IH[of s' zs] Cons.prems(2) local.Cons Pop
        by (auto simp: split_def Let_def)
    qed
  qed
qed simp

end

section \<open>The queues of the program keep it\<close>

lemma push_eq: "append_pending = task_queue_push" "append_done = task_queue_push"
  by (auto simp: append_pending_def append_done_def task_queue_push_def fun_eq_iff Let_def split: option.splits)

lemma push_queue_step:
  assumes "queue s xs" "t \<notin> set xs"
  shows "queue (task_queue_push t s) (xs @ [t])"
proof (cases "xs = []")
  case True
  then show ?thesis using assms by (cases s) (auto simp: queue_def task_queue_push_def)
next
  case False
  then show ?thesis using assms linked_snoc[of "fst s" "head (snd s)" xs t]
    by (cases s) (auto simp: queue_def task_queue_push_def)
qed

lemma pop_queue_step:
  assumes "queue s (x # xs)"
  shows "fst (task_queue_pop s) = Some x \<and> queue (snd (task_queue_pop s)) xs"
  using assms by (cases s; cases xs) (auto simp: queue_def task_queue_pop_def Let_def)

lemma pop_clear_step:
  assumes "queue s (x # xs)" "\<And>nx q. s = (nx, q) \<Longrightarrow>
    p s = (Some x, (nx(x := None), if nx x = None then q\<lparr>head := nx x, tail := None\<rparr> else q\<lparr>head := nx x\<rparr>))"
  shows "fst (p s) = Some x \<and> queue (snd (p s)) xs"
proof -
  obtain nx q where s: "s = (nx, q)" by (cases s)
  have q: "head q = Some x" "linked nx (nx x) xs" "x \<notin> set xs" "distinct xs" "tail q = Some (last (x # xs))"
    using assms(1) by (simp_all add: s queue_def)
  have l: "linked (nx(x := None)) (nx x) xs" using q(2,3) linked_frame[of xs "nx(x := None)" nx] by auto
  show ?thesis using assms(2)[OF s] q l by (cases xs) (auto simp: queue_def)
qed

lemma pop_completed_eq:
  "pop_completed (nx, q) = (case head q of None \<Rightarrow> (None, (nx, q))
     | Some x \<Rightarrow> (Some x, (nx(x := None), if nx x = None then q\<lparr>head := nx x, tail := None\<rparr> else q\<lparr>head := nx x\<rparr>)))"
  by (auto simp: pop_completed_def Let_def split: option.splits)

lemma pop_done_eq: "pop_done = pop_completed"
  by (auto simp: pop_done_def pop_completed_def fun_eq_iff Let_def split: option.splits)

lemma pop_completed_step:
  assumes "queue s (x # xs)"
  shows "fst (pop_completed s) = Some x \<and> queue (snd (pop_completed s)) xs"
  by (rule pop_clear_step[OF assms]) (use assms in \<open>auto simp: pop_completed_eq queue_def\<close>)

interpretation task_queue: fifo task_queue_push task_queue_pop
  by unfold_locales
    (auto simp: push_queue_step pop_queue_step, auto simp: task_queue_push_def task_queue_pop_def queue_def Let_def
      split: option.splits if_splits)

interpretation done_queue: fifo task_queue_push pop_completed
  by unfold_locales
    (auto simp: push_queue_step pop_completed_step, auto simp: task_queue_push_def pop_completed_def queue_def Let_def
      split: option.splits if_splits)

interpretation pending_jobs: fifo append_pending task_queue_pop
  unfolding push_eq by (rule task_queue.fifo_axioms)

interpretation done_jobs: fifo append_done pop_done
  unfolding push_eq pop_done_eq by (rule done_queue.fifo_axioms)

end
