(* ===== verification/Db.thy ===== *)
theory Db
  imports LinkQueue Printing "HOL-Library.Multiset"
begin

text \<open>
  \<open>src/src/db.c\<close>: the pool that executes queries on a worker thread.  A task is one heap block:
  its fields, the parameters, and behind them the bytes of the string parameters, which
  \<open>strings\<close> holds; a string of a task is an offset into them.  The answers of the MySQL client
  library to the calls for one task are the record \<open>mysql\<close>.  The pool exists and has both its
  queues; the descriptors through which it wakes the server are not modelled.
\<close>

section \<open>Data\<close>

definition DEFAULT_QUERY_SIZE :: nat where "DEFAULT_QUERY_SIZE = 256"
definition ULONG_MAX :: nat where "ULONG_MAX = 2 ^ 64 - 1"

text \<open>\<open>sizeof(db_task_t)\<close> and \<open>sizeof(db_param_t)\<close> on a 64-bit target.\<close>

definition DB_TASK_SIZE :: nat where "DB_TASK_SIZE = 304"
definition DB_PARAM_SIZE :: nat where "DB_PARAM_SIZE = 24"

text \<open>
  A parameter with the pointer of a string as a \<open>'p\<close>: the readable bytes or \<open>NULL\<close> for the
  caller's, an offset for the task's.  \<open>DB_PARAM_OTHER\<close>: a type that is none of the three.
\<close>

datatype 'p db_param = DB_PARAM_STRING 'p nat | DB_PARAM_INT64 int | DB_PARAM_NULL | DB_PARAM_OTHER

text \<open>
  A result set: \<open>mysql_num_fields\<close>, \<open>mysql_num_rows\<close> and the rows that \<open>mysql_fetch_row\<close> still
  returns, each with its fields (\<open>NULL\<close> or the bytes whose number is in \<open>mysql_fetch_lengths\<close>).
\<close>

type_synonym mysql_row = "string option list"

record mysql_res =
  num_fields :: nat
  num_rows :: nat
  res_rows :: "mysql_row list"

record db_result =
  success :: bool
  res_set :: "mysql_res option"
  affected :: nat
  insert_id :: nat
  err_msg :: string
  err_msg_len :: nat

record db_task =
  task_query :: string
  query_len :: nat
  is_param_query :: bool
  param_count :: nat
  task_params :: "nat db_param list"
  strings :: string
  task_data :: nat
  task_result :: db_result

record db_pool =
  tasks :: "addr \<Rightarrow> db_task"
  task_next :: heap
  task_q :: link_queue
  done_queue :: link_queue
  db_stop :: bool
  working :: "addr option"

definition zero_result :: db_result where
  "zero_result = \<lparr>success = False, res_set = None, affected = 0, insert_id = 0,
     err_msg = replicate 256 (CHR 0x00), err_msg_len = 0\<rparr>"

section \<open>Submitting a query\<close>

definition wr_bytes :: "string \<Rightarrow> nat \<Rightarrow> string \<Rightarrow> string option" where
  "wr_bytes b p s = (if p + length s \<le> length b then Some (take p b @ s @ drop (p + length s) b) else None)"

text \<open>The block of zeroed bytes for the query with the first bytes of the text.\<close>

definition query_block :: "string \<Rightarrow> string option" where
  "query_block t = wr_bytes (replicate DEFAULT_QUERY_SIZE (CHR 0x00)) 0 t"

definition enqueue :: "addr \<Rightarrow> db_task \<Rightarrow> db_pool \<Rightarrow> db_pool" where
  "enqueue t task pool =
     (let (nx, q) = task_queue_push t (task_next pool, task_q pool) in
      pool\<lparr>tasks := (tasks pool)(t := task), task_next := nx, task_q := q\<rparr>)"

text \<open>
  \<open>mem\<close>: the address of the new task, or \<open>None\<close> when the task or its result cannot be
  allocated.
\<close>

definition db_pool_exec_query ::
  "string option \<Rightarrow> nat \<Rightarrow> nat \<Rightarrow> addr option \<Rightarrow> db_pool \<Rightarrow> (int \<times> db_pool) option" where
  "db_pool_exec_query q len data mem pool =
     (case q of
        None \<Rightarrow> Some (-1, pool)
      | Some q \<Rightarrow>
          if len = 0 \<or> len \<ge> DEFAULT_QUERY_SIZE then Some (-1, pool)
          else do {
            t \<leftarrow> rd_bytes q 0 len;
            if memchr t (CHR 0x00) \<noteq> None \<or> db_stop pool then Some (-1, pool)
            else (case mem of
                    None \<Rightarrow> Some (-1, pool)
                  | Some a \<Rightarrow> do {
                      block \<leftarrow> query_block t;
                      Some (0, enqueue a \<lparr>task_query = block, query_len = len, is_param_query = False, param_count = 0,
                        task_params = [], strings = [], task_data = data, task_result = zero_result\<rparr> pool) })
          })"

text \<open>The size of the block, computed in \<open>size_t\<close>, or \<open>None\<close> for the early returns.\<close>

fun params_size :: "string option db_param list \<Rightarrow> nat \<Rightarrow> nat option" where
  "params_size [] n = Some n"
| "params_size (p # ps) n =
     (case p of
        DB_PARAM_STRING ptr len \<Rightarrow>
          if (ptr = None \<and> len \<noteq> 0) \<or> len > ULONG_MAX \<or> len \<ge> SIZE_MAX - n then None
          else params_size ps ((n + (len + 1)) mod 2 ^ 64)
      | DB_PARAM_INT64 _ \<Rightarrow> params_size ps n
      | DB_PARAM_NULL \<Rightarrow> params_size ps n
      | DB_PARAM_OTHER \<Rightarrow> None)"

text \<open>The loop that copies the parameters; \<open>b\<close> are the bytes behind the parameters, \<open>pos\<close> is \<open>strings\<close>.\<close>

fun copy_params :: "string option db_param list \<Rightarrow> nat \<Rightarrow> string \<Rightarrow> (nat db_param list \<times> string) option" where
  "copy_params [] pos b = Some ([], b)"
| "copy_params (p # ps) pos b =
     (case p of
        DB_PARAM_STRING ptr len \<Rightarrow> do {
          b \<leftarrow> (if len = 0 then Some b else do { s \<leftarrow> ptr; src \<leftarrow> rd_bytes s 0 len; wr_bytes b pos src });
          b \<leftarrow> wr b (pos + len) (CHR 0x00);
          (qs, b) \<leftarrow> copy_params ps (pos + (len + 1)) b;
          Some (DB_PARAM_STRING pos len # qs, b) }
      | DB_PARAM_INT64 i \<Rightarrow> do { (qs, b) \<leftarrow> copy_params ps pos b; Some (DB_PARAM_INT64 i # qs, b) }
      | DB_PARAM_NULL \<Rightarrow> do { (qs, b) \<leftarrow> copy_params ps pos b; Some (DB_PARAM_NULL # qs, b) }
      | DB_PARAM_OTHER \<Rightarrow> do { (qs, b) \<leftarrow> copy_params ps pos b; Some (DB_PARAM_OTHER # qs, b) })"

definition db_exec_query_param ::
  "string option \<Rightarrow> nat \<Rightarrow> string option db_param list option \<Rightarrow> nat \<Rightarrow> nat \<Rightarrow> addr option \<Rightarrow> db_pool
    \<Rightarrow> (int \<times> db_pool) option" where
  "db_exec_query_param q len ps k data mem pool =
     (if db_stop pool then Some (-1, pool)
      else case q of
        None \<Rightarrow> Some (-1, pool)
      | Some q \<Rightarrow>
          if len = 0 \<or> len \<ge> DEFAULT_QUERY_SIZE then Some (-1, pool)
          else do {
            t \<leftarrow> rd_bytes q 0 len;
            if memchr t (CHR 0x00) \<noteq> None \<or> (k \<noteq> 0 \<and> ps = None) then Some (-1, pool)
            else if k > (SIZE_MAX - DB_TASK_SIZE) div DB_PARAM_SIZE then Some (-1, pool)
            else do {
              ps \<leftarrow> (if k = 0 then Some [] else Option.bind ps (\<lambda>ps. rd_bytes ps 0 k));
              let base = (DB_TASK_SIZE + k * DB_PARAM_SIZE mod 2 ^ 64) mod 2 ^ 64;
              case params_size ps base of
                None \<Rightarrow> Some (-1, pool)
              | Some n \<Rightarrow>
                  (case mem of
                     None \<Rightarrow> Some (-1, pool)
                   | Some a \<Rightarrow> do {
                       block \<leftarrow> query_block t;
                       (qs, b) \<leftarrow> copy_params ps 0 (replicate (n - base) (CHR 0x00));
                       Some (0, enqueue a \<lparr>task_query = block, query_len = len, is_param_query = True, param_count = k,
                         task_params = qs, strings = b, task_data = data, task_result = zero_result\<rparr> pool) })
            }
          })"

section \<open>Executing a task\<close>

text \<open>What a statement is executed with; \<open>BIND_UNSET\<close> is a binding that stays zeroed.\<close>

datatype binding = BIND_STRING string | BIND_LONGLONG int | BIND_NULL | BIND_UNSET

text \<open>
  \<open>stmt_prepare\<close>: an error message, or the numbers of result fields and of parameters.
  \<open>stmt_bind\<close>: an error message or \<open>None\<close>.  \<open>stmt_execute\<close>: an error message, or the numbers of
  affected rows and of the inserted row.  \<open>run_query\<close>: an error message, or the stored result;
  \<open>affected_rows\<close> belongs to it.  The other two: the allocations succeed.
\<close>

record mysql =
  stmt_init :: bool
  stmt_prepare :: "string \<Rightarrow> string + nat \<times> nat"
  bindings_mem :: bool
  stmt_bind :: "binding list \<Rightarrow> string option"
  stmt_execute :: "string \<Rightarrow> binding list \<Rightarrow> string + nat \<times> nat"
  run_query :: "string \<Rightarrow> string + mysql_res option"
  affected_rows :: "string \<Rightarrow> nat"

definition message_block :: "string \<Rightarrow> string" where
  "message_block s = take 255 s @ replicate (256 - min 255 (length s)) (CHR 0x00)"

definition set_param_query_error :: "string \<Rightarrow> db_result \<Rightarrow> db_result" where
  "set_param_query_error message r =
     (let b = message_block (cstr message) in r\<lparr>err_msg := b, err_msg_len := length (cstr b)\<rparr>)"

fun binding_of :: "string \<Rightarrow> nat db_param \<Rightarrow> binding option" where
  "binding_of b (DB_PARAM_STRING pos len) = map_option BIND_STRING (rd_bytes b pos len)"
| "binding_of b (DB_PARAM_INT64 i) = Some (BIND_LONGLONG i)"
| "binding_of b DB_PARAM_NULL = Some BIND_NULL"
| "binding_of b DB_PARAM_OTHER = Some BIND_UNSET"

fun bind_params :: "string \<Rightarrow> nat db_param list \<Rightarrow> binding list option" where
  "bind_params b [] = Some []"
| "bind_params b (p # ps) = do { x \<leftarrow> binding_of b p; xs \<leftarrow> bind_params b ps; Some (x # xs) }"

definition execute_param_query :: "mysql \<Rightarrow> db_task \<Rightarrow> db_result option" where
  "execute_param_query M task =
     (let r = task_result task in
      if \<not> stmt_init M then Some (set_param_query_error ''cannot allocate statement'' r)
      else do {
        t \<leftarrow> rd_bytes (task_query task) 0 (query_len task);
        case stmt_prepare M t of
          Inl e \<Rightarrow> Some (set_param_query_error e r)
        | Inr (nf, n) \<Rightarrow>
            if nf \<noteq> 0 then Some (set_param_query_error ''queries returning rows are not supported'' r)
            else if n \<noteq> param_count task then Some (set_param_query_error ''parameter count mismatch'' r)
            else if param_count task \<noteq> 0 \<and> \<not> bindings_mem M then
              Some (set_param_query_error ''cannot allocate parameter bindings'' r)
            else do {
              ps \<leftarrow> rd_bytes (task_params task) 0 (param_count task);
              bs \<leftarrow> bind_params (strings task) ps;
              case (if param_count task \<noteq> 0 then stmt_bind M bs else None) of
                Some e \<Rightarrow> Some (set_param_query_error e r)
              | None \<Rightarrow>
                  (case stmt_execute M t bs of
                     Inl e \<Rightarrow> Some (set_param_query_error e r)
                   | Inr (rows, row_id) \<Rightarrow> Some (r\<lparr>success := True, affected := rows, insert_id := row_id\<rparr>))
            }
      })"

text \<open>A C string in a block; one without its NUL would be read beyond the block.\<close>

definition block_cstr :: "string \<Rightarrow> string option" where
  "block_cstr b = (if CHR 0x00 \<in> set b then Some (cstr b) else None)"

text \<open>
  The execution of a task in \<open>db_worker_thread\<close>; \<open>conn\<close>: the connection to the database was
  established.
\<close>

definition run_task :: "mysql \<Rightarrow> bool \<Rightarrow> db_task \<Rightarrow> db_task option" where
  "run_task M conn task =
     (if \<not> conn then Some (task\<lparr>task_result := set_param_query_error ''database connection unavailable'' (task_result task)\<rparr>)
      else if is_param_query task then
        map_option (\<lambda>r. task\<lparr>task_result := r\<rparr>) (execute_param_query M task)
      else do {
        t \<leftarrow> block_cstr (task_query task);
        let r = (case run_query M t of
                   Inr rs \<Rightarrow> (task_result task)\<lparr>res_set := rs, success := True\<rparr>
                 | Inl e \<Rightarrow> let s = ''error: '' @ cstr e in
                     (task_result task)\<lparr>err_msg := message_block s, err_msg_len := length s, success := False\<rparr>);
        Some (task\<lparr>task_result := r\<lparr>affected := affected_rows M t\<rparr>\<rparr>)
      })"

text \<open>
  One round of the thread: it takes a task, executes it without the mutex, and pushes it to the
  finished ones.
\<close>

definition take_task :: "db_pool \<Rightarrow> db_pool" where
  "take_task pool =
     (case task_queue_pop (task_next pool, task_q pool) of
        (None, s) \<Rightarrow> pool
      | (Some t, (nx, q)) \<Rightarrow> pool\<lparr>task_next := nx, task_q := q, working := Some t\<rparr>)"

definition finish_task :: "mysql \<Rightarrow> bool \<Rightarrow> db_pool \<Rightarrow> db_pool option" where
  "finish_task M conn pool =
     (case working pool of
        None \<Rightarrow> Some pool
      | Some t \<Rightarrow> do {
          task \<leftarrow> run_task M conn (tasks pool t);
          let (nx, q) = task_queue_push t (task_next pool, done_queue pool);
          Some (pool\<lparr>tasks := (tasks pool)(t := task), task_next := nx, done_queue := q, working := None\<rparr>) })"

definition db_pool_get_latest_completed_task :: "db_pool \<Rightarrow> addr option \<times> db_pool" where
  "db_pool_get_latest_completed_task pool =
     (case pop_completed (task_next pool, done_queue pool) of
        (t, (nx, q)) \<Rightarrow> (t, pool\<lparr>task_next := nx, done_queue := q\<rparr>))"

text \<open>
  \<open>db_pool_stop\<close> with the one thread of the program: the thread that it joins executes what is
  queued and ends when it finds the queue empty.
\<close>

partial_function (option) finish_queue :: "mysql \<Rightarrow> bool \<Rightarrow> db_pool \<Rightarrow> db_pool option" where
  "finish_queue M conn pool =
     Option.bind (finish_task M conn pool) (\<lambda>pool.
       let pool = take_task pool in
       if working pool = None then Some pool else finish_queue M conn pool)"

definition db_pool_stop :: "mysql \<Rightarrow> bool \<Rightarrow> db_pool \<Rightarrow> db_pool option" where
  "db_pool_stop M conn pool = finish_queue M conn (pool\<lparr>db_stop := True\<rparr>)"

section \<open>The pool\<close>

text \<open>\<open>strtol\<close> in base 10 on a C string, and the conversion of its value to \<open>int\<close>.\<close>

definition is_space :: "char \<Rightarrow> bool" where
  "is_space c \<longleftrightarrow> c = CHR '' '' \<or> (CHR 0x09 \<le> c \<and> c \<le> CHR 0x0D)"

definition digits_value :: "string \<Rightarrow> int" where
  "digits_value s = foldl (\<lambda>v c. v * 10 + int (digit_val c)) 0 s"

definition strtol :: "string \<Rightarrow> int" where
  "strtol s =
     (let s = dropWhile is_space (cstr s);
          neg = (s \<noteq> [] \<and> hd s = CHR ''-'');
          s = (if s \<noteq> [] \<and> (hd s = CHR ''-'' \<or> hd s = CHR ''+'') then tl s else s);
          v = digits_value (takeWhile is_digit s) in
      if neg then max (- (2 ^ 63)) (- v) else min (2 ^ 63 - 1) v)"

definition to_int :: "int \<Rightarrow> int" where
  "to_int v = (v + 2 ^ 31) mod 2 ^ 32 - 2 ^ 31"

record db_option =
  db_host :: string
  db_port :: int
  db_user :: string
  db_pass :: string
  db_name :: string

definition db_option_from_env :: "(string \<Rightarrow> string option) \<Rightarrow> db_option option" where
  "db_option_from_env env = do {
     h \<leftarrow> env ''MARIADB_HOST'';
     u \<leftarrow> env ''MARIADB_USER'';
     p \<leftarrow> env ''MARIADB_PASS'';
     d \<leftarrow> env ''MARIADB_DB'';
     portstr \<leftarrow> env ''MARIADB_PORT'';
     Some \<lparr>db_host = h, db_port = to_int (strtol portstr), db_user = u, db_pass = p, db_name = d\<rparr>
   }"

text \<open>
  \<open>db_pool_new\<close>; \<open>resources\<close>: every allocation, descriptor and thread it asks for is available.
\<close>

definition new_pool :: db_pool where
  "new_pool = \<lparr>tasks = (\<lambda>_. undefined), task_next = (\<lambda>_. None), task_q = empty_queue, done_queue = empty_queue,
     db_stop = False, working = None\<rparr>"

definition db_pool_new :: "bool \<Rightarrow> int \<Rightarrow> db_pool option" where
  "db_pool_new resources num_threads =
     (if num_threads \<le> 0 then None else if \<not> resources then None else Some new_pool)"

section \<open>Parameters reach the statement unchanged\<close>

fun string_bytes :: "'p db_param list \<Rightarrow> nat" where
  "string_bytes [] = 0"
| "string_bytes (p # ps) = (case p of DB_PARAM_STRING _ len \<Rightarrow> len + 1 | _ \<Rightarrow> 0) + string_bytes ps"

text \<open>What the caller passes as the value of a parameter, and that the bytes are there.\<close>

fun param_value :: "string option db_param \<Rightarrow> binding" where
  "param_value (DB_PARAM_STRING ptr len) = BIND_STRING (take len (case ptr of None \<Rightarrow> [] | Some s \<Rightarrow> s))"
| "param_value (DB_PARAM_INT64 i) = BIND_LONGLONG i"
| "param_value DB_PARAM_NULL = BIND_NULL"
| "param_value DB_PARAM_OTHER = BIND_UNSET"

fun readable :: "string option db_param \<Rightarrow> bool" where
  "readable (DB_PARAM_STRING (Some s) len) \<longleftrightarrow> len \<le> length s"
| "readable _ \<longleftrightarrow> True"

fun acceptable :: "string option db_param \<Rightarrow> bool" where
  "acceptable (DB_PARAM_STRING None len) \<longleftrightarrow> len = 0"
| "acceptable DB_PARAM_OTHER \<longleftrightarrow> False"
| "acceptable _ \<longleftrightarrow> True"

lemma params_size_Some:
  assumes "params_size ps n = Some m" "n \<le> SIZE_MAX"
  shows "m = n + string_bytes ps \<and> m \<le> SIZE_MAX \<and> list_all acceptable ps"
  using assms
proof (induction ps arbitrary: n)
  case (Cons p ps)
  show ?case
  proof (cases p)
    case (DB_PARAM_STRING ptr len)
    then have l: "\<not> (ptr = None \<and> len \<noteq> 0)" "len < SIZE_MAX - n" using Cons.prems by (auto split: if_splits)
    then have le: "n + (len + 1) \<le> SIZE_MAX" by simp
    then have "(n + (len + 1)) mod 2 ^ 64 = n + (len + 1)" by (simp add: SIZE_MAX_def)
    then have "params_size ps (n + (len + 1)) = Some m" using Cons.prems(1) DB_PARAM_STRING by (auto split: if_splits)
    from Cons.IH[OF this le] show ?thesis using l(1) DB_PARAM_STRING by (cases ptr) auto
  qed (use Cons in auto)
qed simp

lemma params_size_iff:
  assumes "n + string_bytes ps \<le> SIZE_MAX" "list_all acceptable ps"
  shows "params_size ps n = Some (n + string_bytes ps)"
  using assms
proof (induction ps arbitrary: n)
  case (Cons p ps)
  show ?case
  proof (cases p)
    case (DB_PARAM_STRING ptr len)
    have l: "n + (len + 1) + string_bytes ps \<le> SIZE_MAX" using Cons.prems(1) DB_PARAM_STRING by simp
    then have m: "(n + (len + 1)) mod 2 ^ 64 = n + (len + 1)" by (simp add: SIZE_MAX_def)
    have "params_size (p # ps) n = params_size ps (n + (len + 1))"
      using l m Cons.prems(2) DB_PARAM_STRING by (cases ptr) (auto simp: SIZE_MAX_def ULONG_MAX_def)
    then show ?thesis using Cons.IH[OF l] Cons.prems(2) DB_PARAM_STRING by simp
  qed (use Cons in auto)
qed simp

lemma wr_bytes_Some:
  assumes "p + length s \<le> length b"
  shows "wr_bytes b p s = Some (take p b @ s @ drop (p + length s) b)"
  using assms by (simp add: wr_bytes_def)

lemma store_string:
  assumes "pos + (len + 1) \<le> length b" "length s = len"
  obtains b' where "wr (take pos b @ s @ drop (pos + len) b) (pos + len) c = Some b'"
    "length b' = length b" "take pos b' = take pos b" "take len (drop pos b') = s"
    "drop (pos + (len + 1)) b' = drop (pos + (len + 1)) b"
proof -
  let ?b = "(take pos b @ s @ drop (pos + len) b)[pos + len := c]"
  have l: "length (take pos b @ s @ drop (pos + len) b) = length b" using assms by simp
  have w: "wr (take pos b @ s @ drop (pos + len) b) (pos + len) c = Some ?b"
    by (rule wr_Some) (use assms in simp)
  have t: "take (pos + len) ?b = take pos b @ s" using assms by (simp add: take_list_update_ge)
  have p: "take pos ?b = take pos b"
    using arg_cong[OF t, of "take pos"] assms by (simp add: min_def)
  have m: "take len (drop pos ?b) = s"
    using arg_cong[OF t, of "drop pos"] assms by (simp add: take_drop add.commute)
  have d: "drop (pos + (len + 1)) ?b = drop (pos + (len + 1)) b"
    using assms by (simp add: drop_update_cancel add.commute)
  show ?thesis by (rule that[OF w _ p m d]) (use l in simp)
qed

lemma copy_string_first:
  assumes "readable (DB_PARAM_STRING ptr len)" "acceptable (DB_PARAM_STRING ptr len)" "pos + (len + 1) \<le> length b"
  obtains b1 b2 where
    "(if len = 0 then Some b else do { s \<leftarrow> ptr; src \<leftarrow> rd_bytes s 0 len; wr_bytes b pos src }) = Some b1"
    "wr b1 (pos + len) (CHR 0x00) = Some b2" "length b2 = length b" "take pos b2 = take pos b"
    "BIND_STRING (take len (drop pos b2)) = param_value (DB_PARAM_STRING ptr len)"
proof (cases "len = 0")
  case True
  show ?thesis
    by (rule that[of b "b[pos := CHR 0x00]"]) (use assms True in \<open>simp_all add: wr_Some take_list_update_ge\<close>)
next
  case False
  then obtain s where p: "ptr = Some s" "len \<le> length s" using assms by (cases ptr) auto
  let ?b1 = "take pos b @ take len s @ drop (pos + len) b"
  have w: "wr_bytes b pos (take len s) = Some ?b1"
    using wr_bytes_Some[of pos "take len s" b] assms(3) p(2) by simp
  obtain b2 where b2: "wr ?b1 (pos + len) (CHR 0x00) = Some b2" "length b2 = length b" "take pos b2 = take pos b"
    "take len (drop pos b2) = take len s"
    using store_string[OF assms(3), of "take len s"] p(2) by auto
  have f: "(if len = 0 then Some b else do { s \<leftarrow> ptr; src \<leftarrow> rd_bytes s 0 len; wr_bytes b pos src }) = Some ?b1"
    using False p w by (simp add: rd_bytes_def)
  show ?thesis by (rule that[OF f b2(1-3)]) (simp add: b2(4) p(1))
qed

lemma copy_params_Some:
  assumes "list_all readable ps" "list_all acceptable ps" "pos + string_bytes ps \<le> length b"
  shows "\<exists>qs b'. copy_params ps pos b = Some (qs, b') \<and> length b' = length b \<and> take pos b' = take pos b \<and>
    length qs = length ps \<and> bind_params b' qs = Some (map param_value ps)"
  using assms
proof (induction ps arbitrary: pos b)
  case (Cons p ps)
  show ?case
  proof (cases p)
    case (DB_PARAM_STRING ptr len)
    have a: "readable (DB_PARAM_STRING ptr len)" "acceptable (DB_PARAM_STRING ptr len)" "pos + (len + 1) \<le> length b"
      using Cons.prems DB_PARAM_STRING by auto
    obtain b1 b2 where c:
      "(if len = 0 then Some b else do { s \<leftarrow> ptr; src \<leftarrow> rd_bytes s 0 len; wr_bytes b pos src }) = Some b1"
      "wr b1 (pos + len) (CHR 0x00) = Some b2" "length b2 = length b" "take pos b2 = take pos b"
      "BIND_STRING (take len (drop pos b2)) = param_value (DB_PARAM_STRING ptr len)"
      by (rule copy_string_first[OF a])
    have "pos + (len + 1) + string_bytes ps \<le> length b2" using Cons.prems(3) c(3) DB_PARAM_STRING by simp
    then obtain qs b' where i: "copy_params ps (pos + (len + 1)) b2 = Some (qs, b')" "length b' = length b2"
      "take (pos + (len + 1)) b' = take (pos + (len + 1)) b2" "length qs = length ps"
      "bind_params b' qs = Some (map param_value ps)"
      using Cons.IH[of "pos + (len + 1)" b2] Cons.prems by auto
    have t: "take pos b' = take pos b"
      using arg_cong[OF i(3), of "take pos"] c(4) by (simp add: min_def)
    have "take (pos + len) b' = take (pos + len) b2"
      using arg_cong[OF i(3), of "take (pos + len)"] by (simp add: min_def)
    then have d: "take len (drop pos b') = take len (drop pos b2)"
      by (simp add: take_drop add.commute)
    have l: "pos + len \<le> length b'" using a(3) i(2) c(3) by simp
    have b: "binding_of b' (DB_PARAM_STRING pos len) = Some (param_value p)"
      using l d c(5) DB_PARAM_STRING by (simp add: rd_bytes_def)
    have "copy_params (p # ps) pos b = Some (DB_PARAM_STRING pos len # qs, b')"
      using c(1,2) i(1) DB_PARAM_STRING by simp
    moreover have "bind_params b' (DB_PARAM_STRING pos len # qs) = Some (map param_value (p # ps))"
      unfolding bind_params.simps b i(5) by simp
    ultimately show ?thesis using t i(2,4) c(3) by (intro exI[of _ "DB_PARAM_STRING pos len # qs"] exI[of _ b']) simp
  next
    case (DB_PARAM_INT64 i)
    obtain qs b' where "copy_params ps pos b = Some (qs, b')" "length b' = length b" "take pos b' = take pos b"
      "length qs = length ps" "bind_params b' qs = Some (map param_value ps)"
      using Cons.IH[of pos b] Cons.prems DB_PARAM_INT64 by auto
    then show ?thesis using DB_PARAM_INT64 by simp
  next
    case DB_PARAM_NULL
    obtain qs b' where "copy_params ps pos b = Some (qs, b')" "length b' = length b" "take pos b' = take pos b"
      "length qs = length ps" "bind_params b' qs = Some (map param_value ps)"
      using Cons.IH[of pos b] Cons.prems DB_PARAM_NULL by auto
    then show ?thesis using DB_PARAM_NULL by simp
  qed (use Cons.prems in simp)
qed simp

lemma query_block_Some:
  assumes "length t < DEFAULT_QUERY_SIZE"
  shows "query_block t = Some (t @ replicate (DEFAULT_QUERY_SIZE - length t) (CHR 0x00))"
  using assms by (simp add: query_block_def wr_bytes_def)

text \<open>
  What the statement of a parametrised query does: it is executed with this text and these
  values, or an error is reported.
\<close>

definition execute_spec :: "mysql \<Rightarrow> string \<Rightarrow> binding list \<Rightarrow> db_result" where
  "execute_spec M t vs =
     (let fail = (\<lambda>e. set_param_query_error e zero_result) in
      if \<not> stmt_init M then fail ''cannot allocate statement''
      else case stmt_prepare M t of
        Inl e \<Rightarrow> fail e
      | Inr (nf, n) \<Rightarrow>
          if nf \<noteq> 0 then fail ''queries returning rows are not supported''
          else if n \<noteq> length vs then fail ''parameter count mismatch''
          else if vs \<noteq> [] \<and> \<not> bindings_mem M then fail ''cannot allocate parameter bindings''
          else case (if vs = [] then None else stmt_bind M vs) of
            Some e \<Rightarrow> fail e
          | None \<Rightarrow> (case stmt_execute M t vs of
              Inl e \<Rightarrow> fail e
            | Inr (rows, row_id) \<Rightarrow> zero_result\<lparr>success := True, affected := rows, insert_id := row_id\<rparr>))"

lemma execute_param_query_spec:
  assumes "task_result task = zero_result" "rd_bytes (task_query task) 0 (query_len task) = Some t"
    and "length (task_params task) = param_count task" "bind_params (strings task) (task_params task) = Some vs"
    and "length vs = param_count task"
  shows "execute_param_query M task = Some (execute_spec M t vs)"
proof -
  have e: "param_count task = length vs" using assms(5) by simp
  have r: "rd_bytes (task_params task) 0 (length vs) = Some (task_params task)"
    using assms(3) e by (simp add: rd_bytes_def)
  show ?thesis
    unfolding execute_param_query_def execute_spec_def Let_def assms(1,2) e r bind.bind_lunit assms(4)
    by (auto split: sum.splits option.splits prod.splits)
qed

text \<open>The submissions that are accepted: the text, the parameters and the size of the task are in bounds.\<close>

definition query_acceptable :: "string option \<Rightarrow> nat \<Rightarrow> bool" where
  "query_acceptable q len \<longleftrightarrow> q \<noteq> None \<and> 0 < len \<and> len < DEFAULT_QUERY_SIZE \<and> CHR 0x00 \<notin> set (take len (the q))"

definition submission_acceptable ::
  "string option \<Rightarrow> nat \<Rightarrow> string option db_param list option \<Rightarrow> nat \<Rightarrow> bool" where
  "submission_acceptable q len ps k \<longleftrightarrow>
     query_acceptable q len \<and> (k \<noteq> 0 \<longrightarrow> ps \<noteq> None \<and> list_all acceptable (take k (the ps)) \<and>
       DB_TASK_SIZE + k * DB_PARAM_SIZE + string_bytes (take k (the ps)) \<le> SIZE_MAX)"

text \<open>The caller's pointers are valid for the lengths that come with them.\<close>

definition arguments_readable ::
  "string option \<Rightarrow> nat \<Rightarrow> string option db_param list option \<Rightarrow> nat \<Rightarrow> bool" where
  "arguments_readable q len ps k \<longleftrightarrow>
     (\<forall>s. q = Some s \<longrightarrow> len \<le> length s) \<and> (\<forall>xs. ps = Some xs \<longrightarrow> k \<le> length xs \<and> list_all readable (take k xs))"

definition passed_params :: "string option db_param list option \<Rightarrow> nat \<Rightarrow> string option db_param list" where
  "passed_params ps k = (case ps of None \<Rightarrow> [] | Some xs \<Rightarrow> take k xs)"

text \<open>A task that can be executed without leaving its block.\<close>

definition task_ok :: "db_task \<Rightarrow> bool" where
  "task_ok task \<longleftrightarrow> query_len task < DEFAULT_QUERY_SIZE \<and> length (task_query task) = DEFAULT_QUERY_SIZE \<and>
     CHR 0x00 \<in> set (task_query task) \<and> length (task_params task) = param_count task \<and>
     bind_params (strings task) (task_params task) \<noteq> None"

lemma enqueue_task: "tasks (enqueue a task pool) a = task"
  by (simp add: enqueue_def split_def Let_def)

lemma exec_query_param_cases:
  assumes r: "arguments_readable q len ps k"
  obtains "db_exec_query_param q len ps k data mem pool = Some (-1, pool)"
    "db_stop pool \<or> mem = None \<or> \<not> submission_acceptable q len ps k"
  | a task where "db_exec_query_param q len ps k data mem pool = Some (0, enqueue a task pool)"
    "mem = Some a" "\<not> db_stop pool" "submission_acceptable q len ps k" "task_ok task" "is_param_query task"
    "task_data task = data" "\<And>M. execute_param_query M task =
       Some (execute_spec M (take len (the q)) (map param_value (passed_params ps k)))"
proof (cases "db_stop pool \<or> \<not> query_acceptable q len \<or> (k \<noteq> 0 \<and> ps = None)")
  case True
  have "db_exec_query_param q len ps k data mem pool = Some (-1, pool)"
    using True r unfolding db_exec_query_param_def query_acceptable_def arguments_readable_def
    by (auto simp: rd_bytes_def memchr_None split: option.splits)
  then show ?thesis using True that(1) unfolding submission_acceptable_def by blast
next
  case False
  obtain s where q: "q = Some s" "len \<le> length s" "len \<noteq> 0" "len < DEFAULT_QUERY_SIZE" "CHR 0x00 \<notin> set (take len s)"
    using False r by (auto simp: query_acceptable_def arguments_readable_def)
  have qa: "query_acceptable q len" using False by blast
  let ?ps = "passed_params ps k"
  have ps: "(if k = 0 then Some [] else Option.bind ps (\<lambda>ps. rd_bytes ps 0 k)) = Some ?ps" "length ?ps = k"
    "list_all readable ?ps" "k \<noteq> 0 \<longrightarrow> ?ps = take k (the ps)"
    using False r by (auto simp: arguments_readable_def passed_params_def rd_bytes_def split: option.splits)
  let ?base = "DB_TASK_SIZE + k * DB_PARAM_SIZE"
  have e: "db_exec_query_param q len ps k data mem pool =
     (if k > (SIZE_MAX - DB_TASK_SIZE) div DB_PARAM_SIZE then Some (-1, pool)
      else let base = (DB_TASK_SIZE + k * DB_PARAM_SIZE mod 2 ^ 64) mod 2 ^ 64 in
        case params_size ?ps base of
          None \<Rightarrow> Some (-1, pool)
        | Some n \<Rightarrow>
            (case mem of
               None \<Rightarrow> Some (-1, pool)
             | Some a \<Rightarrow> do {
                 block \<leftarrow> query_block (take len s);
                 (qs, b) \<leftarrow> copy_params ?ps 0 (replicate (n - base) (CHR 0x00));
                 Some (0, enqueue a \<lparr>task_query = block, query_len = len, is_param_query = True, param_count = k,
                   task_params = qs, strings = b, task_data = data, task_result = zero_result\<rparr> pool) }))"
  proof -
    have t: "rd_bytes s 0 len = Some (take len s)" "memchr (take len s) (CHR 0x00) = None"
      using q(2,5) by (simp_all add: rd_bytes_def memchr_None)
    have n: "\<not> db_stop pool" "\<not> (len = 0 \<or> len \<ge> DEFAULT_QUERY_SIZE)" 
      "\<not> (memchr (take len s) (CHR 0x00) \<noteq> None \<or> (k \<noteq> 0 \<and> ps = None))"
      using False q(3,4) t(2) by auto
    show ?thesis
      unfolding db_exec_query_param_def q(1) option.case t(1) bind.bind_lunit ps(1)
        if_not_P[OF n(1)] if_not_P[OF n(2)] if_not_P[OF n(3)] by (rule refl)
  qed
  show ?thesis
  proof (cases "?base + string_bytes ?ps \<le> SIZE_MAX \<and> list_all acceptable ?ps")
    case True
    have le: "k * DB_PARAM_SIZE \<le> SIZE_MAX - DB_TASK_SIZE" "DB_TASK_SIZE \<le> SIZE_MAX" using True by auto
    then have k: "\<not> k > (SIZE_MAX - DB_TASK_SIZE) div DB_PARAM_SIZE"
      by (simp add: DB_PARAM_SIZE_def less_eq_div_iff_mult_less_eq not_less)
    have b: "(DB_TASK_SIZE + k * DB_PARAM_SIZE mod 2 ^ 64) mod 2 ^ 64 = ?base"
      using le by (simp add: SIZE_MAX_def mod_add_right_eq)
    have z: "params_size ?ps ?base = Some (?base + string_bytes ?ps)"
      using params_size_iff[of ?base ?ps] True by simp
    have acc: "submission_acceptable q len ps k"
      using qa False ps(4) True by (auto simp: submission_acceptable_def)
    obtain qs b' where c: "copy_params ?ps 0 (replicate (string_bytes ?ps) (CHR 0x00)) = Some (qs, b')"
      "length qs = k" "bind_params b' qs = Some (map param_value ?ps)"
      using copy_params_Some[of ?ps 0 "replicate (string_bytes ?ps) (CHR 0x00)"] ps True by auto
    show ?thesis
    proof (cases mem)
      case None
      have "db_exec_query_param q len ps k data mem pool = Some (-1, pool)"
        unfolding e b Let_def if_not_P[OF k] z using None by simp
      then show ?thesis using that(1) None by blast
    next
      case (Some a)
      have lt: "length (take len s) = len" using q(2) by simp
      let ?block = "take len s @ replicate (DEFAULT_QUERY_SIZE - len) (CHR 0x00)"
      let ?task = "\<lparr>task_query = ?block, query_len = len, is_param_query = True, param_count = k,
                   task_params = qs, strings = b', task_data = data, task_result = zero_result\<rparr>"
      have bl: "query_block (take len s) = Some ?block"
        using query_block_Some[of "take len s"] lt q(4) by simp
      have d: "db_exec_query_param q len ps k data mem pool = Some (0, enqueue a ?task pool)"
        unfolding e b Let_def if_not_P[OF k] z bl bind.bind_lunit
        using Some by (simp add: c(1))
      have ok: "task_ok ?task" using c q lt by (simp add: task_ok_def)
      have x: "execute_param_query M ?task = Some (execute_spec M (take len (the q)) (map param_value ?ps))" for M
        by (rule execute_param_query_spec) (use c q lt ps(2) in \<open>simp_all add: rd_bytes_def\<close>)
      show ?thesis using that(2)[OF d Some _ acc ok _ _ x] False by simp
    qed
  next
    case False2: False
    have "\<not> submission_acceptable q len ps k"
    proof
      assume "submission_acceptable q len ps k"
      then have "k \<noteq> 0 \<longrightarrow> ?base + string_bytes ?ps \<le> SIZE_MAX \<and> list_all acceptable ?ps"
        using ps(4) by (auto simp: submission_acceptable_def)
      moreover have "k = 0 \<longrightarrow> ?ps = []" by (simp add: passed_params_def split: option.splits)
      ultimately show False using False2 by (cases "k = 0") (auto simp: DB_TASK_SIZE_def SIZE_MAX_def)
    qed
    moreover have "db_exec_query_param q len ps k data mem pool = Some (-1, pool)"
    proof (cases "k > (SIZE_MAX - DB_TASK_SIZE) div DB_PARAM_SIZE")
      case True
      then show ?thesis unfolding e by simp
    next
      case k: False
      then have le: "?base \<le> SIZE_MAX"
        by (simp add: DB_PARAM_SIZE_def DB_TASK_SIZE_def SIZE_MAX_def)
      then have b: "(DB_TASK_SIZE + k * DB_PARAM_SIZE mod 2 ^ 64) mod 2 ^ 64 = ?base"
        by (simp add: SIZE_MAX_def mod_add_right_eq)
      have "params_size ?ps ?base = None"
      proof (cases "params_size ?ps ?base")
        case (Some m)
        then show ?thesis using params_size_Some[OF Some le] False2 by auto
      qed
      then show ?thesis unfolding e b Let_def if_not_P[OF k] by simp
    qed
    ultimately show ?thesis using that(1) by blast
  qed
qed

lemma exec_query_cases:
  assumes r: "\<forall>s. q = Some s \<longrightarrow> len \<le> length s"
  obtains "db_pool_exec_query q len data mem pool = Some (-1, pool)"
  | a task where "db_pool_exec_query q len data mem pool = Some (0, enqueue a task pool)"
    "mem = Some a" "query_acceptable q len" "task_ok task" "task_data task = data" "block_cstr (task_query task) = Some (take len (the q))"
    "\<not> is_param_query task"
proof (cases "db_stop pool \<or> \<not> query_acceptable q len \<or> mem = None")
  case True
  have "db_pool_exec_query q len data mem pool = Some (-1, pool)"
    using True r unfolding db_pool_exec_query_def query_acceptable_def
    by (auto simp: rd_bytes_def memchr_None split: option.splits)
  then show ?thesis by (rule that(1))
next
  case False
  then obtain s a where q: "q = Some s" "len \<le> length s" "0 < len" "len < DEFAULT_QUERY_SIZE" "CHR 0x00 \<notin> set (take len s)"
    and a: "mem = Some a" and n: "\<not> db_stop pool" and qa: "query_acceptable q len"
    using r by (auto simp: query_acceptable_def)
  have lt: "length (take len s) = len" using q(2) by simp
  let ?block = "take len s @ replicate (DEFAULT_QUERY_SIZE - len) (CHR 0x00)"
  let ?task = "\<lparr>task_query = ?block, query_len = len, is_param_query = False, param_count = 0,
                 task_params = [], strings = [], task_data = data, task_result = zero_result\<rparr>"
  have d: "db_pool_exec_query q len data mem pool = Some (0, enqueue a ?task pool)"
    using q a n query_block_Some[of "take len s"] lt
    by (simp add: db_pool_exec_query_def rd_bytes_def memchr_None)
  have "cstr ?block = take len s @ cstr (replicate (DEFAULT_QUERY_SIZE - len) (CHR 0x00))"
    unfolding cstr_def by (rule takeWhile_append2) (use q(5) in auto)
  then have "cstr ?block = take len s" by (simp add: cstr_def takeWhile_replicate)
  then have c: "block_cstr (task_query ?task) = Some (take len (the q))"
    using q by (simp add: block_cstr_def)
  have ok: "task_ok ?task" using q lt by (simp add: task_ok_def)
  show ?thesis using that(2)[OF d a qa ok _ c] by simp
qed

text \<open>
  The length that is stored with the error of a query is the one of the untruncated message, which
  may be longer than the block.
\<close>

lemma query_error_length:
  assumes "\<not> is_param_query task" "block_cstr (task_query task) = Some t" "run_query M t = Inl e"
  shows "\<exists>task'. run_task M True task = Some task' \<and> err_msg_len (task_result task') = 7 + length (cstr e) \<and>
    length (err_msg (task_result task')) = 256"
  using assms by (simp add: run_task_def message_block_def Let_def)

section \<open>The pool completes every task, in order\<close>

lemma run_task_Some:
  assumes "task_ok task"
  shows "\<exists>task'. run_task M conn task = Some task'"
proof -
  obtain vs where v: "bind_params (strings task) (task_params task) = Some vs" using assms by (auto simp: task_ok_def)
  have t: "rd_bytes (task_query task) 0 (query_len task) = Some (take (query_len task) (task_query task))"
    using assms by (simp add: rd_bytes_def task_ok_def)
  have r: "rd_bytes (task_params task) 0 (param_count task) = Some (task_params task)"
    using assms by (simp add: rd_bytes_def task_ok_def)
  have "\<exists>r. execute_param_query M task = Some r"
    unfolding execute_param_query_def Let_def t bind.bind_lunit r v
    by (auto split: sum.splits option.splits prod.splits)
  moreover have "\<exists>x. block_cstr (task_query task) = Some x" using assms by (simp add: block_cstr_def task_ok_def)
  ultimately show ?thesis by (auto simp: run_task_def Let_def)
qed

record pool_history =
  pool :: db_pool
  accepted_tasks :: "addr list"
  collected :: "addr list"

definition accept :: "addr option \<Rightarrow> int \<times> db_pool \<Rightarrow> pool_history \<Rightarrow> pool_history" where
  "accept mem = (\<lambda>(r, p) h. if r = 0 then h\<lparr>pool := p, accepted_tasks := accepted_tasks h @ [the mem]\<rparr> else h\<lparr>pool := p\<rparr>)"

definition collect :: "addr option \<times> db_pool \<Rightarrow> pool_history \<Rightarrow> pool_history" where
  "collect = (\<lambda>(t, p) h. h\<lparr>pool := p, collected := collected h @ (case t of None \<Rightarrow> [] | Some t \<Rightarrow> [t])\<rparr>)"

text \<open>\<open>calloc\<close> returns no task that was accepted and is not yet collected.\<close>

definition fresh_task :: "pool_history \<Rightarrow> addr option \<Rightarrow> bool" where
  "fresh_task h mem \<longleftrightarrow> (case mem of None \<Rightarrow> True | Some a \<Rightarrow> a \<notin># mset (accepted_tasks h) - mset (collected h))"

inductive pool_step :: "pool_history \<Rightarrow> pool_history \<Rightarrow> bool" where
  exec: "\<forall>s. q = Some s \<longrightarrow> len \<le> length s \<Longrightarrow> fresh_task h mem \<Longrightarrow>
     db_pool_exec_query q len data mem (pool h) = Some r \<Longrightarrow> pool_step h (accept mem r h)"
| exec_param: "arguments_readable q len ps k \<Longrightarrow> fresh_task h mem \<Longrightarrow>
     db_exec_query_param q len ps k data mem (pool h) = Some r \<Longrightarrow> pool_step h (accept mem r h)"
| take_one: "working (pool h) = None \<Longrightarrow> pool_step h (h\<lparr>pool := take_task (pool h)\<rparr>)"
| finish_one: "finish_task M conn (pool h) = Some p \<Longrightarrow> pool_step h (h\<lparr>pool := p\<rparr>)"
| collect_one: "pool_step h (collect (db_pool_get_latest_completed_task (pool h)) h)"

inductive pool_reachable :: "pool_history \<Rightarrow> bool" where
  new: "db_pool_new True 1 = Some p \<Longrightarrow> pool_reachable \<lparr>pool = p, accepted_tasks = [], collected = []\<rparr>"
| step: "pool_reachable h \<Longrightarrow> pool_step h h' \<Longrightarrow> pool_reachable h'"

definition working_tasks :: "db_pool \<Rightarrow> addr list" where
  "working_tasks p = (case working p of None \<Rightarrow> [] | Some t \<Rightarrow> [t])"

definition pool_inv :: "pool_history \<Rightarrow> addr list \<Rightarrow> addr list \<Rightarrow> bool" where
  "pool_inv h ps ds \<longleftrightarrow>
     (let p = pool h; ws = working_tasks p in
      queue (task_next p, task_q p) ps \<and> queue (task_next p, done_queue p) ds \<and> distinct (ds @ ws @ ps) \<and>
      accepted_tasks h = collected h @ ds @ ws @ ps \<and> (\<forall>t \<in> set (ws @ ps). task_ok (tasks p t)))"

lemma inv_enqueue:
  assumes inv: "pool_inv h ps ds" and new: "fresh_task h (Some a)" and ok: "task_ok task"
  shows "pool_inv (accept (Some a) (0, enqueue a task (pool h)) h) (ps @ [a]) ds"
proof -
  let ?p = "pool h"
  let ?s = "task_queue_push a (task_next ?p, task_q ?p)"
  note i = inv[unfolded pool_inv_def Let_def]
  have "mset (accepted_tasks h) - mset (collected h) = mset (ds @ working_tasks ?p @ ps)" using i by simp
  then have n: "a \<notin> set ds" "a \<notin> set ps" "a \<notin> set (working_tasks ?p)"
    using new by (auto simp: fresh_task_def)
  have q: "queue (fst ?s, snd ?s) (ps @ [a])" "queue (fst ?s, done_queue ?p) ds"
    using task_queue.push_queue[of "(task_next ?p, task_q ?p)" ps a]
      task_queue.push_other[of "(task_next ?p, task_q ?p)" ps "done_queue ?p" ds a] i n
    by auto
  have e: "enqueue a task ?p = ?p\<lparr>tasks := (tasks ?p)(a := task), task_next := fst ?s, task_q := snd ?s\<rparr>"
    by (simp add: enqueue_def split_def Let_def)
  have ws: "working_tasks (?p\<lparr>tasks := (tasks ?p)(a := task), task_next := fst ?s, task_q := snd ?s\<rparr>) = working_tasks ?p"
    by (simp add: working_tasks_def)
  show ?thesis unfolding pool_inv_def accept_def e
    using i q n ok by (auto simp: Let_def ws)
qed

lemma inv_take_task:
  assumes inv: "pool_inv h ps ds" and idle: "working (pool h) = None"
  shows "pool_inv (h\<lparr>pool := take_task (pool h)\<rparr>) (tl ps) ds"
    and "working (take_task (pool h)) = (case ps of [] \<Rightarrow> None | t # _ \<Rightarrow> Some t)"
proof -
  let ?p = "pool h"
  let ?s = "task_queue_pop (task_next ?p, task_q ?p)"
  note i = inv[unfolded pool_inv_def Let_def]
  have "pool_inv (h\<lparr>pool := take_task ?p\<rparr>) (tl ps) ds \<and> working (take_task ?p) = (case ps of [] \<Rightarrow> None | t # _ \<Rightarrow> Some t)"
  proof (cases ps)
    case Nil
    then have "?s = (None, (task_next ?p, task_q ?p))" using task_queue.pop_empty i by simp
    then have "take_task ?p = ?p" by (simp add: take_task_def)
    then show ?thesis using inv Nil idle by simp
  next
    case (Cons t ts)
    have n: "t \<notin> set ds" using i Cons by auto
    have q: "fst ?s = Some t" "queue (snd ?s) ts" "queue (fst (snd ?s), done_queue ?p) ds"
      using task_queue.pop_queue[of "(task_next ?p, task_q ?p)" t ts]
        task_queue.pop_other[of "(task_next ?p, task_q ?p)" t ts "done_queue ?p" ds] i n Cons
      by auto
    have e: "take_task ?p = ?p\<lparr>task_next := fst (snd ?s), task_q := snd (snd ?s), working := Some t\<rparr>"
      using q(1) by (auto simp: take_task_def split: prod.splits)
    show ?thesis using i q n idle Cons by (auto simp: pool_inv_def e Let_def working_tasks_def)
  qed
  then show "pool_inv (h\<lparr>pool := take_task (pool h)\<rparr>) (tl ps) ds"
    and "working (take_task (pool h)) = (case ps of [] \<Rightarrow> None | t # _ \<Rightarrow> Some t)" by auto
qed

lemma inv_finish_task:
  assumes inv: "pool_inv h ps ds"
  shows "\<exists>p. finish_task M conn (pool h) = Some p \<and> working p = None \<and>
    pool_inv (h\<lparr>pool := p\<rparr>) ps (ds @ working_tasks (pool h))"
proof (cases "working (pool h)")
  case None
  then show ?thesis using inv by (simp add: finish_task_def working_tasks_def)
next
  case (Some t)
  let ?p = "pool h"
  let ?s = "task_queue_push t (task_next ?p, done_queue ?p)"
  note i = inv[unfolded pool_inv_def Let_def working_tasks_def Some option.case]
  obtain task where r: "run_task M conn (tasks ?p t) = Some task" using run_task_Some i by fastforce
  have q: "queue (fst ?s, snd ?s) (ds @ [t])" "queue (fst ?s, task_q ?p) ps"
    using done_queue.push_queue[of "(task_next ?p, done_queue ?p)" ds t]
      done_queue.push_other[of "(task_next ?p, done_queue ?p)" ds "task_q ?p" ps t] i
    by auto
  have e: "finish_task M conn ?p = Some (?p\<lparr>tasks := (tasks ?p)(t := task), task_next := fst ?s,
      done_queue := snd ?s, working := None\<rparr>)"
    using r Some by (simp add: finish_task_def split_def Let_def)
  have "pool_inv (h\<lparr>pool := ?p\<lparr>tasks := (tasks ?p)(t := task), task_next := fst ?s, done_queue := snd ?s,
      working := None\<rparr>\<rparr>) ps (ds @ [t])"
    using i q by (auto simp: pool_inv_def Let_def working_tasks_def)
  then show ?thesis using e Some by (simp add: working_tasks_def)
qed

lemma inv_collect:
  assumes inv: "pool_inv h ps ds"
  shows "pool_inv (collect (db_pool_get_latest_completed_task (pool h)) h) ps (tl ds)"
proof -
  let ?p = "pool h"
  let ?s = "pop_completed (task_next ?p, done_queue ?p)"
  note i = inv[unfolded pool_inv_def Let_def]
  have e: "db_pool_get_latest_completed_task ?p = (fst ?s, ?p\<lparr>task_next := fst (snd ?s), done_queue := snd (snd ?s)\<rparr>)"
    by (simp add: db_pool_get_latest_completed_task_def split_def)
  show ?thesis
  proof (cases ds)
    case Nil
    then have "?s = (None, (task_next ?p, done_queue ?p))" using done_queue.pop_empty i by simp
    then show ?thesis using inv Nil by (simp add: e collect_def)
  next
    case (Cons t ts)
    have n: "t \<notin> set ps" using i Cons by auto
    have q: "fst ?s = Some t" "queue (snd ?s) ts" "queue (fst (snd ?s), task_q ?p) ps"
      using done_queue.pop_queue[of "(task_next ?p, done_queue ?p)" t ts]
        done_queue.pop_other[of "(task_next ?p, done_queue ?p)" t ts "task_q ?p" ps] i n Cons
      by auto
    show ?thesis using i q n Cons by (auto simp: pool_inv_def e collect_def Let_def working_tasks_def)
  qed
qed

lemma pool_inv_step:
  assumes "pool_step h h'" "\<exists>ps ds. pool_inv h ps ds"
  shows "\<exists>ps ds. pool_inv h' ps ds"
proof -
  obtain ps ds where i: "pool_inv h ps ds" using assms(2) by blast
  have same: "\<exists>ps ds. pool_inv (accept mem (-1, pool h) h) ps ds" for mem using i by (auto simp: accept_def)
  have add: "fresh_task h (Some a) \<Longrightarrow> task_ok task \<Longrightarrow>
      \<exists>ps ds. pool_inv (accept (Some a) (0, enqueue a task (pool h)) h) ps ds" for a task
    using inv_enqueue[OF i] by blast
  from assms(1) show ?thesis
  proof cases
    case (exec q len mem data r)
    show ?thesis
      by (rule exec_query_cases[OF exec(2), of data mem "pool h"])
        (use exec same add in auto)
  next
    case (exec_param q len ps k mem data r)
    show ?thesis
      by (rule exec_query_param_cases[OF exec_param(2), of data mem "pool h"])
        (use exec_param same add in auto)
  next
    case take_one
    then show ?thesis using inv_take_task(1)[OF i] by auto
  next
    case (finish_one M conn p)
    then show ?thesis using inv_finish_task[OF i, of M conn] by auto
  next
    case collect_one
    then show ?thesis using inv_collect[OF i] by auto
  qed
qed

lemma pool_reachable_inv: "pool_reachable h \<Longrightarrow> \<exists>ps ds. pool_inv h ps ds"
proof (induction rule: pool_reachable.induct)
  case (new p)
  then have p: "p = new_pool" by (simp add: db_pool_new_def)
  have "pool_inv \<lparr>pool = p, accepted_tasks = [], collected = []\<rparr> [] []"
    by (simp add: p pool_inv_def new_pool_def working_tasks_def queue_pair empty_queue_def Let_def)
  then show ?case by blast
next
  case (step h h')
  then show ?case using pool_inv_step by blast
qed

lemma finish_queue_finishes:
  assumes "pool_inv h ps ds"
  shows "\<exists>p. finish_queue M conn (pool h) = Some p \<and> working p = None \<and>
    pool_inv (h\<lparr>pool := p\<rparr>) [] (ds @ working_tasks (pool h) @ ps)"
  using assms
proof (induction ps arbitrary: h ds)
  case (Nil h ds)
  obtain p where f: "finish_task M conn (pool h) = Some p" "working p = None"
    "pool_inv (h\<lparr>pool := p\<rparr>) [] (ds @ working_tasks (pool h))"
    using inv_finish_task[OF Nil] by blast
  have t: "pool_inv (h\<lparr>pool := take_task p\<rparr>) [] (ds @ working_tasks (pool h))" "working (take_task p) = None"
    using inv_take_task[OF f(3)] f(2) by simp_all
  have "finish_queue M conn (pool h) = Some (take_task p)"
    by (subst finish_queue.simps) (simp add: f(1) t(2) Let_def)
  then show ?case using t by simp
next
  case (Cons x ps h ds)
  obtain p where f: "finish_task M conn (pool h) = Some p" "working p = None"
    "pool_inv (h\<lparr>pool := p\<rparr>) (x # ps) (ds @ working_tasks (pool h))"
    using inv_finish_task[OF Cons.prems] by blast
  have t: "pool_inv (h\<lparr>pool := take_task p\<rparr>) ps (ds @ working_tasks (pool h))" "working (take_task p) = Some x"
    using inv_take_task[OF f(3)] f(2) by simp_all
  obtain p' where r: "finish_queue M conn (take_task p) = Some p'" "working p' = None"
    "pool_inv (h\<lparr>pool := p'\<rparr>) [] ((ds @ working_tasks (pool h)) @ [x] @ ps)"
    using Cons.IH[OF t(1)] t(2) by (auto simp: working_tasks_def)
  have "finish_queue M conn (pool h) = Some p'"
    by (subst finish_queue.simps) (simp add: f(1) t(2) r(1) Let_def)
  then show ?case using r(2,3) by simp
qed

text \<open>
  C9.  A parametrised query is accepted exactly when the pool is not stopped, the query has 1 to
  255 bytes without NUL, every parameter has a known type and a pointer for its bytes, the size of
  the task does not overflow \<open>size_t\<close>, and memory is available; otherwise nothing is queued.  All
  copies stay within the task, and the statement that the worker later executes gets exactly the
  text and the values that the caller passed.
\<close>

theorem db_exec_query_param_correct:
  assumes "arguments_readable q len ps k"
  shows "if \<not> db_stop p \<and> submission_acceptable q len ps k \<and> mem \<noteq> None
    then \<exists>p'. db_exec_query_param q len ps k data mem p = Some (0, p') \<and>
      (\<forall>M. execute_param_query M (tasks p' (the mem)) =
        Some (execute_spec M (take len (the q)) (map param_value (passed_params ps k))))
    else db_exec_query_param q len ps k data mem p = Some (-1, p)"
  by (rule exec_query_param_cases[OF assms, of data mem p]) (auto simp: enqueue_task)

theorem db_exec_query_param_correct_witness:
  "\<exists>p. db_exec_query_param (Some ''DELETE FROM t WHERE n=? AND i=?;'') 31
       (Some [DB_PARAM_STRING (Some ''a'') 1, DB_PARAM_INT64 7]) 2 0 (Some 5) new_pool = Some (0, p) \<and>
     (\<forall>M. execute_param_query M (tasks p 5) =
        Some (execute_spec M ''DELETE FROM t WHERE n=? AND i=?'' [BIND_STRING ''a'', BIND_LONGLONG 7]))"
proof -
  let ?q = "Some ''DELETE FROM t WHERE n=? AND i=?;''"
  let ?ps = "Some [DB_PARAM_STRING (Some ''a'') 1, DB_PARAM_INT64 7]"
  have "arguments_readable ?q 31 ?ps 2" by (simp add: arguments_readable_def)
  note c = db_exec_query_param_correct[OF this, of new_pool "Some 5" 0]
  have "query_acceptable ?q 31" by code_simp
  then have "submission_acceptable ?q 31 ?ps 2"
    by (simp add: submission_acceptable_def DB_TASK_SIZE_def DB_PARAM_SIZE_def SIZE_MAX_def)
  then show ?thesis using c by (simp add: new_pool_def passed_params_def)
qed

text \<open>
  C17.  Stopping the pool terminates in every reachable state, without a task that cannot be
  executed: the worker has then executed every accepted task, and what was not yet collected waits
  in the queue of finished tasks, each task once and in the order of submission.
\<close>

theorem db_pool_stop_completes:
  assumes "pool_reachable h"
  shows "\<exists>p ds. db_pool_stop M conn (pool h) = Some p \<and> working p = None \<and>
    queue (task_next p, task_q p) [] \<and> queue (task_next p, done_queue p) ds \<and>
    accepted_tasks h = collected h @ ds \<and> distinct ds"
proof -
  obtain ps ds where i: "pool_inv h ps ds" using pool_reachable_inv[OF assms] by blast
  have "pool_inv (h\<lparr>pool := (pool h)\<lparr>db_stop := True\<rparr>\<rparr>) ps ds"
    using i by (simp add: pool_inv_def Let_def working_tasks_def)
  from finish_queue_finishes[OF this, of M conn] show ?thesis
    by (auto simp: db_pool_stop_def pool_inv_def Let_def working_tasks_def split: option.splits)
qed

text \<open>A pool with two queries.\<close>

definition two_queries :: "pool_history \<Rightarrow> pool_history" where
  "two_queries h =
     (let h = accept (Some 1) (the (db_pool_exec_query (Some ''SELECT 1'') 8 0 (Some 1) (pool h))) h in
      accept (Some 2) (the (db_pool_exec_query (Some ''SELECT 2'') 8 0 (Some 2) (pool h))) h)"

lemma query_step:
  assumes "fresh_task h (Some a)"
  shows "pool_step h (accept (Some a) (the (db_pool_exec_query (Some ''SELECT 1'') 8 0 (Some a) (pool h))) h)"
    and "pool_step h (accept (Some a) (the (db_pool_exec_query (Some ''SELECT 2'') 8 0 (Some a) (pool h))) h)"
proof -
  have "\<exists>r. db_pool_exec_query (Some q) 8 0 (Some a) (pool h) = Some r" if "length q = 8" for q
    using that by (auto simp: db_pool_exec_query_def rd_bytes_def DEFAULT_QUERY_SIZE_def query_block_def wr_bytes_def)
  from this[of "''SELECT 1''"] this[of "''SELECT 2''"]
  show "pool_step h (accept (Some a) (the (db_pool_exec_query (Some ''SELECT 1'') 8 0 (Some a) (pool h))) h)"
    and "pool_step h (accept (Some a) (the (db_pool_exec_query (Some ''SELECT 2'') 8 0 (Some a) (pool h))) h)"
    using pool_step.exec[of "Some ''SELECT 1''" 8 h "Some a" 0] pool_step.exec[of "Some ''SELECT 2''" 8 h "Some a" 0] assms
    by auto
qed

theorem db_pool_stop_completes_witness:
  "\<exists>h :: pool_history. accepted_tasks h = [1, 2] \<and> (\<forall>M. \<exists>p. db_pool_stop M False (pool h) = Some p \<and>
     working p = None \<and> queue (task_next p, done_queue p) [1, 2])"
proof -
  let ?h0 = "\<lparr>pool = new_pool, accepted_tasks = [], collected = []\<rparr>"
  have r0: "pool_reachable ?h0" by (rule pool_reachable.new) (simp add: db_pool_new_def)
  have f1: "fresh_task ?h0 (Some 1)" by (simp add: fresh_task_def)
  let ?h1 = "accept (Some 1) (the (db_pool_exec_query (Some ''SELECT 1'') 8 0 (Some 1) (pool ?h0))) ?h0"
  have r1: "pool_reachable ?h1" by (rule pool_reachable.step[OF r0 query_step(1)[OF f1]])
  have a: "accepted_tasks ?h1 = [1]" "collected ?h1 = []" by code_simp+
  have f2: "fresh_task ?h1 (Some 2)" unfolding fresh_task_def option.case a by simp
  have r2: "pool_reachable (two_queries ?h0)" unfolding two_queries_def Let_def
    by (rule pool_reachable.step[OF r1 query_step(2)[OF f2]])
  have b: "accepted_tasks (two_queries ?h0) = [1, 2]" "collected (two_queries ?h0) = []" by code_simp+
  show ?thesis
    using db_pool_stop_completes[OF r2, where conn = False] b by (intro exI[of _ "two_queries ?h0"]) fastforce
qed

end
