(* ===== verification/JsonRead.thy ===== *)
theory JsonRead
  imports JsonPrint Db
begin

text \<open>
  \<open>src/src/app/json.c\<close>, \<open>json_to_challenge\<close> and \<open>json_to_challenges\<close>, with \<open>parse_json_int\<close> and
  \<open>skip_json_value\<close> of \<open>json_parser.c\<close>: the readers for what the printers of challenges write.
  \<open>strtol\<close> does not know the end of the input; \<open>behind\<close> are the bytes behind it that may be read, and
  reading beyond them is \<open>None\<close>.  \<open>Some None\<close> is the result \<open>NULL\<close>.
\<close>

section \<open>Numbers and values to skip\<close>

text \<open>
  Where \<open>strtol\<close> stops, 0 when there is no number; \<open>None\<close> when no byte stops it.
\<close>

definition number_end :: "string \<Rightarrow> nat option" where
  "number_end t =
     (let a = length (takeWhile is_space t);
          b = (if a < length t \<and> (t ! a = CHR ''-'' \<or> t ! a = CHR ''+'') then a + 1 else a);
          e = b + length (takeWhile is_digit (drop b t)) in
      if e \<ge> length t then None else Some (if e = b then 0 else e))"

definition parse_json_int :: "string \<Rightarrow> string \<Rightarrow> (int \<times> string) option option" where
  "parse_json_int behind s =
     (case number_end (s @ behind) of
        None \<Rightarrow> None
      | Some e \<Rightarrow> Some (if e = 0 \<or> e > length s then None else Some (to_int (strtol (s @ behind)), drop e s)))"

fun skip_nested :: "char \<Rightarrow> char \<Rightarrow> nat \<Rightarrow> string \<Rightarrow> string option" where
  "skip_nested opening closing depth [] = (if depth = 0 then Some [] else None)"
| "skip_nested opening closing depth (c # s) =
     (if depth = 0 then Some (c # s)
      else if c = opening then skip_nested opening closing (depth + 1) s
      else if c = closing then skip_nested opening closing (depth - 1) s
      else skip_nested opening closing depth s)"

definition skip_plain :: "string \<Rightarrow> string" where
  "skip_plain s = dropWhile (\<lambda>c. c \<noteq> CHR '','' \<and> c \<noteq> CHR ''}'' \<and> \<not> is_space c) s"

definition skip_json_value :: "string \<Rightarrow> string option" where
  "skip_json_value s =
     (case skip_whitespace s of
        [] \<Rightarrow> None
      | c # t \<Rightarrow>
          if c = CHR 0x22 then map_option snd (parse_json_str (c # t))
          else if c = CHR ''{'' then skip_nested (CHR ''{'') (CHR ''}'') 1 t
          else if c = CHR ''['' then skip_nested (CHR ''['') (CHR '']'') 1 t
          else Some (skip_plain (c # t)))"

lemma skip_whitespace_length: "length (skip_whitespace s) \<le> length s"
  by (induction s) auto

lemma skip_nested_length: "skip_nested a b d s = Some r \<Longrightarrow> length r \<le> length s"
  by (induction a b d s arbitrary: r rule: skip_nested.induct) (fastforce split: if_splits)+

lemma parse_json_str_length: "parse_json_str s = Some (t, r) \<Longrightarrow> length r < length s"
  by (auto simp: parse_json_str_iff)

lemma skip_json_value_length: "skip_json_value s = Some r \<Longrightarrow> length r \<le> length s"
proof -
  assume r: "skip_json_value s = Some r"
  show ?thesis
  proof (cases "skip_whitespace s")
    case (Cons c t)
    have "length r \<le> length (c # t)"
    proof (cases "c = CHR 0x22")
      case True
      then obtain v where "parse_json_str (c # t) = Some (v, r)" using r Cons by (auto simp: skip_json_value_def)
      then show ?thesis using parse_json_str_length by fastforce
    next
      case str: False
      show ?thesis
      proof (cases "c = CHR ''{'' \<or> c = CHR ''[''")
        case True
        then obtain cl where "skip_nested c cl 1 t = Some r" using r Cons str by (auto simp: skip_json_value_def)
        then show ?thesis using skip_nested_length by fastforce
      next
        case False
        then have "r = skip_plain (c # t)" using r Cons str by (simp add: skip_json_value_def)
        then show ?thesis unfolding skip_plain_def by (simp only: length_dropWhile_le)
      qed
    qed
    then show ?thesis using Cons skip_whitespace_length[of s] by simp
  qed (use r in \<open>simp add: skip_json_value_def\<close>)
qed

section \<open>One challenge\<close>

definition zero_challenge :: challenge where
  "zero_challenge = \<lparr>ch_id = 0, creator_id = [], ch_name = [], description = [], flag = [], genre = CTF_GENRE_WEB\<rparr>"

text \<open>A string value: the rest of the input and the changed challenge.\<close>

definition read_text :: "(string \<Rightarrow> challenge \<Rightarrow> challenge) \<Rightarrow> string \<Rightarrow> challenge \<Rightarrow> (string \<times> challenge) option option" where
  "read_text store s c =
     (case read_string \<lparr>cur = s, mem = 0\<rparr> of
        Inl e \<Rightarrow> Some None
      | Inr (v, p) \<Rightarrow> Some (Some (cur p, store v c)))"

definition read_member :: "string \<Rightarrow> string \<Rightarrow> string \<Rightarrow> challenge \<Rightarrow> (string \<times> challenge) option option" where
  "read_member behind key s c =
     (if string_equals_cstr key ''id'' then
        map_option (map_option (\<lambda>(v, s'). (s', c\<lparr>ch_id := v\<rparr>))) (parse_json_int behind s)
      else if string_equals_cstr key ''creator_id'' then read_text (\<lambda>v. creator_id_update (\<lambda>_. v)) s c
      else if string_equals_cstr key ''name'' then read_text (\<lambda>v. ch_name_update (\<lambda>_. v)) s c
      else if string_equals_cstr key ''description'' then read_text (\<lambda>v. description_update (\<lambda>_. v)) s c
      else if string_equals_cstr key ''flag'' then read_text (\<lambda>v. flag_update (\<lambda>_. v)) s c
      else if string_equals_cstr key ''genre'' then
        read_text (\<lambda>v. genre_update (\<lambda>_. ctf_genre_from_string v)) s c
      else Some (map_option (\<lambda>s'. (s', c)) (skip_json_value s)))"

lemma read_text_length: "read_text f s c = Some (Some (s', c')) \<Longrightarrow> length s' \<le> length s"
  using skip_whitespace_length[of s]
  by (auto simp: read_text_def read_string_def dest!: parse_json_str_length split: option.splits sum.splits)

lemma read_member_length: "read_member behind key s c = Some (Some (s', c')) \<Longrightarrow> length s' \<le> length s"
  by (auto simp: read_member_def parse_json_int_def split: if_splits option.splits
      dest!: read_text_length skip_json_value_length)

function members_loop :: "string \<Rightarrow> string \<Rightarrow> challenge \<Rightarrow> (int \<times> challenge) option" where
  "members_loop behind s c =
     (if s = [] then Some (0, c)
      else case skip_whitespace s of
        [] \<Rightarrow> Some (-1, c)
      | x # t \<Rightarrow>
          if x = CHR ''}'' then Some (0, c)
          else if x = CHR '','' then members_loop behind t c
          else (case read_string \<lparr>cur = x # t, mem = 0\<rparr> of
            Inl e \<Rightarrow> Some (-1, c)
          | Inr (key, p) \<Rightarrow>
            (case skip_whitespace (cur p) of
               [] \<Rightarrow> Some (-1, c)
             | y # u \<Rightarrow>
                 if y \<noteq> CHR '':'' then Some (-1, c)
                 else (case read_member behind key (skip_whitespace u) c of
                   None \<Rightarrow> None
                 | Some None \<Rightarrow> Some (-1, c)
                 | Some (Some (s', c')) \<Rightarrow> members_loop behind s' c'))))"
  by pat_completeness auto
termination
proof (relation "measure (\<lambda>(behind, s, c). length s)", goal_cases)
  case (2 behind s c x t)
  then show ?case using skip_whitespace_length[of s] by simp
next
  case (3 behind s c x t kp key p y u r s'c' s' c')
  have "length (x # t) \<le> length s" using 3(2) skip_whitespace_length[of s] by simp
  moreover have "length (cur p) < length (x # t)"
    using 3(5,6) skip_whitespace_length[of "x # t"]
    by (auto simp: read_string_def dest!: parse_json_str_length split: option.splits)
  moreover have "length (y # u) \<le> length (cur p)" using 3(7) skip_whitespace_length[of "cur p"] by simp
  moreover have "length s' \<le> length u"
    using 3(9-) read_member_length[of behind key "skip_whitespace u" c s' c'] skip_whitespace_length[of u] by simp
  ultimately show ?case by simp
qed simp

declare members_loop.simps [simp del]

text \<open>\<open>out\<close>: the object behind the pointer, or \<open>None\<close> for \<open>NULL\<close>.\<close>

definition json_to_challenge :: "string \<Rightarrow> string option \<Rightarrow> challenge option \<Rightarrow> (int \<times> challenge option) option" where
  "json_to_challenge behind json out =
     (case (json, out) of
        (Some s, Some _) \<Rightarrow>
          (case skip_whitespace s of
             x # t \<Rightarrow>
               if x \<noteq> CHR ''{'' then Some (-1, Some zero_challenge)
               else map_option (map_prod id Some) (members_loop behind t zero_challenge)
           | [] \<Rightarrow> Some (-1, Some zero_challenge))
      | _ \<Rightarrow> Some (-1, out))"

section \<open>All challenges\<close>

text \<open>
  The loop over the elements; \<open>k\<close> counts the allocations, \<open>None\<close> inside is an early return that
  leaves the results of the caller alone.
\<close>

function elements_loop ::
  "string \<Rightarrow> (nat \<Rightarrow> bool) \<Rightarrow> nat \<Rightarrow> nat \<Rightarrow> challenge list \<Rightarrow> string \<Rightarrow> challenge list option option" where
  "elements_loop behind alloc k capacity cs s =
     (if s = [] then Some (Some cs)
      else case skip_whitespace s of
        [] \<Rightarrow> Some (Some cs)
      | x # t \<Rightarrow>
          if x = CHR '']'' then Some (Some cs)
          else if x = CHR '','' then elements_loop behind alloc k capacity cs t
          else if length cs \<ge> capacity \<and> \<not> alloc k then Some None
          else (case json_to_challenge behind (Some (x # t)) (Some zero_challenge) of
            Some (r, Some c) \<Rightarrow>
              if r \<noteq> 0 then Some None
              else (case skip_json_value (x # t) of
                None \<Rightarrow> Some None
              | Some s' \<Rightarrow>
                  if length cs \<ge> capacity then elements_loop behind alloc (k + 1) (capacity * 2) (cs @ [c]) s'
                  else elements_loop behind alloc k capacity (cs @ [c]) s')
          | _ \<Rightarrow> None))"
  by pat_completeness auto

lemma element_shorter:
  assumes "json_to_challenge behind (Some (x # t)) out = Some (0, c)" "skip_json_value (x # t) = Some s'"
    "skip_whitespace s = x # t"
  shows "length s' < length s"
proof -
  have x: "\<not> is_json_space x" using assms(3)
    by (induction s) (auto split: if_splits)
  then have "x = CHR ''{''" using assms(1)
    by (auto simp: json_to_challenge_def split: if_splits option.splits)
  then have "skip_nested (CHR ''{'') (CHR ''}'') 1 t = Some s'"
    using assms(2) x by (simp add: skip_json_value_def)
  then have "length s' \<le> length t" by (rule skip_nested_length)
  then show ?thesis using assms(3) skip_whitespace_length[of s] by simp
qed

termination elements_loop
proof (relation "measure (\<lambda>(behind, alloc, k, capacity, cs, s). length s)", goal_cases)
  case (2 behind alloc k capacity cs s x t)
  then show ?case using skip_whitespace_length[of s] by simp
next
  case (3 behind alloc k capacity cs s x t)
  then show ?case by (auto intro: element_shorter)
next
  case (4 behind alloc k capacity cs s x t)
  then show ?case by (auto intro: element_shorter)
qed simp

declare elements_loop.simps [simp del]

definition json_to_challenges ::
  "string \<Rightarrow> (nat \<Rightarrow> bool) \<Rightarrow> string option \<Rightarrow> challenge list option option" where
  "json_to_challenges behind alloc json =
     (case json of
        None \<Rightarrow> Some None
      | Some s \<Rightarrow>
          (case skip_whitespace s of
             x # t \<Rightarrow>
               if x \<noteq> CHR ''['' then Some None
               else if \<not> alloc 0 then Some None
               else elements_loop behind alloc 1 4 [] t
           | [] \<Rightarrow> Some None))"

section \<open>Reading what was printed\<close>

lemma read_printed_string:
  "json_content k \<Longrightarrow> read_string \<lparr>cur = quoted k @ r, mem = n\<rparr> = Inr (k, \<lparr>cur = r, mem = n\<rparr>)"
proof -
  assume "json_content k"
  then have "parse_json_str (quoted k @ r) = Some (k, r)" by (simp add: parse_json_str_iff quoted_def)
  moreover have "skip_whitespace (quoted k @ r) = quoted k @ r" by (simp add: quoted_def is_json_space_def)
  ultimately show ?thesis by (simp add: read_string_def)
qed

lemma read_text_quoted: "json_content v \<Longrightarrow> read_text f (quoted v @ r) c = Some (Some (r, f v c))"
  by (simp add: read_text_def read_printed_string)

lemma members_loop_comma: "members_loop behind (CHR '','' # s) c = members_loop behind s c"
  by (subst members_loop.simps) (simp add: is_json_space_def)

lemma members_loop_close: "members_loop behind (CHR ''}'' # s) c = Some (0, c)"
  by (subst members_loop.simps) (simp add: is_json_space_def)

lemma members_loop_member:
  assumes "json_content k" "read_member behind k v c = Some (Some (r, c'))" "v \<noteq> []" "\<not> is_json_space (hd v)"
  shows "members_loop behind (quoted k @ CHR '':'' # v) c = members_loop behind r c'"
proof -
  let ?s = "quoted k @ CHR '':'' # v"
  have q: "?s = CHR 0x22 # (k @ CHR 0x22 # CHR '':'' # v)" by (simp add: quoted_def)
  have w: "skip_whitespace ?s = ?s" unfolding q by (simp add: is_json_space_def)
  have v: "skip_whitespace v = v" using assms(3,4) by (cases v) simp_all
  have r: "read_string \<lparr>cur = CHR 0x22 # (k @ CHR 0x22 # CHR '':'' # v), mem = 0\<rparr> = Inr (k, \<lparr>cur = CHR '':'' # v, mem = 0\<rparr>)"
    using read_printed_string[OF assms(1)] unfolding q[symmetric] .
  have c: "skip_whitespace (CHR '':'' # v) = CHR '':'' # v" by (simp add: is_json_space_def)
  show ?thesis
    by (subst members_loop.simps) (use w v c r assms(2) in \<open>simp add: q is_json_space_def\<close>)
qed

lemma digits_value_decimal: "digits_value s = int (decimal s)"
proof -
  have "foldl (\<lambda>v c. v * 10 + int (digit_val c)) (int n) s = int (foldl (\<lambda>v c. v * 10 + digit_val c) n s)" for n
  proof (induction s arbitrary: n)
    case (Cons c s)
    then show ?case using Cons[of "n * 10 + digit_val c"] by simp
  qed simp
  from this[of 0] show ?thesis by (simp add: digits_value_def decimal_def)
qed

lemma takeWhile_digits: "list_all is_digit d \<Longrightarrow> r = [] \<or> \<not> is_digit (hd r) \<Longrightarrow> takeWhile is_digit (d @ r) = d"
  by (cases r) (auto simp: list_all_iff takeWhile_append)

lemma is_digit_other: "is_digit c \<Longrightarrow> \<not> is_space c \<and> c \<noteq> CHR ''-'' \<and> c \<noteq> CHR ''+'' \<and> \<not> is_json_space c"
  by (auto simp: is_digit_def is_space_def is_json_space_def less_eq_char_def)

lemma show_nat_cases:
  obtains c d where "show_nat n = c # d" "is_digit c" "list_all is_digit (c # d)"
  using show_nat_digits[of n] by (cases "show_nat n") auto

lemma number_end_show_int:
  assumes "r \<noteq> []" "\<not> is_digit (hd r)"
  shows "number_end (show_int v @ r) = Some (length (show_int v))"
proof -
  have *: "takeWhile is_digit (show_nat n @ r) = show_nat n" for n
    using takeWhile_digits[of "show_nat n" r] show_nat_digits assms by blast
  have m: "\<not> is_space (CHR ''-'')" by (simp add: is_space_def less_eq_char_def)
  obtain c d where cd: "show_nat (nat v) = c # d" "is_digit c" by (rule show_nat_cases)
  show ?thesis
    using *[of "nat v"] *[of "nat (- v)"] cd is_digit_other[OF cd(2)] assms(1) m
      show_nat_digits[of "nat (- v)"]
    by (auto simp: number_end_def show_int_def Let_def)
qed

lemma strtol_show_int:
  assumes "r = [] \<or> \<not> is_digit (hd r)" "- (2 ^ 63) \<le> v" "v < 2 ^ 63"
  shows "strtol (show_int v @ r) = v"
proof -
  have s: "cstr (show_int v @ r) = show_int v @ cstr r"
    using no_nul_show_int[of v] unfolding cstr_def by (intro takeWhile_append2) (auto simp: no_nul_def)
  have r: "cstr r = [] \<or> \<not> is_digit (hd (cstr r))" using assms(1) by (cases r) (auto simp: cstr_def)
  have *: "takeWhile is_digit (show_nat n @ cstr r) = show_nat n" for n
    using takeWhile_digits[of "show_nat n" "cstr r"] show_nat_digits r by blast
  have m: "\<not> is_space (CHR ''-'')" by (simp add: is_space_def less_eq_char_def)
  show ?thesis
  proof (cases "v < 0")
    case True
    then have "cstr (show_int v @ r) = CHR ''-'' # (show_nat (nat (- v)) @ cstr r)"
      using s by (simp add: show_int_def)
    moreover have "digits_value (show_nat (nat (- v))) = - v"
      using True by (simp add: digits_value_decimal decimal_show_nat)
    ultimately show ?thesis using m assms(2) by (simp add: strtol_def Let_def *)
  next
    case False
    obtain c d where cd: "show_nat (nat v) = c # d" "is_digit c" by (rule show_nat_cases)
    have e: "cstr (show_int v @ r) = show_nat (nat v) @ cstr r" using s False by (simp add: show_int_def)
    have d: "digits_value (show_nat (nat v)) = v" using False by (simp add: digits_value_decimal decimal_show_nat)
    have t: "takeWhile is_digit (c # (d @ cstr r)) = c # d" using *[of "nat v"] by (simp add: cd(1))
    show ?thesis using is_digit_other[OF cd(2)] e d t assms(3) by (simp add: strtol_def Let_def cd(1))
  qed
qed

lemma parse_json_int_show:
  assumes "r \<noteq> []" "\<not> is_digit (hd r)" "- int INT_MAX \<le> v" "v \<le> int INT_MAX"
  shows "parse_json_int behind (show_int v @ r) = Some (Some (v, r))"
proof -
  have "number_end (show_int v @ r @ behind) = Some (length (show_int v))"
    by (rule number_end_show_int) (use assms in simp_all)
  moreover have "strtol (show_int v @ r @ behind) = v"
    by (rule strtol_show_int) (use assms in \<open>simp_all add: INT_MAX_def\<close>)
  moreover have "to_int v = v" using assms(3,4) by (simp add: to_int_def INT_MAX_def)
  moreover have "show_int v \<noteq> []" using show_nat_digits by (simp add: show_int_def)
  ultimately show ?thesis by (simp add: parse_json_int_def)
qed

text \<open>One challenge, as it is printed, with more input behind it.\<close>

definition int_id :: "challenge \<Rightarrow> bool" where
  "int_id c \<longleftrightarrow> - int INT_MAX \<le> ch_id c \<and> ch_id c \<le> int INT_MAX"

lemma read_member_id:
  "int_id c0 \<Longrightarrow> read_member behind ''id'' (show_int (ch_id c0) @ CHR '','' # r) c = Some (Some (CHR '','' # r, c\<lparr>ch_id := ch_id c0\<rparr>))"
  by (simp add: read_member_def string_equals_cstr_def int_id_def parse_json_int_show is_digit_def less_eq_char_def)

lemma read_member_text:
  assumes "json_content v"
  shows "read_member behind ''creator_id'' (quoted v @ r) c = Some (Some (r, c\<lparr>creator_id := v\<rparr>))"
    "read_member behind ''name'' (quoted v @ r) c = Some (Some (r, c\<lparr>ch_name := v\<rparr>))"
    "read_member behind ''description'' (quoted v @ r) c = Some (Some (r, c\<lparr>description := v\<rparr>))"
    "read_member behind ''flag'' (quoted v @ r) c = Some (Some (r, c\<lparr>flag := v\<rparr>))"
    "read_member behind ''genre'' (quoted v @ r) c = Some (Some (r, c\<lparr>genre := ctf_genre_from_string v\<rparr>))"
  using assms by (simp_all add: read_member_def string_equals_cstr_def read_text_quoted)

lemma quoted_start: "quoted v @ r \<noteq> []" "\<not> is_json_space (hd (quoted v @ r))"
  by (simp_all add: quoted_def is_json_space_def)

lemma show_int_start: "show_int v @ r \<noteq> []" "\<not> is_json_space (hd (show_int v @ r))"
proof -
  obtain c d where cd: "show_nat (nat v) = c # d" "is_digit c" by (rule show_nat_cases)
  then show "show_int v @ r \<noteq> []" "\<not> is_json_space (hd (show_int v @ r))"
    using is_digit_other[OF cd(2)] by (auto simp: show_int_def is_json_space_def)
qed

lemma json_to_challenge_text:
  assumes "json_challenge c" "int_id c"
  shows "json_to_challenge behind (Some (object_text (challenge_members c f) @ r)) (Some out) =
    Some (0, Some (if f then c else c\<lparr>flag := []\<rparr>))"
proof -
  note content = assms(1)[unfolded json_challenge_def]
  note steps = members_loop_comma members_loop_close
    members_loop_member[OF json_content_literals(1) read_member_id[OF assms(2)] show_int_start]
    members_loop_member[OF json_content_literals(2) read_member_text(1) quoted_start]
    members_loop_member[OF json_content_literals(3) read_member_text(2) quoted_start]
    members_loop_member[OF json_content_literals(4) read_member_text(3) quoted_start]
    members_loop_member[OF json_content_literals(5) read_member_text(4) quoted_start]
    members_loop_member[OF json_content_literals(6) read_member_text(5) quoted_start]
  have "members_loop behind (members_text (challenge_members c f) @ CHR ''}'' # r) zero_challenge =
      Some (0, if f then c else c\<lparr>flag := []\<rparr>)"
    using content json_content_genre by (simp add: challenge_members_def steps zero_challenge_def)
  then show ?thesis by (simp add: json_to_challenge_def object_text_def is_json_space_def)
qed

section \<open>The array\<close>

text \<open>
  The depth of braces behind a text, from a depth before it; \<open>None\<close> when a brace closes that the text
  did not open.  \<open>skip_json_value\<close> counts braces also inside strings.
\<close>

fun braces :: "string \<Rightarrow> nat \<Rightarrow> nat option" where
  "braces [] d = Some d"
| "braces (c # s) d =
     (if c = CHR ''{'' then braces s (d + 1)
      else if c = CHR ''}'' then (if d = 0 then None else braces s (d - 1))
      else braces s d)"

definition balanced :: "string \<Rightarrow> bool" where "balanced t \<longleftrightarrow> braces t 0 = Some 0"

lemma braces_append: "braces (s @ t) d = Option.bind (braces s d) (braces t)"
  by (induction s d rule: braces.induct) simp_all

lemma braces_shift: "braces t d = Some e \<Longrightarrow> braces t (d + k) = Some (e + k)"
  by (induction t d arbitrary: e rule: braces.induct) (auto split: if_splits)

lemma balanced_append: "balanced s \<Longrightarrow> balanced t \<Longrightarrow> balanced (s @ t)"
  by (simp add: balanced_def braces_append)

lemma balanced_Cons: "c \<noteq> CHR ''{'' \<Longrightarrow> c \<noteq> CHR ''}'' \<Longrightarrow> balanced (c # s) = balanced s"
  by (simp add: balanced_def)

lemma balanced_Nil: "balanced []" by (simp add: balanced_def)

lemma balanced_plain: "CHR ''{'' \<notin> set s \<Longrightarrow> CHR ''}'' \<notin> set s \<Longrightarrow> balanced s"
  by (induction s) (auto simp: balanced_def)

lemma skip_nested_braces:
  "braces t d = Some e \<Longrightarrow> skip_nested (CHR ''{'') (CHR ''}'') (Suc d) (t @ r) = skip_nested (CHR ''{'') (CHR ''}'') (Suc e) r"
  by (induction t d arbitrary: e rule: braces.induct) (auto split: if_splits)

lemma skip_json_value_object: "balanced t \<Longrightarrow> skip_json_value (CHR ''{'' # t @ CHR ''}'' # r) = Some r"
  using skip_nested_braces[of t 0 0 "CHR ''}'' # r"]
  by (cases r) (simp_all add: skip_json_value_def is_json_space_def balanced_def)

definition balanced_challenge :: "challenge \<Rightarrow> bool" where
  "balanced_challenge c \<longleftrightarrow> balanced (creator_id c) \<and> balanced (ch_name c) \<and> balanced (description c) \<and> balanced (flag c)"

lemma balanced_quoted: "balanced t \<Longrightarrow> balanced (quoted t)"
  by (simp add: quoted_def balanced_Cons balanced_append balanced_plain)

lemma balanced_show_int: "balanced (show_int v)"
proof -
  have "CHR ''{'' \<notin> set (show_nat n) \<and> CHR ''}'' \<notin> set (show_nat n)" for n
    using show_nat_digits[of n] by (auto simp: list_all_iff is_digit_code)
  then show ?thesis by (auto simp: show_int_def intro!: balanced_plain)
qed

lemma balanced_genre: "balanced (ctf_genre_to_string g)"
  by (cases g) (simp_all add: balanced_def)

lemma balanced_members: "\<forall>(k, v) \<in> set kvs. balanced k \<and> balanced v \<Longrightarrow> balanced (members_text kvs)"
  by (induction kvs rule: members_text.induct) (auto simp: balanced_Cons balanced_Nil intro!: balanced_append balanced_quoted)

lemma balanced_challenge_members: "balanced_challenge c \<Longrightarrow> balanced (members_text (challenge_members c f))"
  by (rule balanced_members)
    (auto simp: challenge_members_def balanced_challenge_def balanced_show_int balanced_genre balanced_quoted balanced_plain)

definition readable_challenge :: "challenge \<Rightarrow> bool" where
  "readable_challenge c \<longleftrightarrow> json_challenge c \<and> int_id c \<and> balanced_challenge c"

lemma elements_loop_element:
  assumes "readable_challenge c"
  shows "\<exists>k' capacity'. elements_loop behind (\<lambda>_. True) k capacity cs (object_text (challenge_members c True) @ r) =
    elements_loop behind (\<lambda>_. True) k' capacity' (cs @ [c]) r"
proof -
  let ?s = "object_text (challenge_members c True) @ r"
  obtain t where t: "?s = CHR ''{'' # t" by (simp add: object_text_def)
  have w: "skip_whitespace ?s = CHR ''{'' # t" unfolding t by (simp add: is_json_space_def)
  have j: "json_to_challenge behind (Some (CHR ''{'' # t)) (Some zero_challenge) = Some (0, Some c)"
    using json_to_challenge_text[of c behind True r] assms unfolding readable_challenge_def t by simp
  have v: "skip_json_value (CHR ''{'' # t) = Some r"
    using skip_json_value_object[OF balanced_challenge_members, of c True r] assms
    unfolding t[symmetric] by (simp add: readable_challenge_def object_text_def)
  show ?thesis
    by (subst elements_loop.simps) (use w j v in \<open>auto simp: t\<close>)
qed

lemma elements_loop_text:
  assumes "\<forall>c \<in> set cs. readable_challenge c"
  shows "elements_loop behind (\<lambda>_. True) k capacity ds
      (commas (map (\<lambda>c. object_text (challenge_members c True)) cs) @ CHR '']'' # r) = Some (Some (ds @ cs))"
  using assms
proof (induction cs arbitrary: k capacity ds)
  case Nil
  show ?case by (subst elements_loop.simps) (simp add: is_json_space_def)
next
  case (Cons c cs)
  have comma: "elements_loop behind (\<lambda>_. True) k capacity ds (CHR '','' # s) = elements_loop behind (\<lambda>_. True) k capacity ds s"
    for k capacity ds s by (subst elements_loop.simps) (simp add: is_json_space_def)
  have c: "readable_challenge c" using Cons.prems by simp
  show ?case
  proof (cases "cs = []")
    case True
    obtain k' c' where "elements_loop behind (\<lambda>_. True) k capacity ds (object_text (challenge_members c True) @ CHR '']'' # r) =
        elements_loop behind (\<lambda>_. True) k' c' (ds @ [c]) (CHR '']'' # r)" using elements_loop_element[OF c] by blast
    then show ?thesis using Cons.IH[of k' c' "ds @ [c]"] True by simp
  next
    case False
    let ?r = "commas (map (\<lambda>c. object_text (challenge_members c True)) cs) @ CHR '']'' # r"
    obtain k' c' where "elements_loop behind (\<lambda>_. True) k capacity ds (object_text (challenge_members c True) @ CHR '','' # ?r) =
        elements_loop behind (\<lambda>_. True) k' c' (ds @ [c]) (CHR '','' # ?r)" using elements_loop_element[OF c] by blast
    then show ?thesis using Cons.IH[of k' c' "ds @ [c]"] Cons.prems False by (simp add: comma)
  qed
qed

section \<open>Properties\<close>

text \<open>
  C20.  What the server prints of challenges can be read back: for challenges whose strings are
  contents of JSON strings, \<open>json_to_challenge\<close> reads each printed object as the challenge it was
  printed from (without its flag from the public view).  Under the further condition that the braces
  inside the strings of every challenge are balanced, \<open>json_to_challenges\<close> reads the printed array as
  the list; without it the array may be refused (\<open>lone_brace_refused\<close>).
\<close>

theorem printed_challenges_read_back:
  assumes "\<forall>c \<in> set cs. json_challenge c \<and> int_id c" "cs \<noteq> []"
  shows "(\<forall>c \<in> set cs. \<forall>f out. \<exists>t n. challenge_to_json_impl True c False f = Some (Some t, n) \<and>
      json_to_challenge (drop n t) (Some (take n t)) (Some out) = Some (0, Some (if f then c else c\<lparr>flag := []\<rparr>))) \<and>
    ((\<forall>c \<in> set cs. balanced_challenge c) \<longrightarrow>
      (\<exists>t n. challenges_to_json (\<lambda>_. True) (Some cs) False json0 = Some (Some t, n) \<and>
        json_to_challenges (drop n t) (\<lambda>_. True) (Some (take n t)) = Some (Some cs)))"
proof (intro conjI ballI allI impI)
  fix c f out assume "c \<in> set cs"
  then have c: "json_challenge c" "int_id c" using assms(1) by auto
  show "\<exists>t n. challenge_to_json_impl True c False f = Some (Some t, n) \<and>
      json_to_challenge (drop n t) (Some (take n t)) (Some out) = Some (0, Some (if f then c else c\<lparr>flag := []\<rparr>))"
    using json_to_challenge_text[OF c, of "[CHR 0x00]" f "[]" out] c
    by (simp add: challenge_impl_text format_challenge_text)
next
  assume b: "\<forall>c \<in> set cs. balanced_challenge c"
  let ?t = "array_text (map (\<lambda>c. object_text (challenge_members c True)) cs)"
  have r: "\<forall>c \<in> set cs. readable_challenge c" using assms(1) b by (simp add: readable_challenge_def)
  have e: "map (\<lambda>c. format_challenge c True) cs = map (\<lambda>c. object_text (challenge_members c True)) cs"
    by (rule map_cong) (use assms(1) format_challenge_text in auto)
  have "challenges_to_json (\<lambda>_. True) (Some cs) False json0 = Some (Some (?t @ [CHR 0x00]), length ?t)"
    using challenges_impl_text[of cs True json0] assms unfolding e by (simp add: challenges_to_json_def Let_def)
  moreover have "json_to_challenges [CHR 0x00] (\<lambda>_. True) (Some ?t) = Some (Some cs)"
    using elements_loop_text[OF r, of "[CHR 0x00]" 1 4 "[]" "[]"]
    by (simp add: json_to_challenges_def array_text_def is_json_space_def)
  ultimately show "\<exists>t n. challenges_to_json (\<lambda>_. True) (Some cs) False json0 = Some (Some t, n) \<and>
        json_to_challenges (drop n t) (\<lambda>_. True) (Some (take n t)) = Some (Some cs)" by simp
qed

theorem printed_challenges_read_back_witness:
  \<open>json_to_challenges [CHR 0x00] (\<lambda>_. True) (Some (array_text [object_text (challenge_members
     \<lparr>ch_id = -7, creator_id = ''ab'', ch_name = ''n'', description = ''d'', flag = ''flag{x}'', genre = CTF_GENRE_PWN\<rparr> True)])) =
   Some (Some [\<lparr>ch_id = -7, creator_id = ''ab'', ch_name = ''n'', description = ''d'', flag = ''flag{x}'', genre = CTF_GENRE_PWN\<rparr>])\<close>
proof -
  let ?c = "\<lparr>ch_id = -7, creator_id = ''ab'', ch_name = ''n'', description = ''d'', flag = ''flag{x}'', genre = CTF_GENRE_PWN\<rparr>"
  have "list_all (\<lambda>t. parse_json_str (quoted t) = Some (t, []) \<and> balanced t) [''ab'', ''n'', ''d'', ''flag{x}'']" by code_simp
  then have c: "json_challenge ?c" "int_id ?c" "balanced_challenge ?c"
    by (simp_all add: parse_json_str_iff json_challenge_def int_id_def balanced_challenge_def INT_MAX_def)
  then obtain t n where t: "challenges_to_json (\<lambda>_. True) (Some [?c]) False (None, 0) = Some (Some t, n)"
      "json_to_challenges (drop n t) (\<lambda>_. True) (Some (take n t)) = Some (Some [?c])"
    using printed_challenges_read_back[of "[?c]" "(None, 0)"] by auto
  have "challenges_to_json (\<lambda>_. True) (Some [?c]) False (None, 0) =
      (let t = array_text [object_text (challenge_members ?c True)] in Some (Some (t @ [CHR 0x00]), length t))"
    using challenges_impl_text[of "[?c]" True "(None, 0)"] c by (simp add: challenges_to_json_def format_challenge_text)
  then show ?thesis using t by (auto simp: Let_def)
qed

text \<open>A brace that is alone in a string ends the element too early, and the array is refused.\<close>

lemma lone_brace_refused:
  \<open>json_to_challenge [] (Some ''{"name":"}"}'') (Some zero_challenge) = Some (0, Some (zero_challenge\<lparr>ch_name := ''}''\<rparr>))\<close>
  \<open>json_to_challenges [] (\<lambda>_. True) (Some ''[{"name":"}"}]'') = Some None\<close>
  by code_simp+

text \<open>The end of the input also ends an object.\<close>

lemma open_object_accepted: \<open>json_to_challenge [] (Some ''{'') (Some zero_challenge) = Some (0, Some zero_challenge)\<close>
  by code_simp

end
