(* ===== verification/Auth.thy ===== *)
theory Auth
  imports Printing
begin

text \<open>
  \<open>src/src/app/auth.c\<close>: the configuration, the identifiers, the tokens and the passwords.
  libsodium, jansson and libjwt are not part of the program: what the code calls of them is
  the record \<open>libs\<close> of functions that the definitions take as a parameter.
\<close>

datatype auth_result = AUTH_OK | AUTH_INVALID | AUTH_ERROR

definition AUTH_ID_LENGTH :: nat where "AUTH_ID_LENGTH = 32"
definition AUTH_TOKEN_MAX :: nat where "AUTH_TOKEN_MAX = 4096"
definition AUTH_CLOCK_SKEW :: int where "AUTH_CLOCK_SKEW = 30"
definition AUTH_TTL_MAX :: int where "AUTH_TTL_MAX = 86400"
definition AUTH_TIME_MAX :: int where "AUTH_TIME_MAX = 253402300799"
definition LONG_MAX :: int where "LONG_MAX = 2 ^ 63 - 1"
definition PWHASH_STRBYTES :: nat where "PWHASH_STRBYTES = 128"

section \<open>The libraries\<close>

text \<open>A value of jansson; an object keeps its members in iteration order.\<close>

datatype json = Json_string string | Json_integer int | Json_object "(string \<times> json) list" | Json_other

datatype json_load = Loaded json | Load_error | Load_no_memory

datatype jwt_status = Jwt_ok bool | Jwt_invalid | Jwt_no_memory

text \<open>
  \<open>sodium_ready\<close>: \<open>sodium_init\<close> does not fail.  \<open>pwhash\<close>: \<open>crypto_pwhash_str_alg\<close>, the hash
  string or \<open>None\<close>.  \<open>pwhash_verify\<close>: \<open>crypto_pwhash_str_verify\<close> returns 0.  \<open>hex2bin\<close>,
  \<open>bin2hex\<close>, \<open>base64_decode\<close> (for at most the given number of bytes): the codecs of
  libsodium.  \<open>json_loadb\<close>: jansson with \<open>JSON_REJECT_DUPLICATES\<close>.  \<open>jwt_decode\<close>: the
  verification of a token under a key, with the answer whether its algorithm is HS256.
  \<open>jwt_encode\<close>: the token that libjwt builds under a key from the text and the integer
  grants, or \<open>None\<close> when one of its calls fails.
\<close>

record libs =
  sodium_ready :: bool
  pwhash :: "string \<Rightarrow> string option"
  pwhash_verify :: "string \<Rightarrow> string \<Rightarrow> bool"
  hex2bin :: "nat \<Rightarrow> string \<Rightarrow> string option"
  bin2hex :: "string \<Rightarrow> string"
  base64_decode :: "nat \<Rightarrow> string \<Rightarrow> string option"
  json_loadb :: "string \<Rightarrow> json_load"
  jwt_decode :: "string \<Rightarrow> string \<Rightarrow> jwt_status"
  jwt_encode :: "string \<Rightarrow> (string \<times> string) list \<Rightarrow> (string \<times> int) list \<Rightarrow> string option"

definition strnlen :: "string \<Rightarrow> nat \<Rightarrow> nat" where
  "strnlen s n = min (length (cstr s)) n"

section \<open>Configuration\<close>

text \<open>The used bytes of the key, and the strings of the three character arrays.\<close>

record auth_config =
  config_key :: string
  issuer :: string
  audience :: string
  ttl :: int
  dummy_hash :: string

definition zero_config :: auth_config where
  "zero_config = \<lparr>config_key = [], issuer = [], audience = [], ttl = 0, dummy_hash = []\<rparr>"

definition valid_setting :: "string option \<Rightarrow> bool" where
  "valid_setting value =
     (case value of
        None \<Rightarrow> False
      | Some v \<Rightarrow>
          let len = strnlen v 129 in
          if len = 0 \<or> len > 128 then False
          else list_all (\<lambda>c. \<not> (c < CHR ''!'' \<or> CHR ''~'' < c)) (take len v))"

fun ttl_loop :: "string \<Rightarrow> int \<Rightarrow> int option" where
  "ttl_loop [] seconds = Some seconds"
| "ttl_loop (c # s) seconds =
     (if c < CHR ''0'' \<or> CHR ''9'' < c then None else ttl_loop s (seconds * 10 + int (of_char c) - 48))"

definition ttl_seconds :: "string option \<Rightarrow> int option" where
  "ttl_seconds t =
     (case t of
        None \<Rightarrow> Some 3600
      | Some v \<Rightarrow>
          let len = strnlen v 6 in
          if len = 0 \<or> len > 5 then None
          else (case ttl_loop (take len v) 0 of
                  None \<Rightarrow> None
                | Some seconds \<Rightarrow> if seconds < 1 \<or> seconds > AUTH_TTL_MAX then None else Some seconds))"

definition auth_config_load ::
  "libs \<Rightarrow> string option \<Rightarrow> string option \<Rightarrow> string option \<Rightarrow> string option \<Rightarrow> auth_result \<times> auth_config" where
  "auth_config_load L key_hex iss aud t =
     (case key_hex of
        None \<Rightarrow> (AUTH_INVALID, zero_config)
      | Some k \<Rightarrow>
          if \<not> valid_setting iss \<or> \<not> valid_setting aud then (AUTH_INVALID, zero_config)
          else
            let len = strnlen k 129 in
            if len < 64 \<or> len > 128 \<or> len mod 2 \<noteq> 0 then (AUTH_INVALID, zero_config)
            else (case ttl_seconds t of
                    None \<Rightarrow> (AUTH_INVALID, zero_config)
                  | Some seconds \<Rightarrow>
                      if \<not> sodium_ready L then (AUTH_ERROR, zero_config)
                      else (case hex2bin L 64 (take len k) of
                              None \<Rightarrow> (AUTH_INVALID, zero_config)
                            | Some key \<Rightarrow>
                                (AUTH_OK, \<lparr>config_key = key, issuer = cstr (the iss), audience = cstr (the aud),
                                   ttl = seconds, dummy_hash = []\<rparr>))))"

definition valid_config :: "auth_config \<Rightarrow> bool" where
  "valid_config config \<longleftrightarrow> length (config_key config) \<ge> 32 \<and> length (config_key config) \<le> 64 \<and>
     valid_setting (Some (issuer config)) \<and> valid_setting (Some (audience config)) \<and>
     ttl config \<ge> 1 \<and> ttl config \<le> AUTH_TTL_MAX"

section \<open>Identifiers\<close>

definition lower_hex :: "char \<Rightarrow> bool" where
  "lower_hex c \<longleftrightarrow> (CHR ''0'' \<le> c \<and> c \<le> CHR ''9'') \<or> (CHR ''a'' \<le> c \<and> c \<le> CHR ''f'')"

definition valid_id :: "string option \<Rightarrow> bool" where
  "valid_id i = (case i of None \<Rightarrow> False | Some s \<Rightarrow> if length s \<noteq> AUTH_ID_LENGTH then False else list_all lower_hex s)"

text \<open>
  \<open>random\<close> is the caller's source (\<open>Some None\<close> when it fails) or \<open>None\<close> for \<open>NULL\<close>, and
  \<open>system\<close> the bytes of \<open>randombytes_buf\<close>.
\<close>

definition auth_generate_id :: "libs \<Rightarrow> string option option \<Rightarrow> string \<Rightarrow> auth_result \<times> string" where
  "auth_generate_id L random system =
     (if \<not> sodium_ready L then (AUTH_ERROR, [])
      else (case random of
              Some None \<Rightarrow> (AUTH_ERROR, [])
            | Some (Some bytes) \<Rightarrow> (AUTH_OK, bin2hex L bytes)
            | None \<Rightarrow> (AUTH_OK, bin2hex L system)))"

section \<open>Tokens\<close>

definition auth_token_issue ::
  "libs \<Rightarrow> auth_config \<Rightarrow> string option \<Rightarrow> string option \<Rightarrow> int \<Rightarrow> auth_result \<times> string option" where
  "auth_token_issue L config user_id session_id now =
     (if \<not> valid_config config \<or> \<not> valid_id user_id \<or> \<not> valid_id session_id \<or> now < 0 \<or>
         now > AUTH_TIME_MAX - ttl config \<or> now > LONG_MAX - ttl config then (AUTH_INVALID, None)
      else
        (case jwt_encode L (config_key config)
           [(''iss'', issuer config), (''aud'', audience config), (''sub'', the user_id), (''jti'', the session_id)]
           [(''iat'', now), (''nbf'', now), (''exp'', now + ttl config)] of
           None \<Rightarrow> (AUTH_ERROR, None)
         | Some token \<Rightarrow> if length token > AUTH_TOKEN_MAX then (AUTH_ERROR, None) else (AUTH_OK, Some token)))"

record auth_claims =
  user_id :: string
  session_id :: string
  issued_at :: int
  not_before :: int
  expires_at :: int

definition zero_claims :: auth_claims where
  "zero_claims = \<lparr>user_id = [], session_id = [], issued_at = 0, not_before = 0, expires_at = 0\<rparr>"

text \<open>The members of the object, or the result to return.\<close>

definition decode_object :: "libs \<Rightarrow> string \<Rightarrow> auth_result + (string \<times> json) list" where
  "decode_object L t =
     (if length t = 0 then Inl AUTH_INVALID
      else (case base64_decode L AUTH_TOKEN_MAX t of
              None \<Rightarrow> Inl AUTH_INVALID
            | Some decoded \<Rightarrow>
                (case json_loadb L decoded of
                   Load_no_memory \<Rightarrow> Inl AUTH_ERROR
                 | Load_error \<Rightarrow> Inl AUTH_INVALID
                 | Loaded v \<Rightarrow> (case v of Json_object kvs \<Rightarrow> Inr kvs | _ \<Rightarrow> Inl AUTH_INVALID))))"

definition json_text_equals :: "json option \<Rightarrow> string \<Rightarrow> bool" where
  "json_text_equals v expected =
     (case v of Some (Json_string s) \<Rightarrow> length s = length expected \<and> s = expected | _ \<Rightarrow> False)"

definition read_time_claim :: "(string \<times> json) list \<Rightarrow> string \<Rightarrow> int option" where
  "read_time_claim claims name =
     (case map_of claims name of
        Some (Json_integer n) \<Rightarrow> if n < 0 \<or> n > AUTH_TIME_MAX then None else Some n
      | _ \<Rightarrow> None)"

definition read_id_claim :: "(string \<times> json) list \<Rightarrow> string \<Rightarrow> string option" where
  "read_id_claim claims name =
     (case map_of claims name of Some (Json_string s) \<Rightarrow> if valid_id (Some s) then Some s else None | _ \<Rightarrow> None)"

text \<open>The profile of the header: \<open>alg\<close>, and optionally \<open>typ\<close> with the value \<open>JWT\<close>.\<close>

definition header_members_ok :: "(string \<times> json) list \<Rightarrow> bool" where
  "header_members_ok header =
     list_all (\<lambda>(key, v). key = ''alg'' \<or> (key = ''typ'' \<and> json_text_equals (Some v) ''JWT'')) header"

definition read_claims :: "auth_config \<Rightarrow> int \<Rightarrow> (string \<times> json) list \<Rightarrow> auth_claims option" where
  "read_claims config now claims =
     (if \<not> json_text_equals (map_of claims ''iss'') (issuer config) \<or>
         \<not> json_text_equals (map_of claims ''aud'') (audience config) then None
      else do {
        u \<leftarrow> read_id_claim claims ''sub'';
        s \<leftarrow> read_id_claim claims ''jti'';
        iat \<leftarrow> read_time_claim claims ''iat'';
        nbf \<leftarrow> read_time_claim claims ''nbf'';
        exp \<leftarrow> read_time_claim claims ''exp'';
        if nbf < iat \<or> nbf \<ge> exp \<or> exp - iat > ttl config \<or> iat > now + AUTH_CLOCK_SKEW \<or>
           nbf > now + AUTH_CLOCK_SKEW \<or> now \<ge> exp + AUTH_CLOCK_SKEW then None
        else Some \<lparr>user_id = u, session_id = s, issued_at = iat, not_before = nbf, expires_at = exp\<rparr>
      })"

text \<open>The token up to, between and behind its two dots.\<close>

definition split_token :: "string \<Rightarrow> (string \<times> string \<times> string) option" where
  "split_token token = do {
     first \<leftarrow> memchr token (CHR ''.'');
     n \<leftarrow> memchr (drop (first + 1) token) (CHR ''.'');
     let second = first + 1 + n;
     let signature = drop (second + 1) token;
     if second + 1 = length token \<or> memchr signature (CHR ''.'') \<noteq> None then None
     else Some (take first token, take n (drop (first + 1) token), signature)
   }"

definition auth_token_verify ::
  "libs \<Rightarrow> auth_config \<Rightarrow> string option \<Rightarrow> int \<Rightarrow> auth_result \<times> auth_claims" where
  "auth_token_verify L config tok now =
     (case tok of
        None \<Rightarrow> (AUTH_INVALID, zero_claims)
      | Some token \<Rightarrow>
          if \<not> valid_config config \<or> length token = 0 \<or> length token > AUTH_TOKEN_MAX \<or>
             memchr token (CHR 0x00) \<noteq> None \<or> now < 0 \<or> now > AUTH_TIME_MAX then (AUTH_INVALID, zero_claims)
          else
            (case split_token token of
               None \<Rightarrow> (AUTH_INVALID, zero_claims)
             | Some (h, p, s) \<Rightarrow>
                 (case decode_object L h of
                    Inl r \<Rightarrow> (r, zero_claims)
                  | Inr header \<Rightarrow>
                      if \<not> json_text_equals (map_of header ''alg'') ''HS256'' then (AUTH_INVALID, zero_claims)
                      else if \<not> header_members_ok header then (AUTH_INVALID, zero_claims)
                      else
                        (case decode_object L p of
                           Inl r \<Rightarrow> (r, zero_claims)
                         | Inr claims \<Rightarrow>
                             (case base64_decode L 32 s of
                                None \<Rightarrow> (AUTH_INVALID, zero_claims)
                              | Some signature \<Rightarrow>
                                  if length signature \<noteq> 32 then (AUTH_INVALID, zero_claims)
                                  else
                                    (case jwt_decode L (config_key config) token of
                                       Jwt_no_memory \<Rightarrow> (AUTH_ERROR, zero_claims)
                                     | Jwt_invalid \<Rightarrow> (AUTH_INVALID, zero_claims)
                                     | Jwt_ok hs256 \<Rightarrow>
                                         if \<not> hs256 then (AUTH_INVALID, zero_claims)
                                         else (case read_claims config now claims of
                                                 None \<Rightarrow> (AUTH_INVALID, zero_claims)
                                               | Some parsed \<Rightarrow> (AUTH_OK, parsed))))))))"

section \<open>Passwords\<close>

definition valid_password :: "string option \<Rightarrow> bool" where
  "valid_password p = (case p of None \<Rightarrow> False
     | Some s \<Rightarrow> length s \<ge> 8 \<and> length s \<le> 128 \<and> memchr s (CHR 0x00) = None)"

definition auth_password_hash :: "libs \<Rightarrow> string option \<Rightarrow> auth_result \<times> string" where
  "auth_password_hash L p =
     (if \<not> valid_password p then (AUTH_INVALID, [])
      else if \<not> sodium_ready L then (AUTH_ERROR, [])
      else (case pwhash L (the p) of None \<Rightarrow> (AUTH_ERROR, []) | Some h \<Rightarrow> (AUTH_OK, h)))"

definition auth_password_verify :: "libs \<Rightarrow> auth_config option \<Rightarrow> string option \<Rightarrow> string option \<Rightarrow> auth_result" where
  "auth_password_verify L config stored_hash p =
     (if \<not> valid_password p then AUTH_INVALID
      else
        (case (case stored_hash of Some h \<Rightarrow> Some h | None \<Rightarrow> map_option dummy_hash config) of
           None \<Rightarrow> AUTH_ERROR
         | Some h \<Rightarrow>
             if strnlen h PWHASH_STRBYTES \<ge> PWHASH_STRBYTES \<or> take 10 (cstr h) \<noteq> ''$argon2id$'' then AUTH_ERROR
             else if \<not> sodium_ready L then AUTH_ERROR
             else if pwhash_verify L (cstr h) (the p) \<and> stored_hash \<noteq> None then AUTH_OK else AUTH_INVALID))"

text \<open>
  \<open>auth_init_from_env\<close>: \<open>env\<close> is the environment, \<open>random\<close> the 32 bytes for the password
  behind the dummy hash.
\<close>

definition auth_init_from_env :: "libs \<Rightarrow> (string \<Rightarrow> string option) \<Rightarrow> string \<Rightarrow> auth_result \<times> auth_config" where
  "auth_init_from_env L env random =
     (let (result, config) =
        auth_config_load L (env ''JWT_KEY_HEX'') (env ''JWT_ISSUER'') (env ''JWT_AUDIENCE'') (env ''JWT_TTL_SECONDS'') in
      if result \<noteq> AUTH_OK then (result, config)
      else
        let (r, h) = auth_password_hash L (Some (take 64 (bin2hex L random))) in
        if r \<noteq> AUTH_OK then (r, zero_config) else (r, config\<lparr>dummy_hash := h\<rparr>))"


section \<open>Specification\<close>

definition claims_ok :: "auth_config \<Rightarrow> int \<Rightarrow> (string \<times> json) list \<Rightarrow> auth_claims \<Rightarrow> bool" where
  "claims_ok config now claims c \<longleftrightarrow>
     map_of claims ''iss'' = Some (Json_string (issuer config)) \<and>
     map_of claims ''aud'' = Some (Json_string (audience config)) \<and>
     map_of claims ''sub'' = Some (Json_string (user_id c)) \<and> valid_id (Some (user_id c)) \<and>
     map_of claims ''jti'' = Some (Json_string (session_id c)) \<and> valid_id (Some (session_id c)) \<and>
     map_of claims ''iat'' = Some (Json_integer (issued_at c)) \<and>
     map_of claims ''nbf'' = Some (Json_integer (not_before c)) \<and>
     map_of claims ''exp'' = Some (Json_integer (expires_at c)) \<and>
     0 \<le> issued_at c \<and> issued_at c \<le> not_before c \<and> not_before c < expires_at c \<and> expires_at c \<le> AUTH_TIME_MAX \<and>
     expires_at c \<le> issued_at c + ttl config \<and>
     not_before c \<le> now + AUTH_CLOCK_SKEW \<and> now < expires_at c + AUTH_CLOCK_SKEW"

definition token_parts :: "string \<Rightarrow> string \<Rightarrow> string \<Rightarrow> string \<Rightarrow> bool" where
  "token_parts token h p s \<longleftrightarrow>
     token = h @ CHR ''.'' # p @ CHR ''.'' # s \<and> CHR ''.'' \<notin> set (h @ p @ s) \<and> s \<noteq> []"

text \<open>The header is of the profile, the signature is a valid HS256 signature, the claims are in order.\<close>

definition parts_ok :: "libs \<Rightarrow> auth_config \<Rightarrow> string \<Rightarrow> int \<Rightarrow> auth_claims \<Rightarrow> string \<Rightarrow> string \<Rightarrow> string \<Rightarrow> bool" where
  "parts_ok L config token now c h p s \<longleftrightarrow> (\<exists>header claims.
     decode_object L h = Inr header \<and> map_of header ''alg'' = Some (Json_string ''HS256'') \<and>
     (\<forall>(k, v) \<in> set header. k = ''alg'' \<or> k = ''typ'' \<and> v = Json_string ''JWT'') \<and>
     decode_object L p = Inr claims \<and>
     (\<exists>signature. base64_decode L 32 s = Some signature \<and> length signature = 32) \<and>
     jwt_decode L (config_key config) token = Jwt_ok True \<and> claims_ok config now claims c)"

definition token_accepted :: "libs \<Rightarrow> auth_config \<Rightarrow> string \<Rightarrow> int \<Rightarrow> auth_claims \<Rightarrow> bool" where
  "token_accepted L config token now c \<longleftrightarrow>
     valid_config config \<and> 0 \<le> now \<and> now \<le> AUTH_TIME_MAX \<and> length token \<le> AUTH_TOKEN_MAX \<and> CHR 0x00 \<notin> set token \<and>
     (\<exists>h p s. token_parts token h p s \<and> parts_ok L config token now c h p s)"

lemma json_text_equals_iff: "json_text_equals v t \<longleftrightarrow> v = Some (Json_string t)"
  by (auto simp: json_text_equals_def split: option.splits json.splits)

lemma header_members_ok_iff:
  "header_members_ok header \<longleftrightarrow> (\<forall>(k, v) \<in> set header. k = ''alg'' \<or> k = ''typ'' \<and> v = Json_string ''JWT'')"
  by (auto simp: header_members_ok_def list_all_iff json_text_equals_iff)

lemma read_id_claim_iff:
  "read_id_claim claims n = Some s \<longleftrightarrow> map_of claims n = Some (Json_string s) \<and> valid_id (Some s)"
  by (auto simp: read_id_claim_def split: option.splits json.splits if_splits)

lemma read_time_claim_iff:
  "read_time_claim claims n = Some t \<longleftrightarrow> map_of claims n = Some (Json_integer t) \<and> 0 \<le> t \<and> t \<le> AUTH_TIME_MAX"
  by (auto simp: read_time_claim_def split: option.splits json.splits if_splits)

lemma read_claims_iff: "read_claims config now claims = Some c \<longleftrightarrow> claims_ok config now claims c"
proof
  assume a: "read_claims config now claims = Some c"
  then show "claims_ok config now claims c"
    by (auto simp: read_claims_def claims_ok_def json_text_equals_iff read_id_claim_iff read_time_claim_iff
        bind_eq_Some_conv split: if_splits)
next
  assume a: "claims_ok config now claims c"
  then have "read_id_claim claims ''sub'' = Some (user_id c)" "read_id_claim claims ''jti'' = Some (session_id c)"
    "read_time_claim claims ''iat'' = Some (issued_at c)" "read_time_claim claims ''nbf'' = Some (not_before c)"
    "read_time_claim claims ''exp'' = Some (expires_at c)"
    unfolding read_id_claim_iff read_time_claim_iff claims_ok_def by auto
  then show "read_claims config now claims = Some c"
    using a by (simp add: read_claims_def claims_ok_def json_text_equals_iff)
qed

lemma memchr_split:
  "memchr s c = Some n \<longleftrightarrow> (\<exists>t. s = take n s @ c # t \<and> n < length s \<and> c \<notin> set (take n s))"
proof
  assume "memchr s c = Some n"
  then show "\<exists>t. s = take n s @ c # t \<and> n < length s \<and> c \<notin> set (take n s)"
    using memchr_Some[of s c n] id_take_nth_drop[of n s] by auto
next
  assume "\<exists>t. s = take n s @ c # t \<and> n < length s \<and> c \<notin> set (take n s)"
  then obtain t where s: "s = take n s @ c # t" "n < length s" "c \<notin> set (take n s)" by blast
  define h where "h = take n s"
  have h: "s = h @ c # t" "c \<notin> set h" "length h = n" using s unfolding h_def by auto
  have "takeWhile (\<lambda>x. x \<noteq> c) s = h" unfolding h(1) using h(2) by (subst takeWhile_append2) auto
  then show "memchr s c = Some n" using h by (simp add: memchr_def)
qed

lemma memchr_append: "c \<notin> set h \<Longrightarrow> memchr (h @ c # t) c = Some (length h)"
  by (subst memchr_split) auto

lemma split_token_iff: "split_token token = Some (h, p, s) \<longleftrightarrow> token_parts token h p s"
proof
  assume a: "split_token token = Some (h, p, s)"
  then obtain m n where m: "memchr token (CHR ''.'') = Some m" and n: "memchr (drop (m + 1) token) (CHR ''.'') = Some n"
    and r: "m + 1 + n + 1 \<noteq> length token" "memchr (drop (m + 1 + n + 1) token) (CHR ''.'') = None"
    "h = take m token" "p = take n (drop (m + 1) token)" "s = drop (m + 1 + n + 1) token"
    by (auto simp: split_token_def bind_eq_Some_conv Let_def split: if_splits)
  obtain t where t0: "token = take m token @ CHR ''.'' # t" "m < length token" "CHR ''.'' \<notin> set (take m token)"
    using m memchr_split by metis
  then have t: "token = h @ CHR ''.'' # t" "CHR ''.'' \<notin> set h" "length h = m" using r(3) by simp_all
  have d: "drop (m + 1) token = t" by (subst t(1)) (simp add: t(3)[symmetric])
  obtain u where u0: "t = take n t @ CHR ''.'' # u" "n < length t" "CHR ''.'' \<notin> set (take n t)"
    using n memchr_split unfolding d by metis
  then have u: "t = p @ CHR ''.'' # u" "CHR ''.'' \<notin> set p" "length p = n" using r(4) unfolding d by simp_all
  have "drop (m + 1 + n + 1) token = drop (n + 1) t" using d by (metis add.assoc drop_drop add.commute)
  also have "\<dots> = u" by (subst u(1)) (simp add: u(3)[symmetric])
  finally have su: "s = u" using r(5) by simp
  have "length token = m + 1 + n + 1 + length s" by (subst t(1), subst u(1)) (simp add: t(3) u(3) su)
  then have "s \<noteq> []" using r(1) by auto
  moreover have "CHR ''.'' \<notin> set s" using r(2,5) by (simp add: memchr_None)
  moreover have "token = h @ CHR ''.'' # p @ CHR ''.'' # s" using t(1) u(1) su by blast
  ultimately show "token_parts token h p s" using t(2) u(2) by (simp add: token_parts_def)
next
  assume a: "token_parts token h p s"
  then have "memchr token (CHR ''.'') = Some (length h)" "memchr (drop (length h + 1) token) (CHR ''.'') = Some (length p)"
    "memchr s (CHR ''.'') = None"
    using memchr_append[of "CHR ''.''" h] memchr_append[of "CHR ''.''" p s] by (auto simp: memchr_def token_parts_def)
  then show "split_token token = Some (h, p, s)" using a by (simp add: split_token_def token_parts_def)
qed

lemma decode_object_error: "decode_object L t \<noteq> Inl AUTH_OK"
  by (auto simp: decode_object_def split: option.splits json_load.splits json.splits)

text \<open>The last checks of \<open>auth_token_verify\<close>, once the token has been split.\<close>

lemma verify_parts:
  assumes "valid_config config" "0 \<le> now" "now \<le> AUTH_TIME_MAX" "length token \<le> AUTH_TOKEN_MAX" "CHR 0x00 \<notin> set token"
    "token \<noteq> []" "split_token token = Some (h, p, s)"
  shows "auth_token_verify L config (Some token) now = (AUTH_OK, c) \<longleftrightarrow> parts_ok L config token now c h p s"
proof -
  have g: "\<not> (\<not> valid_config config \<or> length token = 0 \<or> length token > AUTH_TOKEN_MAX \<or>
    memchr token (CHR 0x00) \<noteq> None \<or> now < 0 \<or> now > AUTH_TIME_MAX)"
    using assms by (simp add: memchr_None)
  show ?thesis
    using decode_object_error[of L h] decode_object_error[of L p]
    unfolding auth_token_verify_def option.case if_not_P[OF g] assms(7) prod.case parts_ok_def
      header_members_ok_iff[symmetric] read_claims_iff[symmetric] json_text_equals_iff
    by (cases "decode_object L h"; cases "decode_object L p"; cases "base64_decode L 32 s";
        cases "jwt_decode L (config_key config) token"; cases "read_claims config now (projr (decode_object L p))") auto
qed

lemma auth_token_verify_iff:
  "auth_token_verify L config (Some token) now = (AUTH_OK, c) \<longleftrightarrow> token_accepted L config token now c"
proof (cases "\<not> valid_config config \<or> length token = 0 \<or> length token > AUTH_TOKEN_MAX \<or>
    memchr token (CHR 0x00) \<noteq> None \<or> now < 0 \<or> now > AUTH_TIME_MAX")
  case True
  then have "auth_token_verify L config (Some token) now = (AUTH_INVALID, zero_claims)"
    unfolding auth_token_verify_def option.case by (rule if_P)
  moreover have "\<not> token_accepted L config token now c"
    using True by (auto simp: token_accepted_def memchr_def token_parts_def split: if_splits)
  ultimately show ?thesis by simp
next
  case False
  note ok = this
  then have g: "valid_config config" "0 \<le> now" "now \<le> AUTH_TIME_MAX" "length token \<le> AUTH_TOKEN_MAX" "CHR 0x00 \<notin> set token"
    "token \<noteq> []" by (simp_all add: memchr_None)
  show ?thesis
  proof (cases "split_token token")
    case None
    then have "\<nexists>h p s. token_parts token h p s" using split_token_iff[of token] by (metis option.distinct(1))
    then have "\<not> token_accepted L config token now c" unfolding token_accepted_def by blast
    moreover have "auth_token_verify L config (Some token) now = (AUTH_INVALID, zero_claims)"
      unfolding auth_token_verify_def option.case if_not_P[OF ok] None by (rule refl)
    ultimately show ?thesis by simp
  next
    case (Some x)
    then obtain h p s where x: "split_token token = Some (h, p, s)" by (cases x) auto
    have "token_parts token h' p' s' \<longleftrightarrow> h' = h \<and> p' = p \<and> s' = s" for h' p' s'
      using split_token_iff[of token h' p' s'] x by auto
    then have "token_accepted L config token now c \<longleftrightarrow> parts_ok L config token now c h p s"
      using g by (simp add: token_accepted_def)
    then show ?thesis using verify_parts[OF g x] by simp
  qed
qed

lemma auth_token_verify_zero:
  "fst (auth_token_verify L config tok now) \<noteq> AUTH_OK \<Longrightarrow> snd (auth_token_verify L config tok now) = zero_claims"
  by (auto simp: auth_token_verify_def split: sum.splits option.splits jwt_status.splits if_splits prod.splits)


section \<open>Issuing\<close>

text \<open>
  What libjwt, jansson and libsodium promise about a token built from text grants \<open>ts\<close> and
  integer grants \<open>ns\<close>: it consists of three parts without dots, the first decodes to the
  header of an HS256 token, the second to an object with exactly these grants, the third is
  an HS256 signature, and the token verifies under the same key.
\<close>

definition jwt_roundtrip :: "libs \<Rightarrow> string \<Rightarrow> (string \<times> string) list \<Rightarrow> (string \<times> int) list \<Rightarrow> bool" where
  "jwt_roundtrip L key ts ns \<longleftrightarrow> (\<forall>token. jwt_encode L key ts ns = Some token \<longrightarrow>
     CHR 0x00 \<notin> set token \<and> jwt_decode L key token = Jwt_ok True \<and>
     (\<exists>h p s. token_parts token h p s \<and>
        (\<exists>signature. base64_decode L 32 s = Some signature \<and> length signature = 32) \<and>
        decode_object L h = Inr [(''alg'', Json_string ''HS256''), (''typ'', Json_string ''JWT'')] \<and>
        (\<exists>claims. decode_object L p = Inr claims \<and>
           map_of claims = map_of (map (\<lambda>(k, v). (k, Json_string v)) ts @ map (\<lambda>(k, v). (k, Json_integer v)) ns))))"

lemma auth_token_issue_OK:
  assumes "auth_token_issue L config u s now = (AUTH_OK, Some token)"
  shows "valid_config config \<and> valid_id u \<and> valid_id s \<and> 0 \<le> now \<and> now + ttl config \<le> AUTH_TIME_MAX \<and>
    length token \<le> AUTH_TOKEN_MAX \<and>
    jwt_encode L (config_key config)
      [(''iss'', issuer config), (''aud'', audience config), (''sub'', the u), (''jti'', the s)]
      [(''iat'', now), (''nbf'', now), (''exp'', now + ttl config)] = Some token"
  using assms by (auto simp: auth_token_issue_def split: if_splits option.splits)

lemma issue_verify:
  assumes iss: "auth_token_issue L config (Some u) (Some s) now = (AUTH_OK, Some token)"
    and lib: "jwt_roundtrip L (config_key config)
      [(''iss'', issuer config), (''aud'', audience config), (''sub'', u), (''jti'', s)]
      [(''iat'', now), (''nbf'', now), (''exp'', now + ttl config)]"
    and later: "0 \<le> t" "t \<le> AUTH_TIME_MAX"
  shows "auth_token_verify L config (Some token) t =
    (if now \<le> t + AUTH_CLOCK_SKEW \<and> t < now + ttl config + AUTH_CLOCK_SKEW
     then (AUTH_OK, \<lparr>user_id = u, session_id = s, issued_at = now, not_before = now, expires_at = now + ttl config\<rparr>)
     else (AUTH_INVALID, zero_claims))"
proof -
  note i = auth_token_issue_OK[OF iss, unfolded option.sel]
  obtain h p sg where parts: "token_parts token h p sg"
    and sig: "\<exists>signature. base64_decode L 32 sg = Some signature \<and> length signature = 32"
    and hd: "decode_object L h = Inr [(''alg'', Json_string ''HS256''), (''typ'', Json_string ''JWT'')]"
    and cl: "\<exists>claims. decode_object L p = Inr claims \<and> map_of claims =
       map_of (map (\<lambda>(k, v). (k, Json_string v)) [(''iss'', issuer config), (''aud'', audience config), (''sub'', u), (''jti'', s)] @
         map (\<lambda>(k, v). (k, Json_integer v)) [(''iat'', now), (''nbf'', now), (''exp'', now + ttl config)])"
    and nul: "CHR 0x00 \<notin> set token" and dec: "jwt_decode L (config_key config) token = Jwt_ok True"
    using lib i unfolding jwt_roundtrip_def by blast
  obtain claims where c: "decode_object L p = Inr claims" and m: "map_of claims =
       map_of (map (\<lambda>(k, v). (k, Json_string v)) [(''iss'', issuer config), (''aud'', audience config), (''sub'', u), (''jti'', s)] @
         map (\<lambda>(k, v). (k, Json_integer v)) [(''iat'', now), (''nbf'', now), (''exp'', now + ttl config)])"
    using cl by blast
  have vals: "map_of claims ''iss'' = Some (Json_string (issuer config))" "map_of claims ''aud'' = Some (Json_string (audience config))"
    "map_of claims ''sub'' = Some (Json_string u)" "map_of claims ''jti'' = Some (Json_string s)"
    "map_of claims ''iat'' = Some (Json_integer now)" "map_of claims ''nbf'' = Some (Json_integer now)"
    "map_of claims ''exp'' = Some (Json_integer (now + ttl config))" unfolding m by simp_all
  have ttl: "1 \<le> ttl config" using i by (simp add: valid_config_def)
  let ?c = "\<lparr>user_id = u, session_id = s, issued_at = now, not_before = now, expires_at = now + ttl config\<rparr>"
  have co: "claims_ok config t claims c' \<longleftrightarrow> c' = ?c \<and> now \<le> t + AUTH_CLOCK_SKEW \<and> t < now + ttl config + AUTH_CLOCK_SKEW" for c'
    using vals i ttl by (cases c') (auto simp: claims_ok_def)
  have split: "split_token token = Some (h, p, sg)" using parts split_token_iff by blast
  have ne: "token \<noteq> []" using parts by (auto simp: token_parts_def)
  have ok: "auth_token_verify L config (Some token) t = (AUTH_OK, c') \<longleftrightarrow>
      c' = ?c \<and> now \<le> t + AUTH_CLOCK_SKEW \<and> t < now + ttl config + AUTH_CLOCK_SKEW" for c'
    unfolding verify_parts[OF _ later _ nul ne split, OF i[THEN conjunct1] i[THEN conjunct2, THEN conjunct2, THEN conjunct2, THEN conjunct2, THEN conjunct2, THEN conjunct1]]
      parts_ok_def hd c sum.inject dec using sig co by simp
  show ?thesis
  proof (cases "now \<le> t + AUTH_CLOCK_SKEW \<and> t < now + ttl config + AUTH_CLOCK_SKEW")
    case True
    then show ?thesis using ok[of ?c] by simp
  next
    case False
    have g: "\<not> (\<not> valid_config config \<or> length token = 0 \<or> length token > AUTH_TOKEN_MAX \<or>
      memchr token (CHR 0x00) \<noteq> None \<or> t < 0 \<or> t > AUTH_TIME_MAX)" using i ne nul later by (simp add: memchr_None)
    have rc: "read_claims config t claims = None" using co False read_claims_iff[of config t claims] by (cases "read_claims config t claims") auto
    obtain signature where sg: "base64_decode L 32 sg = Some signature" "length signature = 32" using sig by blast
    have "auth_token_verify L config (Some token) t = (AUTH_INVALID, zero_claims)"
      unfolding auth_token_verify_def option.case if_not_P[OF g] split prod.case hd c sg(1) dec rc sum.case jwt_status.case
      using sg(2) by (simp add: json_text_equals_iff header_members_ok_def)
    then show ?thesis using False by simp
  qed
qed


lemma config_load_valid:
  assumes "auth_config_load L k iss aud t = (AUTH_OK, config)"
    and hex: "\<And>n s key. hex2bin L n s = Some key \<Longrightarrow> 2 * length key = length s"
  shows "valid_config config \<and> config_key config \<noteq> [] \<and> no_nul (issuer config) \<and> no_nul (audience config)"
proof -
  obtain key seconds where k: "k = Some key" and v: "valid_setting iss" "valid_setting aud"
    and len: "64 \<le> strnlen key 129" "strnlen key 129 \<le> 128" and t: "ttl_seconds t = Some seconds"
    and c: "hex2bin L 64 (take (strnlen key 129) key) = Some (config_key config)" "issuer config = cstr (the iss)"
      "audience config = cstr (the aud)" "ttl config = seconds"
    using assms(1) by (auto simp: auth_config_load_def Let_def split: option.splits if_splits)
  have "strnlen key 129 \<le> length key" using length_cstr[of key] by (simp add: strnlen_def)
  then have "length (take (strnlen key 129) key) = strnlen key 129" by simp
  then have kl: "32 \<le> length (config_key config)" "length (config_key config) \<le> 64" using hex[OF c(1)] len by simp_all
  have s: "1 \<le> seconds \<and> seconds \<le> AUTH_TTL_MAX"
    using t by (auto simp: ttl_seconds_def AUTH_TTL_MAX_def Let_def split: option.splits if_splits)
  have vs: "valid_setting (Some (cstr (the x)))" if set: "valid_setting x" for x
  proof -
    obtain w where w: "x = Some w" using set by (cases x) (auto simp: valid_setting_def)
    have c: "cstr (cstr w) = cstr w" using no_nul_cstr by simp
    have t: "take (length (cstr w)) w = cstr w" by (simp add: cstr_def takeWhile_eq_take[symmetric])
    have l: "strnlen w 129 = length (cstr w)" using set w by (auto simp: valid_setting_def strnlen_def Let_def split: if_splits)
    then have "strnlen (cstr w) 129 = length (cstr w)" by (simp add: strnlen_def c)
    then show ?thesis using set w l t by (simp add: valid_setting_def Let_def split: if_splits)
  qed
  show ?thesis unfolding valid_config_def using kl s vs[OF v(1)] vs[OF v(2)] c no_nul_cstr by auto
qed

section \<open>Properties\<close>

text \<open>
  C12.  Verification of tokens: a token is accepted with the claims \<open>c\<close> exactly when it
  consists of three parts, the header object has \<open>alg\<close> \<open>HS256\<close> and no other member than
  \<open>typ\<close> \<open>JWT\<close>, libjwt verifies the 32-byte HS256 signature under the configured key, issuer
  and audience are the configured ones, subject and token identifier are 32 lower case
  hexadecimal digits, the lifetime is in order and not longer than the configured one, and
  the clock is inside it up to a skew of 30 seconds.  In every other case no claim is handed
  out.
\<close>

theorem auth_token_verify_correct:
  "(auth_token_verify L config (Some token) now = (AUTH_OK, c) \<longleftrightarrow> token_accepted L config token now c) \<and>
   (fst (auth_token_verify L config tok now) = AUTH_OK \<or> snd (auth_token_verify L config tok now) = zero_claims)"
  using auth_token_verify_iff auth_token_verify_zero by blast

text \<open>
  C13.  Issued tokens: for libraries that decode what they encode, a token issued at \<open>now\<close> for
  a user and a session verifies at every later time up to its expiry (plus the skew) and
  yields exactly this user, this session and these times, and at no other time.
\<close>

theorem auth_token_issue_verify:
  assumes "auth_token_issue L config (Some u) (Some s) now = (AUTH_OK, Some token)"
    and "jwt_roundtrip L (config_key config)
      [(''iss'', issuer config), (''aud'', audience config), (''sub'', u), (''jti'', s)]
      [(''iat'', now), (''nbf'', now), (''exp'', now + ttl config)]"
    and "0 \<le> t" "t \<le> AUTH_TIME_MAX"
  shows "auth_token_verify L config (Some token) t =
    (if now \<le> t + AUTH_CLOCK_SKEW \<and> t < now + ttl config + AUTH_CLOCK_SKEW
     then (AUTH_OK, \<lparr>user_id = u, session_id = s, issued_at = now, not_before = now, expires_at = now + ttl config\<rparr>)
     else (AUTH_INVALID, zero_claims))"
  using assms by (rule issue_verify)

definition example_config :: auth_config where
  "example_config = \<lparr>config_key = replicate 32 (CHR ''k''), issuer = ''i'', audience = ''a'', ttl = 3600, dummy_hash = []\<rparr>"

definition example_id :: string where "example_id = replicate 32 (CHR ''0'')"

definition example_libs :: libs where
  "example_libs = \<lparr>sodium_ready = True, pwhash = (\<lambda>p. None), pwhash_verify = (\<lambda>h p. False), hex2bin = (\<lambda>n s. None),
     bin2hex = id, base64_decode = (\<lambda>n s. if s = ''s'' then Some (replicate 32 (CHR ''s'')) else Some s),
     json_loadb = (\<lambda>s. if s = ''h'' then Loaded (Json_object [(''alg'', Json_string ''HS256''), (''typ'', Json_string ''JWT'')])
       else Loaded (Json_object [(''iss'', Json_string ''i''), (''aud'', Json_string ''a''), (''sub'', Json_string example_id),
         (''jti'', Json_string example_id), (''iat'', Json_integer 1000), (''nbf'', Json_integer 1000),
         (''exp'', Json_integer 4600)])),
     jwt_decode = (\<lambda>k t. Jwt_ok True), jwt_encode = (\<lambda>k ts ns. Some ''h.p.s'')\<rparr>"

theorem auth_token_issue_verify_witness:
  "auth_token_verify example_libs example_config (Some ''h.p.s'') 4629 =
     (AUTH_OK, \<lparr>user_id = example_id, session_id = example_id, issued_at = 1000, not_before = 1000, expires_at = 4600\<rparr>) \<and>
   auth_token_verify example_libs example_config (Some ''h.p.s'') 4630 = (AUTH_INVALID, zero_claims)"
proof -
  have i: "auth_token_issue example_libs example_config (Some example_id) (Some example_id) 1000 = (AUTH_OK, Some ''h.p.s'')"
    by code_simp
  have d: "decode_object example_libs ''h'' = Inr [(''alg'', Json_string ''HS256''), (''typ'', Json_string ''JWT'')]"
    "decode_object example_libs ''p'' = Inr [(''iss'', Json_string ''i''), (''aud'', Json_string ''a''), (''sub'', Json_string example_id),
         (''jti'', Json_string example_id), (''iat'', Json_integer 1000), (''nbf'', Json_integer 1000),
         (''exp'', Json_integer 4600)]"
    by (simp_all add: decode_object_def example_libs_def)
  have b: "base64_decode example_libs 32 ''s'' = Some (replicate 32 (CHR ''s''))" by (simp add: example_libs_def)
  have p: "token_parts ''h.p.s'' ''h'' ''p'' ''s''" by (simp add: token_parts_def)
  have r: "jwt_roundtrip example_libs (config_key example_config)
      [(''iss'', issuer example_config), (''aud'', audience example_config), (''sub'', example_id), (''jti'', example_id)]
      [(''iat'', 1000), (''nbf'', 1000), (''exp'', 1000 + ttl example_config)]"
  proof -
    have "jwt_encode example_libs (config_key example_config)
      [(''iss'', issuer example_config), (''aud'', audience example_config), (''sub'', example_id), (''jti'', example_id)]
      [(''iat'', 1000), (''nbf'', 1000), (''exp'', 1000 + ttl example_config)] = Some ''h.p.s''"
      "jwt_decode example_libs (config_key example_config) ''h.p.s'' = Jwt_ok True" by (simp_all add: example_libs_def)
    moreover have "\<exists>h p s. token_parts ''h.p.s'' h p s \<and>
        (\<exists>signature. base64_decode example_libs 32 s = Some signature \<and> length signature = 32) \<and>
        decode_object example_libs h = Inr [(''alg'', Json_string ''HS256''), (''typ'', Json_string ''JWT'')] \<and>
        (\<exists>claims. decode_object example_libs p = Inr claims \<and> map_of claims = map_of (map (\<lambda>(k, v). (k, Json_string v))
            [(''iss'', issuer example_config), (''aud'', audience example_config), (''sub'', example_id), (''jti'', example_id)] @
          map (\<lambda>(k, v). (k, Json_integer v)) [(''iat'', 1000), (''nbf'', 1000), (''exp'', 1000 + ttl example_config)]))"
      by (rule exI[of _ "''h''"], rule exI[of _ "''p''"], rule exI[of _ "''s''"]) (simp add: p d b example_config_def)
    ultimately show ?thesis unfolding jwt_roundtrip_def by simp
  qed
  show ?thesis
    using auth_token_issue_verify[OF i r, of 4629] auth_token_issue_verify[OF i r, of 4630]
    by (simp add: AUTH_TIME_MAX_def AUTH_CLOCK_SKEW_def example_config_def)
qed

text \<open>
  Passwords: a verification succeeds exactly for a stored argon2id hash that fits its
  column and that libsodium accepts for a password of 8 to 128 bytes without NUL; in
  particular the dummy hash, which is used when there is no stored one, never succeeds.
\<close>

theorem auth_password_verify_correct:
  "auth_password_verify L config stored p = AUTH_OK \<longleftrightarrow>
    (\<exists>h q. stored = Some h \<and> p = Some q \<and> 8 \<le> length q \<and> length q \<le> 128 \<and> CHR 0x00 \<notin> set q \<and>
       length (cstr h) < PWHASH_STRBYTES \<and> take 10 (cstr h) = ''$argon2id$'' \<and> sodium_ready L \<and> pwhash_verify L (cstr h) q)"
  by (auto simp: auth_password_verify_def valid_password_def memchr_None strnlen_def split: option.splits if_splits)

text \<open>
  C40.  The configuration that is loaded satisfies what the token routines check of it: a key of
  32 to 64 bytes, an issuer and an audience of 1 to 128 printable characters, a lifetime of
  1 to 86400 seconds.
\<close>

theorem auth_config_load_valid:
  assumes "auth_config_load L k iss aud t = (AUTH_OK, config)"
    and "\<And>n s key. hex2bin L n s = Some key \<Longrightarrow> 2 * length key = length s"
  shows "valid_config config \<and> config_key config \<noteq> [] \<and> no_nul (issuer config) \<and> no_nul (audience config)"
  using assms by (rule config_load_valid)

theorem auth_config_load_valid_witness:
  "valid_config \<lparr>config_key = replicate 32 (CHR ''a''), issuer = ''i'', audience = ''a'', ttl = 86400, dummy_hash = []\<rparr>"
proof -
  let ?L = "example_libs\<lparr>hex2bin := \<lambda>n s. if s = replicate 64 (CHR ''6'') then Some (replicate 32 (CHR ''a'')) else None\<rparr>"
  have "auth_config_load ?L (Some (replicate 64 (CHR ''6''))) (Some ''i'') (Some ''a'') (Some ''86400'') =
      (AUTH_OK, \<lparr>config_key = replicate 32 (CHR ''a''), issuer = ''i'', audience = ''a'', ttl = 86400, dummy_hash = []\<rparr>)"
    by code_simp
  moreover have "\<And>n s key. hex2bin ?L n s = Some key \<Longrightarrow> 2 * length key = length s" by (auto split: if_splits)
  ultimately show ?thesis using auth_config_load_valid[of ?L] by blast
qed

end
