(* ===== verification/Repository.thy ===== *)
theory Repository
  imports Db Model JsonParser Score Auth
begin

text \<open>
  \<open>src/src/app/repository.c\<close> and \<open>repository_auth.c\<close>: from the rows of a result to the data of
  the application.  A row has as many fields as the result; a field is \<open>NULL\<close> or its bytes, which
  the library terminates by a NUL.  \<open>alloc\<close>: the allocations of the routine succeed.
\<close>

definition genre_of_int :: "int \<Rightarrow> ctf_genre" where
  "genre_of_int n =
     (if n = 0 then CTF_GENRE_WEB else if n = 1 then CTF_GENRE_CRYPTO else if n = 2 then CTF_GENRE_PWN
      else if n = 3 then CTF_GENRE_REV else if n = 4 then CTF_GENRE_FORENSICS
      else if n = 5 then CTF_GENRE_OSINT else CTF_GENRE_MISC)"

text \<open>The loops over the rows; a missing row is an error.\<close>

fun bind_rows :: "(mysql_row \<Rightarrow> 'a option) \<Rightarrow> nat \<Rightarrow> mysql_row list \<Rightarrow> 'a list option" where
  "bind_rows f n [] = (if n = 0 then Some [] else None)"
| "bind_rows f n (row # rows) =
     (if n = 0 then Some [] else do { x \<leftarrow> f row; xs \<leftarrow> bind_rows f (n - 1) rows; Some (x # xs) })"

section \<open>Challenges\<close>

definition CHALLENGE_SIZE :: nat where "CHALLENGE_SIZE = 80"

fun challenge_of_row :: "bool \<Rightarrow> mysql_row \<Rightarrow> challenge option" where
  "challenge_of_row True [Some i, Some c, Some n, Some d, Some f, Some g] =
     Some \<lparr>ch_id = to_int (strtol i), creator_id = c, ch_name = n, description = d, flag = f,
       genre = genre_of_int (to_int (strtol g))\<rparr>"
| "challenge_of_row False [Some i, Some c, Some n, Some d, Some g] =
     Some \<lparr>ch_id = to_int (strtol i), creator_id = c, ch_name = n, description = d, flag = [],
       genre = genre_of_int (to_int (strtol g))\<rparr>"
| "challenge_of_row _ _ = None"

definition bind_challenges_impl :: "bool \<Rightarrow> db_result option \<Rightarrow> bool \<Rightarrow> challenge list option" where
  "bind_challenges_impl alloc result include_flag =
     (case result of
        None \<Rightarrow> None
      | Some r \<Rightarrow>
          if \<not> success r then None
          else (case res_set r of
            None \<Rightarrow> None
          | Some rs \<Rightarrow>
              if num_rows rs = 0 \<or> num_rows rs > SIZE_MAX div CHALLENGE_SIZE then None
              else if num_fields rs \<noteq> (if include_flag then 6 else 5) then None
              else if \<not> alloc then None
              else bind_rows (challenge_of_row include_flag) (num_rows rs) (res_rows rs)))"

definition bind_challenges :: "bool \<Rightarrow> db_result option \<Rightarrow> challenge list option" where
  "bind_challenges alloc result = bind_challenges_impl alloc result True"

definition bind_challenges_without_flag :: "bool \<Rightarrow> db_result option \<Rightarrow> challenge list option" where
  "bind_challenges_without_flag alloc result = bind_challenges_impl alloc result False"

section \<open>The other results\<close>

text \<open>
  What the other routines share: they fail on an unsuccessful result, on another number of fields
  or on a failed allocation, and an empty result is an empty array.
\<close>

definition bind_result :: "nat \<Rightarrow> nat \<Rightarrow> bool \<Rightarrow> (mysql_row \<Rightarrow> 'a option) \<Rightarrow> db_result option \<Rightarrow> 'a list option" where
  "bind_result fields_expected element_size alloc f result =
     (case result of
        None \<Rightarrow> None
      | Some r \<Rightarrow>
          if \<not> success r then None
          else (case res_set r of
            None \<Rightarrow> None
          | Some rs \<Rightarrow>
              if num_fields rs \<noteq> fields_expected then None
              else if num_rows rs > SIZE_MAX div element_size then None
              else if num_rows rs = 0 then Some []
              else if \<not> alloc then None
              else bind_rows f (num_rows rs) (res_rows rs)))"

definition bind_answer_id :: "string \<Rightarrow> nat option" where
  "bind_answer_id value =
     (case read_positive_integer \<lparr>cur = value, mem = 0\<rparr> of
        Inr (n, p) \<Rightarrow> if cur p = [] then Some n else None
      | Inl _ \<Rightarrow> None)"

text \<open>The letters, digits and signs of a user name.\<close>

definition name_char :: "char \<Rightarrow> bool" where
  "name_char ch \<longleftrightarrow> (CHR ''a'' \<le> ch \<and> ch \<le> CHR ''z'') \<or> (CHR ''A'' \<le> ch \<and> ch \<le> CHR ''Z'') \<or>
     (CHR ''0'' \<le> ch \<and> ch \<le> CHR ''9'') \<or> ch = CHR ''_'' \<or> ch = CHR ''-''"

fun answer_of_row :: "mysql_row \<Rightarrow> answer option" where
  "answer_of_row [Some i, Some c, Some u, Some a, Some k, Some t, Some n] =
     (case (bind_answer_id i, bind_answer_id c) of
        (Some answer_id, Some challenge_id) \<Rightarrow>
          if length k \<noteq> 1 \<or> (hd k \<noteq> CHR ''0'' \<and> hd k \<noteq> CHR ''1'') then None
          else if length n < 3 \<or> length n > 32 then None
          else if \<not> list_all name_char n then None
          else Some \<lparr>ans_id = int answer_id, ans_challenge_id = int challenge_id, ans_user_id = u, ans_username = n,
                 ans_text = a, is_corrected = (if hd k = CHR ''1'' then 1 else 0), created_at = t\<rparr>
      | _ \<Rightarrow> None)"
| "answer_of_row _ = None"

definition bind_answers :: "bool \<Rightarrow> db_result option \<Rightarrow> answer list option" where
  "bind_answers alloc result = bind_result 7 88 alloc answer_of_row result"

definition read_auth_id :: "string option \<Rightarrow> string option" where
  "read_auth_id value =
     (case value of
        None \<Rightarrow> None
      | Some v \<Rightarrow> if length v \<noteq> AUTH_ID_LENGTH then None else if list_all lower_hex v then Some v else None)"

definition valid_username :: "string option \<Rightarrow> bool" where
  "valid_username value =
     (case value of
        None \<Rightarrow> False
      | Some v \<Rightarrow> if length v < 3 \<or> length v > 32 then False else list_all name_char v)"

text \<open>The digits of a number up to a bound.\<close>

fun bounded_loop :: "int \<Rightarrow> string \<Rightarrow> int \<Rightarrow> int option" where
  "bounded_loop bound [] v = Some v"
| "bounded_loop bound (c # s) v =
     (if c < CHR ''0'' \<or> CHR ''9'' < c \<or> v > (bound - int (digit_val c)) div 10 then None
      else bounded_loop bound s (v * 10 + int (digit_val c)))"

definition read_auth_time :: "string option \<Rightarrow> int option" where
  "read_auth_time value =
     (case value of None \<Rightarrow> None | Some v \<Rightarrow> if v = [] then None else bounded_loop AUTH_TIME_MAX v 0)"

definition read_nonnegative_integer :: "string option \<Rightarrow> int option" where
  "read_nonnegative_integer value =
     (case value of None \<Rightarrow> None | Some v \<Rightarrow> if v = [] then None else bounded_loop (int INT64_MAX) v 0)"

record user =
  usr_id :: string
  usr_name :: string
  usr_hash :: string

record auth_session =
  ses_id :: string
  ses_user :: string
  ses_issued_at :: int
  ses_expires_at :: int

fun user_of_row :: "mysql_row \<Rightarrow> user option" where
  "user_of_row [i, n, h] =
     (case (read_auth_id i, h) of
        (Some i, Some h) \<Rightarrow>
          if \<not> valid_username n \<or> h = [] \<or> length h > 255 then None
          else if \<not> list_all (\<lambda>c. \<not> (c < CHR ''!'' \<or> CHR ''~'' < c)) h then None
          else Some \<lparr>usr_id = i, usr_name = the n, usr_hash = h\<rparr>
      | _ \<Rightarrow> None)"
| "user_of_row _ = None"

definition bind_users :: "bool \<Rightarrow> db_result option \<Rightarrow> user list option" where
  "bind_users alloc result = bind_result 3 72 alloc user_of_row result"

fun session_of_row :: "mysql_row \<Rightarrow> auth_session option" where
  "session_of_row [i, u, a, e] = do {
     i \<leftarrow> read_auth_id i;
     u \<leftarrow> read_auth_id u;
     a \<leftarrow> read_auth_time a;
     e \<leftarrow> read_auth_time e;
     if e \<le> a then None else Some \<lparr>ses_id = i, ses_user = u, ses_issued_at = a, ses_expires_at = e\<rparr>
   }"
| "session_of_row _ = None"

definition bind_auth_sessions :: "bool \<Rightarrow> db_result option \<Rightarrow> auth_session list option" where
  "bind_auth_sessions alloc result = bind_result 4 88 alloc session_of_row result"

fun public_user_of_row :: "mysql_row \<Rightarrow> public_user option" where
  "public_user_of_row [i, n] =
     (case read_auth_id i of
        Some i \<Rightarrow> if \<not> valid_username n then None else Some \<lparr>user_name_id = i, username = the n, score = 0\<rparr>
      | None \<Rightarrow> None)"
| "public_user_of_row _ = None"

definition bind_public_users :: "bool \<Rightarrow> db_result option \<Rightarrow> public_user list option" where
  "bind_public_users alloc result = bind_result 2 64 alloc public_user_of_row result"

fun score_answer_of_row :: "mysql_row \<Rightarrow> score_answer option" where
  "score_answer_of_row [u, c, t] = do {
     u \<leftarrow> read_auth_id u;
     c \<leftarrow> read_nonnegative_integer c;
     if c < 1 \<or> c > int INT_MAX then None
     else do {
       t \<leftarrow> read_auth_time t;
       Some \<lparr>answer_user_id = u, answer_challenge = c, answer_created_at = t\<rparr>
     }
   }"
| "score_answer_of_row _ = None"

definition bind_score_answers :: "bool \<Rightarrow> db_result option \<Rightarrow> score_answer list option" where
  "bind_score_answers alloc result = bind_result 3 56 alloc score_answer_of_row result"

section \<open>What a routine accepts\<close>

lemma bind_rows_Some:
  "bind_rows f n rows = Some xs \<longleftrightarrow> n \<le> length rows \<and> list_all2 (\<lambda>row x. f row = Some x) (take n rows) xs"
proof (induction f n rows arbitrary: xs rule: bind_rows.induct)
  case (2 f n row rows)
  then show ?case by (cases xs; cases n) (auto simp: bind_eq_Some_conv)
qed auto

lemma decimal_digit: "c \<ge> CHR ''0'' \<Longrightarrow> c \<le> CHR ''9'' \<Longrightarrow> is_digit c" by (simp add: is_digit_def)

text \<open>The value of the digits behind a value.\<close>

fun number :: "int \<Rightarrow> string \<Rightarrow> int" where
  "number v [] = v"
| "number v (c # s) = number (v * 10 + int (digit_val c)) s"

lemma number_ge: "0 \<le> v \<Longrightarrow> v \<le> number v s"
proof (induction v s rule: number.induct)
  case (2 v c s)
  then show ?case by (smt (verit) number.simps(2) of_nat_0_le_iff)
qed simp

lemma bounded_loop_correct:
  assumes "0 \<le> v" "v \<le> bound"
  shows "bounded_loop bound s v = (if list_all is_digit s \<and> number v s \<le> bound then Some (number v s) else None)"
  using assms
proof (induction bound s v rule: bounded_loop.induct)
  case (2 bound c s v)
  show ?case
  proof (cases "is_digit c")
    case True
    then have d: "\<not> (c < CHR ''0'' \<or> CHR ''9'' < c)" by (auto simp: is_digit_def)
    have iff: "v > (bound - int (digit_val c)) div 10 \<longleftrightarrow> v * 10 + int (digit_val c) > bound" by linarith
    show ?thesis
    proof (cases "v * 10 + int (digit_val c) > bound")
      case big: True
      have "bound < number v (c # s)" using number_ge[of "v * 10 + int (digit_val c)" s] big 2(2) by simp
      then show ?thesis using d iff big by simp
    next
      case small: False
      then have "\<not> (c < CHR ''0'' \<or> CHR ''9'' < c \<or> v > (bound - int (digit_val c)) div 10)" using d iff by simp
      from 2(1)[OF this] show ?thesis using 2(2) small True d iff by simp
    qed
  next
    case False
    then show ?thesis by (auto simp: is_digit_def)
  qed
qed simp

lemma read_auth_time_correct:
  "read_auth_time (Some v) = (if v \<noteq> [] \<and> list_all is_digit v \<and> number 0 v \<le> AUTH_TIME_MAX then Some (number 0 v) else None)"
  by (simp add: read_auth_time_def bounded_loop_correct AUTH_TIME_MAX_def)

end
