(* ===== verification/PasswordWorker.thy ===== *)
theory PasswordWorker
  imports LinkQueue Auth "HOL-Library.Multiset"
begin

text \<open>
  \<open>src/src/app/password_worker.c\<close>: the thread that computes password hashes, with its queue of
  pending and its queue of finished jobs.  Jobs are heap objects; an operation that holds the
  mutex is one step.  The job that the thread works on outside the mutex is \<open>running\<close>.
\<close>

definition PASSWORD_QUEUE_CAPACITY :: nat where "PASSWORD_QUEUE_CAPACITY = 16"

datatype password_operation = PASSWORD_HASH | PASSWORD_VERIFY

datatype password_submit_result =
  PASSWORD_QUEUED | PASSWORD_QUEUE_FULL | PASSWORD_WORKER_STOPPED | PASSWORD_INVALID_INPUT | PASSWORD_SUBMIT_ERROR

text \<open>The buffers \<open>password[129]\<close> and \<open>stored_hash[128]\<close> with all their bytes.\<close>

record password_job =
  operation :: password_operation
  result_status :: auth_result
  cancelled :: bool
  result_hash :: string
  data :: nat
  job_password :: string
  password_length :: nat
  stored_hash :: string
  unknown_user :: bool

record password_worker =
  jobs :: "addr \<Rightarrow> password_job"
  next_ptr :: heap
  pending :: link_queue
  waiting :: nat
  done_q :: link_queue
  stopped :: bool
  running :: "addr option"
  worker_dummy_hash :: string

section \<open>The operations\<close>

definition clear_input :: "password_job \<Rightarrow> password_job" where
  "clear_input job = job\<lparr>job_password := replicate 129 (CHR 0x00), password_length := 0,
     stored_hash := replicate PWHASH_STRBYTES (CHR 0x00)\<rparr>"

definition buffer_of :: "nat \<Rightarrow> string \<Rightarrow> string" where
  "buffer_of n s = s @ replicate (n - length s) (CHR 0x00)"

text \<open>
  \<open>job\<close> is the address of the new job, or \<open>None\<close> when it cannot be allocated.  The caller's
  password is erased and released on every path.
\<close>

definition password_worker_submit ::
  "password_operation \<Rightarrow> string option \<Rightarrow> string option \<Rightarrow> nat \<Rightarrow> addr option \<Rightarrow> password_worker
    \<Rightarrow> password_submit_result \<times> password_worker" where
  "password_worker_submit op passwd stored ctx job w =
     (let hash = (case stored of Some h \<Rightarrow> h | None \<Rightarrow> worker_dummy_hash w) in
      if \<not> valid_password passwd then (PASSWORD_INVALID_INPUT, w)
      else if op = PASSWORD_VERIFY \<and> (cstr hash = [] \<or> strnlen hash PWHASH_STRBYTES \<ge> PWHASH_STRBYTES)
      then (PASSWORD_INVALID_INPUT, w)
      else if stopped w then (PASSWORD_WORKER_STOPPED, w)
      else if waiting w = PASSWORD_QUEUE_CAPACITY then (PASSWORD_QUEUE_FULL, w)
      else
        (case job of
           None \<Rightarrow> (PASSWORD_SUBMIT_ERROR, w)
         | Some j \<Rightarrow>
             let new_job = \<lparr>operation = op, result_status = AUTH_ERROR, cancelled = False, result_hash = [], data = ctx,
                   job_password = buffer_of 129 (the passwd), password_length = length (the passwd),
                   stored_hash = (if op = PASSWORD_VERIFY then buffer_of PWHASH_STRBYTES (cstr hash)
                                  else replicate PWHASH_STRBYTES (CHR 0x00)),
                   unknown_user = (op = PASSWORD_VERIFY \<and> stored = None)\<rparr>;
                 (nx, q) = append_pending j (next_ptr w, pending w) in
             (PASSWORD_QUEUED, w\<lparr>jobs := (jobs w)(j := new_job), next_ptr := nx, pending := q, waiting := waiting w + 1\<rparr>)))"

text \<open>
  One round of \<open>run_password_worker\<close> consists of \<open>take_job\<close>, the computation of
  \<open>job_result\<close> without the mutex, and \<open>finish_job\<close>.  A stopped worker takes no job.
\<close>

definition take_job :: "password_worker \<Rightarrow> password_worker" where
  "take_job w =
     (if stopped w then w
      else (case task_queue_pop (next_ptr w, pending w) of
              (None, s) \<Rightarrow> w
            | (Some j, (nx, q)) \<Rightarrow> w\<lparr>next_ptr := nx, pending := q, waiting := waiting w - 1, running := Some j\<rparr>))"

definition job_result :: "libs \<Rightarrow> password_job \<Rightarrow> password_job" where
  "job_result L job =
     (let passwd = Some (take (password_length job) (job_password job)) in
      case operation job of
        PASSWORD_HASH \<Rightarrow> (case auth_password_hash L passwd of (r, h) \<Rightarrow> job\<lparr>result_status := r, result_hash := h\<rparr>)
      | PASSWORD_VERIFY \<Rightarrow>
          let r = auth_password_verify L None (Some (stored_hash job)) passwd in
          job\<lparr>result_status := (if unknown_user job \<and> r = AUTH_OK then AUTH_INVALID else r)\<rparr>)"

definition finish_job :: "libs \<Rightarrow> password_worker \<Rightarrow> password_worker" where
  "finish_job L w =
     (case running w of
        None \<Rightarrow> w
      | Some j \<Rightarrow>
          let (nx, q) = append_done j (next_ptr w, done_q w) in
          w\<lparr>jobs := (jobs w)(j := clear_input (job_result L (jobs w j))), next_ptr := nx, done_q := q, running := None\<rparr>)"

text \<open>The loop of \<open>password_worker_stop\<close>, and its round.\<close>

definition cancel_first :: "addr \<Rightarrow> password_worker \<Rightarrow> password_worker" where
  "cancel_first j w =
     (let w = w\<lparr>pending := (pending w)\<lparr>head := next_ptr w j\<rparr>,
                jobs := (jobs w)(j := (clear_input (jobs w j))\<lparr>cancelled := True\<rparr>)\<rparr>;
          (nx, q) = append_done j (next_ptr w, done_q w) in
      w\<lparr>next_ptr := nx, done_q := q\<rparr>)"

partial_function (option) cancel_loop :: "password_worker \<Rightarrow> password_worker option" where
  "cancel_loop w = (case head (pending w) of None \<Rightarrow> Some w | Some j \<Rightarrow> cancel_loop (cancel_first j w))"

text \<open>The part of \<open>password_worker_stop\<close> under the mutex; afterwards it joins the thread.\<close>

definition password_worker_stop :: "password_worker \<Rightarrow> password_worker option" where
  "password_worker_stop w =
     map_option (\<lambda>w. w\<lparr>pending := (pending w)\<lparr>tail := None\<rparr>, waiting := 0\<rparr>) (cancel_loop (w\<lparr>stopped := True\<rparr>))"

definition password_worker_pop :: "password_worker \<Rightarrow> addr option \<times> password_worker" where
  "password_worker_pop w =
     (case pop_done (next_ptr w, done_q w) of (j, (nx, q)) \<Rightarrow> (j, w\<lparr>next_ptr := nx, done_q := q\<rparr>))"

text \<open>
  \<open>password_worker_free\<close>: the thread that is joined finishes the job it holds; the loop pops
  and releases every finished job.  The result is the list of the jobs that it releases.
\<close>

partial_function (option) free_loop :: "password_worker \<Rightarrow> addr list option" where
  "free_loop w =
     (case password_worker_pop w of
        (None, w') \<Rightarrow> Some []
      | (Some j, w') \<Rightarrow> Option.bind (free_loop w') (\<lambda>js. Some (j # js)))"

definition password_worker_free :: "libs \<Rightarrow> password_worker \<Rightarrow> addr list option" where
  "password_worker_free L w = Option.bind (password_worker_stop w) (\<lambda>w. free_loop (finish_job L w))"

definition new_worker :: "string \<Rightarrow> password_worker" where
  "new_worker dummy = \<lparr>jobs = (\<lambda>_. undefined), next_ptr = (\<lambda>_. None), pending = empty_queue, waiting = 0,
     done_q = empty_queue, stopped = False, running = None, worker_dummy_hash = dummy\<rparr>"

text \<open>
  \<open>password_worker_new\<close> with the dummy hash of the configuration; \<open>resources\<close>: allocation,
  mutex, event descriptor and thread are available.
\<close>

definition password_worker_new :: "bool \<Rightarrow> auth_config option \<Rightarrow> password_worker option" where
  "password_worker_new resources config =
     (case config of
        None \<Rightarrow> None
      | Some c \<Rightarrow>
          if cstr (dummy_hash c) = [] \<or> strnlen (dummy_hash c) PWHASH_STRBYTES \<ge> PWHASH_STRBYTES then None
          else if \<not> resources then None
          else Some (new_worker (dummy_hash c)))"

section \<open>Steps of the worker\<close>

text \<open>
  What a client asked for with a job (operation, password, stored hash, context), the jobs accepted
  and the jobs handed back, in order.
  \<open>calloc\<close> returns the address of no job that was accepted and is not yet handed back.
\<close>

type_synonym job_request = "password_operation \<times> string \<times> string option \<times> nat"

record worker_history =
  worker :: password_worker
  asked :: "addr \<Rightarrow> job_request"
  accepted :: "addr list"
  delivered :: "addr list"

definition submitted ::
  "addr \<Rightarrow> job_request \<Rightarrow> password_submit_result \<times> password_worker \<Rightarrow> worker_history \<Rightarrow> worker_history" where
  "submitted j rq = (\<lambda>(r, w) h.
     if r = PASSWORD_QUEUED then h\<lparr>worker := w, asked := (asked h)(j := rq), accepted := accepted h @ [j]\<rparr>
     else h\<lparr>worker := w\<rparr>)"

definition popped :: "addr option \<times> password_worker \<Rightarrow> worker_history \<Rightarrow> worker_history" where
  "popped = (\<lambda>(j, w) h. h\<lparr>worker := w, delivered := delivered h @ (case j of None \<Rightarrow> [] | Some j \<Rightarrow> [j])\<rparr>)"

inductive worker_step :: "libs \<Rightarrow> worker_history \<Rightarrow> worker_history \<Rightarrow> bool" for L where
  submit: "j \<notin># mset (accepted h) - mset (delivered h) \<Longrightarrow>
     worker_step L h (submitted j (op, the pw, stored, ctx) (password_worker_submit op pw stored ctx (Some j) (worker h)) h)"
| submit_oom: "worker_step L h (h\<lparr>worker := snd (password_worker_submit op pw stored ctx None (worker h))\<rparr>)"
| take_pending: "running (worker h) = None \<Longrightarrow> worker_step L h (h\<lparr>worker := take_job (worker h)\<rparr>)"
| finish: "running (worker h) = Some j \<Longrightarrow> worker_step L h (h\<lparr>worker := finish_job L (worker h)\<rparr>)"
| pop: "worker_step L h (popped (password_worker_pop (worker h)) h)"
| stop: "password_worker_stop (worker h) = Some w \<Longrightarrow> worker_step L h (h\<lparr>worker := w\<rparr>)"

inductive worker_reachable :: "libs \<Rightarrow> auth_config \<Rightarrow> worker_history \<Rightarrow> bool" for L c where
  new: "password_worker_new True (Some c) = Some w \<Longrightarrow>
     worker_reachable L c \<lparr>worker = w, asked = a, accepted = [], delivered = []\<rparr>"
| step: "worker_reachable L c h \<Longrightarrow> worker_step L h h' \<Longrightarrow> worker_reachable L c h'"

section \<open>The invariant\<close>

definition cleared :: "password_job \<Rightarrow> bool" where
  "cleared job \<longleftrightarrow> job_password job = replicate 129 (CHR 0x00) \<and> password_length job = 0 \<and>
     stored_hash job = replicate PWHASH_STRBYTES (CHR 0x00)"

text \<open>
  The answer to a request, its status and its hash: that of the routines of \<open>auth.c\<close> on what the
  client passed.
\<close>

fun answer :: "libs \<Rightarrow> string \<Rightarrow> job_request \<Rightarrow> auth_result \<times> string" where
  "answer L dummy (PASSWORD_HASH, pw, _, _) = auth_password_hash L (Some pw)"
| "answer L dummy (PASSWORD_VERIFY, pw, Some h, _) = (auth_password_verify L None (Some h) (Some pw), [])"
| "answer L dummy (PASSWORD_VERIFY, pw, None, _) =
     (let r = auth_password_verify L None (Some dummy) (Some pw) in (if r = AUTH_OK then AUTH_INVALID else r, []))"

text \<open>
  A job that is finished for a request: its inputs are erased, its operation and its context are
  those of the request, and its result is the answer, or none when the job was cancelled.
\<close>

fun job_done :: "libs \<Rightarrow> string \<Rightarrow> job_request \<Rightarrow> password_job \<Rightarrow> bool" where
  "job_done L dummy (op, pw, stored, ctx) job \<longleftrightarrow>
     cleared job \<and> operation job = op \<and> data job = ctx \<and>
     (result_status job, result_hash job) =
       (if cancelled job then (AUTH_ERROR, []) else answer L dummy (op, pw, stored, ctx))"

fun loaded :: "string \<Rightarrow> job_request \<Rightarrow> password_job \<Rightarrow> bool" where
  "loaded dummy (op, pw, stored, ctx) job \<longleftrightarrow>
     operation job = op \<and> data job = ctx \<and> \<not> cancelled job \<and> result_status job = AUTH_ERROR \<and> result_hash job = [] \<and>
     valid_password (Some pw) \<and> take (password_length job) (job_password job) = pw \<and>
     (op = PASSWORD_VERIFY \<longrightarrow>
        unknown_user job = (stored = None) \<and>
        (let h = (case stored of Some h \<Rightarrow> h | None \<Rightarrow> dummy) in
         strnlen h PWHASH_STRBYTES < PWHASH_STRBYTES \<and> stored_hash job = buffer_of PWHASH_STRBYTES (cstr h)))"

definition running_jobs :: "password_worker \<Rightarrow> addr list" where
  "running_jobs w = (case running w of None \<Rightarrow> [] | Some j \<Rightarrow> [j])"

text \<open>
  The jobs come back in the order in which they were accepted, but for at most one (\<open>zs\<close>) that comes
  behind later ones: the cancelled jobs overtake the job that is running when the worker is stopped.
\<close>

definition one_overtaken :: "addr list \<Rightarrow> addr list \<Rightarrow> bool" where
  "one_overtaken as back \<longleftrightarrow>
     (\<exists>xs zs ys. as = xs @ zs @ ys \<and> back = xs @ ys @ zs \<and> length zs \<le> 1)"

text \<open>The invariant, with the contents of the two queues.\<close>

definition worker_inv :: "libs \<Rightarrow> worker_history \<Rightarrow> addr list \<Rightarrow> addr list \<Rightarrow> bool" where
  "worker_inv L h ps ds \<longleftrightarrow>
     (let w = worker h; rs = running_jobs w in
      queue (next_ptr w, pending w) ps \<and> queue (next_ptr w, done_q w) ds \<and>
      distinct (ds @ rs @ ps) \<and>
      (if stopped w then one_overtaken (accepted h) (delivered h @ ds @ rs)
       else accepted h = delivered h @ ds @ rs @ ps) \<and>
      waiting w = length ps \<and> length ps \<le> PASSWORD_QUEUE_CAPACITY \<and>
      (stopped w \<longrightarrow> ps = []) \<and>
      (\<forall>j \<in> set (rs @ ps). loaded (worker_dummy_hash w) (asked h j) (jobs w j)) \<and>
      (\<forall>j \<in> set ds. job_done L (worker_dummy_hash w) (asked h j) (jobs w j)))"

lemma cstr_buffer: "cstr (buffer_of n (cstr s)) = cstr s"
proof -
  have "takeWhile (\<lambda>c. c \<noteq> CHR 0x00) (cstr s @ t) = cstr s @ takeWhile (\<lambda>c. c \<noteq> CHR 0x00) t" for t
    by (rule takeWhile_append2) (auto simp: cstr_def dest: set_takeWhileD)
  then show ?thesis by (simp add: buffer_of_def cstr_def[of "_ @ _"] takeWhile_replicate)
qed

lemma verify_buffer:
  "auth_password_verify L None (Some (buffer_of n (cstr s))) pw = auth_password_verify L None (Some s) pw"
  by (simp add: auth_password_verify_def strnlen_def cstr_buffer)

lemma cleared_clear_input: "cleared (clear_input job)"
  by (simp add: cleared_def clear_input_def)

lemma job_result_done:
  assumes "loaded dummy rq job"
  shows "job_done L dummy rq (clear_input (job_result L job))"
proof -
  obtain op pw stored ctx where rq: "rq = (op, pw, stored, ctx)" by (cases rq)
  show ?thesis
    using assms
    by (cases op; cases stored)
      (auto simp: rq cleared_def job_result_def clear_input_def Let_def verify_buffer split: prod.splits)
qed

lemma cancelled_done:
  assumes "loaded dummy rq job"
  shows "job_done L dummy rq ((clear_input job)\<lparr>cancelled := True\<rparr>)"
  using assms by (cases rq) (auto simp: clear_input_def cleared_def)

lemma one_overtaken_mset: "one_overtaken as bs \<Longrightarrow> mset as = mset bs"
  by (auto simp: one_overtaken_def)

lemma one_overtaken_stop: "length rs \<le> 1 \<Longrightarrow> one_overtaken (xs @ rs @ ps) (xs @ ps @ rs)"
  by (auto simp: one_overtaken_def)

lemma inv_mset:
  assumes "worker_inv L h ps ds"
  shows "mset (accepted h) = mset (delivered h @ ds @ running_jobs (worker h) @ ps)"
  using assms one_overtaken_mset[of "accepted h"] by (auto simp: worker_inv_def Let_def split: if_splits)

section \<open>Every step keeps it\<close>

lemma inv_outstanding:
  assumes "worker_inv L h ps ds"
  shows "mset (accepted h) - mset (delivered h) = mset (ds @ running_jobs (worker h) @ ps)"
  by (simp add: inv_mset[OF assms])

lemma accepted_password:
  assumes "valid_password p"
  shows "take (length (the p)) (buffer_of 129 (the p)) = the p" "valid_password (Some (the p))"
  using assms by (auto simp: valid_password_def buffer_of_def split: option.splits)

lemma submit_cases:
  assumes "password_worker_submit op pw stored ctx (Some j) w = (r, w')"
  obtains "w' = w" "r \<noteq> PASSWORD_QUEUED"
  | job where "r = PASSWORD_QUEUED" "\<not> stopped w" "waiting w \<noteq> PASSWORD_QUEUE_CAPACITY"
      "loaded (worker_dummy_hash w) (op, the pw, stored, ctx) job"
      "w' = w\<lparr>jobs := (jobs w)(j := job), next_ptr := fst (append_pending j (next_ptr w, pending w)),
              pending := snd (append_pending j (next_ptr w, pending w)), waiting := waiting w + 1\<rparr>"
proof -
  define h where "h = (case stored of Some h \<Rightarrow> h | None \<Rightarrow> worker_dummy_hash w)"
  define job where "job = \<lparr>operation = op, result_status = AUTH_ERROR, cancelled = False, result_hash = [], data = ctx,
      job_password = buffer_of 129 (the pw), password_length = length (the pw),
      stored_hash = (if op = PASSWORD_VERIFY then buffer_of PWHASH_STRBYTES (cstr h) else replicate PWHASH_STRBYTES (CHR 0x00)),
      unknown_user = (op = PASSWORD_VERIFY \<and> stored = None)\<rparr>"
  show ?thesis
  proof (cases "valid_password pw \<and> \<not> (op = PASSWORD_VERIFY \<and> (cstr h = [] \<or> strnlen h PWHASH_STRBYTES \<ge> PWHASH_STRBYTES))
      \<and> \<not> stopped w \<and> waiting w \<noteq> PASSWORD_QUEUE_CAPACITY")
    case True
    have "loaded (worker_dummy_hash w) (op, the pw, stored, ctx) job"
      using True accepted_password[of pw] by (auto simp: job_def h_def Let_def not_le)
    moreover have "password_worker_submit op pw stored ctx (Some j) w = (PASSWORD_QUEUED,
        w\<lparr>jobs := (jobs w)(j := job), next_ptr := fst (append_pending j (next_ptr w, pending w)),
          pending := snd (append_pending j (next_ptr w, pending w)), waiting := waiting w + 1\<rparr>)"
      using True unfolding password_worker_submit_def h_def[symmetric] Let_def
      by (auto simp: job_def h_def split_def)
    ultimately show ?thesis using assms that(2)[of job] True by auto
  next
    case False
    then have "w' = w \<and> r \<noteq> PASSWORD_QUEUED" using assms
      by (auto simp: password_worker_submit_def h_def Let_def split: if_splits)
    then show ?thesis using that(1) by blast
  qed
qed

lemma inv_submit:
  assumes inv: "worker_inv L h ps ds" and new: "j \<notin># mset (accepted h) - mset (delivered h)"
  shows "\<exists>ps'. worker_inv L (submitted j (op, the pw, stored, ctx) (password_worker_submit op pw stored ctx (Some j) (worker h)) h) ps' ds"
proof -
  let ?w = "worker h"
  obtain r w' where s: "password_worker_submit op pw stored ctx (Some j) ?w = (r, w')" by fastforce
  from s show ?thesis
  proof (cases rule: submit_cases)
    case 1
    then have "submitted j (op, the pw, stored, ctx) (r, w') h = h" by (simp add: submitted_def)
    then show ?thesis using s inv by auto
  next
    case (2 job)
    have n: "j \<notin> set ds" "j \<notin> set ps" "j \<notin> set (running_jobs ?w)"
      using new inv_outstanding[OF inv] by auto
    note i = inv[unfolded worker_inv_def Let_def]
    let ?s = "append_pending j (next_ptr ?w, pending ?w)"
    have q: "queue (fst ?s, snd ?s) (ps @ [j])" "queue (fst ?s, done_q ?w) ds"
      using pending_jobs.push_queue[of "(next_ptr ?w, pending ?w)" ps j]
        pending_jobs.push_other[of "(next_ptr ?w, pending ?w)" ps "done_q ?w" ds j] i n
      by auto
    have "worker_inv L (submitted j (op, the pw, stored, ctx) (r, w') h) (ps @ [j]) ds"
      using i q n 2 by (auto simp: worker_inv_def submitted_def Let_def running_jobs_def)
    then show ?thesis using s by auto
  qed
qed

lemma inv_take:
  assumes inv: "worker_inv L h ps ds" and idle: "running (worker h) = None"
  shows "\<exists>ps'. worker_inv L (h\<lparr>worker := take_job (worker h)\<rparr>) ps' ds"
proof (cases "stopped (worker h)")
  case True
  then have "h\<lparr>worker := take_job (worker h)\<rparr> = h" by (simp add: take_job_def)
  then show ?thesis using inv by auto
next
  case False
  let ?w = "worker h"
  note i = inv[unfolded worker_inv_def Let_def]
  show ?thesis
  proof (cases ps)
    case Nil
    then have "fst (task_queue_pop (next_ptr ?w, pending ?w)) = None"
      using pending_jobs.pop_empty[of "(next_ptr ?w, pending ?w)"] i by simp
    then have "take_job ?w = ?w" by (auto simp: take_job_def split: prod.splits option.splits)
    then show ?thesis using inv by auto
  next
    case (Cons j js)
    let ?s = "task_queue_pop (next_ptr ?w, pending ?w)"
    have n: "j \<notin> set ds" using i Cons by auto
    have q: "fst ?s = Some j" "queue (snd ?s) js" "queue (fst (snd ?s), done_q ?w) ds"
      using pending_jobs.pop_queue[of "(next_ptr ?w, pending ?w)" j js]
        pending_jobs.pop_other[of "(next_ptr ?w, pending ?w)" j js "done_q ?w" ds] i n Cons
      by auto
    have t: "take_job ?w = ?w\<lparr>next_ptr := fst (snd ?s), pending := snd (snd ?s), waiting := waiting ?w - 1, running := Some j\<rparr>"
      using q(1) False by (auto simp: take_job_def split: prod.splits)
    have "worker_inv L (h\<lparr>worker := take_job ?w\<rparr>) js ds"
      using i q n idle Cons False by (auto simp: worker_inv_def t Let_def running_jobs_def)
    then show ?thesis by blast
  qed
qed

lemma inv_finish:
  assumes inv: "worker_inv L h ps ds" and r: "running (worker h) = Some j"
  shows "worker_inv L (h\<lparr>worker := finish_job L (worker h)\<rparr>) ps (ds @ [j])"
proof -
  let ?w = "worker h"
  let ?s = "append_done j (next_ptr ?w, done_q ?w)"
  note i = inv[unfolded worker_inv_def Let_def running_jobs_def r, simplified]
  have q: "queue (fst ?s, snd ?s) (ds @ [j])" "queue (fst ?s, pending ?w) ps"
    using done_jobs.push_queue[of "(next_ptr ?w, done_q ?w)" ds j]
      done_jobs.push_other[of "(next_ptr ?w, done_q ?w)" ds "pending ?w" ps j] i
    by auto
  have f: "finish_job L ?w = ?w\<lparr>jobs := (jobs ?w)(j := clear_input (job_result L (jobs ?w j))),
      next_ptr := fst ?s, done_q := snd ?s, running := None\<rparr>"
    by (simp add: finish_job_def r split_def Let_def)
  have a: "job_done L (worker_dummy_hash ?w) (asked h j) (clear_input (job_result L (jobs ?w j)))"
    using i by (intro job_result_done) simp
  show ?thesis
    using i q a by (auto simp: worker_inv_def f Let_def running_jobs_def)
qed

lemma inv_finish_idle:
  assumes "running w = None"
  shows "finish_job L w = w"
  using assms by (simp add: finish_job_def)

lemma inv_pop:
  assumes inv: "worker_inv L h ps ds"
  shows "worker_inv L (popped (password_worker_pop (worker h)) h) ps (tl ds)"
    and "fst (password_worker_pop (worker h)) = (case ds of [] \<Rightarrow> None | j # _ \<Rightarrow> Some j)"
proof -
  let ?w = "worker h"
  let ?s = "pop_done (next_ptr ?w, done_q ?w)"
  note i = inv[unfolded worker_inv_def Let_def]
  have p: "password_worker_pop ?w = (fst ?s, ?w\<lparr>next_ptr := fst (snd ?s), done_q := snd (snd ?s)\<rparr>)"
    by (simp add: password_worker_pop_def split_def)
  have "worker_inv L (popped (password_worker_pop ?w) h) ps (tl ds) \<and>
        fst (password_worker_pop ?w) = (case ds of [] \<Rightarrow> None | j # _ \<Rightarrow> Some j)"
  proof (cases ds)
    case Nil
    then have "?s = (None, (next_ptr ?w, done_q ?w))" using done_jobs.pop_empty i by simp
    then show ?thesis using inv Nil by (simp add: p popped_def)
  next
    case (Cons j js)
    have n: "j \<notin> set ps" using i Cons by auto
    have q: "fst ?s = Some j" "queue (snd ?s) js" "queue (fst (snd ?s), pending ?w) ps"
      using done_jobs.pop_queue[of "(next_ptr ?w, done_q ?w)" j js]
        done_jobs.pop_other[of "(next_ptr ?w, done_q ?w)" j js "pending ?w" ps] i n Cons
      by auto
    have "worker_inv L (popped (password_worker_pop ?w) h) ps js"
      using i q n Cons by (auto simp: worker_inv_def p popped_def Let_def running_jobs_def)
    then show ?thesis using q(1) Cons by (simp add: p)
  qed
  then show "worker_inv L (popped (password_worker_pop (worker h)) h) ps (tl ds)"
    and "fst (password_worker_pop (worker h)) = (case ds of [] \<Rightarrow> None | j # _ \<Rightarrow> Some j)" by auto
qed

text \<open>
  The loop of \<open>password_worker_stop\<close>.  While it runs the last node of the pending jobs is out
  of date, so that only the links are followed.
\<close>

definition cancelled_jobs :: "addr list \<Rightarrow> (addr \<Rightarrow> password_job) \<Rightarrow> (addr \<Rightarrow> password_job) \<Rightarrow> bool" where
  "cancelled_jobs ps f g \<longleftrightarrow> (\<forall>j. g j = (if j \<in> set ps then (clear_input (f j))\<lparr>cancelled := True\<rparr> else f j))"

lemma cancel_loop_cancels:
  assumes "linked (next_ptr w) (head (pending w)) ps" "distinct (ds @ ps)" "queue (next_ptr w, done_q w) ds"
  shows "\<exists>nx d js. cancel_loop w =
      Some (w\<lparr>pending := (pending w)\<lparr>head := None\<rparr>, next_ptr := nx, done_q := d, jobs := js\<rparr>) \<and>
    queue (nx, d) (ds @ ps) \<and> cancelled_jobs ps (jobs w) js"
  using assms
proof (induction ps arbitrary: w ds)
  case Nil
  then have "w\<lparr>pending := (pending w)\<lparr>head := None\<rparr>, next_ptr := next_ptr w, done_q := done_q w, jobs := jobs w\<rparr> = w"
    by simp
  moreover have "cancel_loop w = Some w" using Nil by (simp add: cancel_loop.simps)
  ultimately show ?case using Nil by (intro exI[of _ "next_ptr w"] exI[of _ "done_q w"] exI[of _ "jobs w"])
    (simp add: cancelled_jobs_def)
next
  case (Cons j ps)
  let ?s = "append_done j (next_ptr w, done_q w)"
  let ?w = "cancel_first j w"
  let ?job = "(clear_input (jobs w j))\<lparr>cancelled := True\<rparr>"
  have w: "?w = w\<lparr>pending := (pending w)\<lparr>head := next_ptr w j\<rparr>, jobs := (jobs w)(j := ?job),
      next_ptr := fst ?s, done_q := snd ?s\<rparr>"
    by (simp add: cancel_first_def Let_def split_def)
  have q: "queue ?s (ds @ [j])" using done_jobs.push_queue[OF Cons.prems(3)] Cons.prems(2) by simp
  have f: "\<forall>a \<in> set ps. fst ?s a = next_ptr w a"
  proof
    fix a assume "a \<in> set ps"
    then have "a \<noteq> j" "a \<notin> set ds" using Cons.prems(2) by auto
    then show "fst ?s a = next_ptr w a" using done_jobs.push_frame[OF Cons.prems(3)] by simp
  qed
  have l: "linked (next_ptr ?w) (head (pending ?w)) ps"
    using Cons.prems(1) linked_frame[OF f] by (simp add: w)
  have d: "distinct ((ds @ [j]) @ ps)" using Cons.prems(2) by simp
  have q': "queue (next_ptr ?w, done_q ?w) (ds @ [j])" using q by (simp add: w)
  obtain nx dq js where ih: "cancel_loop ?w =
      Some (?w\<lparr>pending := (pending ?w)\<lparr>head := None\<rparr>, next_ptr := nx, done_q := dq, jobs := js\<rparr>)"
    "queue (nx, dq) (ds @ j # ps)" "cancelled_jobs ps (jobs ?w) js"
    using Cons.IH[OF l d q'] by auto
  have "cancelled_jobs (j # ps) (jobs w) js"
    using ih(3) Cons.prems(2) by (auto simp: cancelled_jobs_def w)
  moreover have "cancel_loop w =
      Some (w\<lparr>pending := (pending w)\<lparr>head := None\<rparr>, next_ptr := nx, done_q := dq, jobs := js\<rparr>)"
    using Cons.prems(1) ih(1) by (subst cancel_loop.simps) (simp add: w)
  ultimately show ?case using ih(2) by blast
qed

lemma inv_stop:
  assumes inv: "worker_inv L h ps ds"
  shows "\<exists>w. password_worker_stop (worker h) = Some w \<and> worker_inv L (h\<lparr>worker := w\<rparr>) [] (ds @ ps) \<and>
    running w = running (worker h) \<and> stopped w \<and> worker_dummy_hash w = worker_dummy_hash (worker h)"
proof -
  let ?w = "(worker h)\<lparr>stopped := True\<rparr>"
  note i = inv[unfolded worker_inv_def Let_def]
  have l: "linked (next_ptr ?w) (head (pending ?w)) ps" "distinct (ds @ ps)" "queue (next_ptr ?w, done_q ?w) ds"
    using i by (auto simp: queue_pair)
  obtain nx d js where c: "cancel_loop ?w =
      Some (?w\<lparr>pending := (pending ?w)\<lparr>head := None\<rparr>, next_ptr := nx, done_q := d, jobs := js\<rparr>)"
    "queue (nx, d) (ds @ ps)" "cancelled_jobs ps (jobs ?w) js"
    using cancel_loop_cancels[OF l] by blast
  let ?v = "?w\<lparr>pending := (pending ?w)\<lparr>head := None, tail := None\<rparr>, next_ptr := nx, done_q := d, jobs := js, waiting := 0\<rparr>"
  have s: "password_worker_stop (worker h) = Some ?v" by (simp add: password_worker_stop_def c(1))
  have j: "js k = (if k \<in> set ps then (clear_input (jobs (worker h) k))\<lparr>cancelled := True\<rparr> else jobs (worker h) k)" for k
    using c(3) by (simp add: cancelled_jobs_def)
  have a: "job_done L (worker_dummy_hash ?v) (asked h k) (js k)" if "k \<in> set (ds @ ps)" for k
    using i that cancelled_done[of "worker_dummy_hash (worker h)" "asked h k" "jobs (worker h) k" L] by (auto simp: j)
  have r: "\<forall>k \<in> set (running_jobs (worker h)). loaded (worker_dummy_hash ?v) (asked h k) (js k)"
    using i by (auto simp: j)
  have "length (running_jobs (worker h)) \<le> 1" by (simp add: running_jobs_def split: option.split)
  then have o: "one_overtaken (accepted h) (delivered h @ (ds @ ps) @ running_jobs (worker h))"
    using i one_overtaken_stop[of _ "delivered h @ ds" ps] by (auto split: if_splits)
  have "worker_inv L (h\<lparr>worker := ?v\<rparr>) [] (ds @ ps)"
    using i c(2) a r o by (auto simp: worker_inv_def Let_def running_jobs_def queue_pair ac_simps)
  then show ?thesis using s by auto
qed

definition worker_ok :: "libs \<Rightarrow> auth_config \<Rightarrow> worker_history \<Rightarrow> bool" where
  "worker_ok L c h \<longleftrightarrow> (\<exists>ps ds. worker_inv L h ps ds) \<and> worker_dummy_hash (worker h) = dummy_hash c"

lemma submit_dummy: "worker_dummy_hash (snd (password_worker_submit op pw stored ctx j w)) = worker_dummy_hash w"
  by (auto simp: password_worker_submit_def Let_def split: prod.splits option.splits)

lemma take_dummy: "worker_dummy_hash (take_job w) = worker_dummy_hash w"
  by (auto simp: take_job_def Let_def split: prod.splits option.splits)

lemma finish_dummy: "worker_dummy_hash (finish_job L w) = worker_dummy_hash w"
  by (auto simp: finish_job_def Let_def split: prod.splits option.splits)

lemma pop_dummy: "worker_dummy_hash (snd (password_worker_pop w)) = worker_dummy_hash w"
  by (auto simp: password_worker_pop_def split: prod.splits)

lemma submit_none: "snd (password_worker_submit op pw stored ctx None w) = w"
  by (simp add: password_worker_submit_def Let_def)

lemma ok_step:
  assumes "worker_step L h h'" "worker_ok L c h"
  shows "worker_ok L c h'"
proof -
  obtain ps ds where i: "worker_inv L h ps ds" and d: "worker_dummy_hash (worker h) = dummy_hash c"
    using assms(2) by (auto simp: worker_ok_def)
  from assms(1) show ?thesis
  proof cases
    case (submit j op pw stored ctx)
    then obtain ps' where "worker_inv L h' ps' ds" using inv_submit[OF i, of j op pw stored ctx] by blast
    moreover have "worker_dummy_hash (worker h') = dummy_hash c"
      using d submit(1) submit_dummy[of op pw stored ctx "Some j" "worker h"] by (auto simp: submitted_def split: prod.splits)
    ultimately show ?thesis using worker_ok_def by blast
  next
    case submit_oom
    then show ?thesis using assms(2) by (simp add: submit_none)
  next
    case take_pending
    then show ?thesis using inv_take[OF i] d by (auto simp: worker_ok_def take_dummy)
  next
    case (finish j)
    then show ?thesis using inv_finish[OF i] d by (auto simp: worker_ok_def finish_dummy)
  next
    case pop
    then show ?thesis using inv_pop(1)[OF i] d pop_dummy[of "worker h"]
      by (auto simp: worker_ok_def popped_def split: prod.splits)
  next
    case (stop w)
    then show ?thesis using inv_stop[OF i] d by (auto simp: worker_ok_def)
  qed
qed

lemma reachable_ok: "worker_reachable L c h \<Longrightarrow> worker_ok L c h"
proof (induction rule: worker_reachable.induct)
  case (new w a)
  then have w: "w = new_worker (dummy_hash c)"
    by (auto simp: password_worker_new_def split: if_splits)
  have "worker_inv L \<lparr>worker = w, asked = a, accepted = [], delivered = []\<rparr> [] []"
    by (simp add: worker_inv_def w new_worker_def running_jobs_def queue_pair empty_queue_def Let_def)
  then show ?case by (auto simp: worker_ok_def w new_worker_def)
next
  case (step h h')
  then show ?case using ok_step by blast
qed

lemma free_loop_frees:
  assumes "worker_inv L h ps ds"
  shows "free_loop (worker h) = Some ds"
  using assms
proof (induction ds arbitrary: h)
  case Nil
  then show ?case using inv_pop(2)[OF Nil] by (subst free_loop.simps) (auto split: prod.splits)
next
  case (Cons j ds)
  let ?h = "popped (password_worker_pop (worker h)) h"
  have "worker_inv L ?h ps ds" using inv_pop(1)[OF Cons.prems] by simp
  then have "free_loop (worker ?h) = Some ds" by (rule Cons.IH)
  then have f: "free_loop (snd (password_worker_pop (worker h))) = Some ds" by (simp add: popped_def split_def)
  obtain w where p: "password_worker_pop (worker h) = (Some j, w)"
    using inv_pop(2)[OF Cons.prems] by (cases "password_worker_pop (worker h)") auto
  show ?case using f by (subst free_loop.simps) (simp add: p)
qed

lemma free_releases:
  assumes "worker_inv L h ps ds"
  shows "password_worker_free L (worker h) = Some (ds @ ps @ running_jobs (worker h))"
proof -
  obtain w where s: "password_worker_stop (worker h) = Some w" "worker_inv L (h\<lparr>worker := w\<rparr>) [] (ds @ ps)"
    "running w = running (worker h)"
    using inv_stop[OF assms] by blast
  have "free_loop (finish_job L w) = Some (ds @ ps @ running_jobs (worker h))"
  proof (cases "running w")
    case None
    then show ?thesis using free_loop_frees[OF s(2)] s(3)
      by (simp add: inv_finish_idle running_jobs_def)
  next
    case (Some j)
    then have "worker_inv L (h\<lparr>worker := finish_job L w\<rparr>) [] ((ds @ ps) @ [j])"
      using inv_finish[OF s(2), of j] by simp
    moreover have "running (worker h) = Some j" using s(3) Some by (rule trans[OF sym])
    then have "running_jobs (worker h) = [j]" by (simp add: running_jobs_def)
    ultimately show ?thesis using free_loop_frees by fastforce
  qed
  then show ?thesis by (simp add: password_worker_free_def s(1))
qed

section \<open>The worker is correct\<close>

text \<open>
  C14.  In every reachable state of the password worker the two linked lists are well formed and
  have no node in common, at most 16 jobs are waiting and \<open>waiting\<close> counts them, and no job is lost
  or duplicated: until the worker is stopped the accepted jobs are, in this order, those handed
  back, finished, running and pending.  A stopped worker has none pending, and the jobs handed back,
  finished and running are the accepted ones in their order, but for at most one that comes behind
  jobs accepted after it.
\<close>

theorem worker_conserves_jobs:
  assumes "worker_reachable L c h"
  shows "\<exists>ps ds. queue (next_ptr (worker h), pending (worker h)) ps \<and>
    queue (next_ptr (worker h), done_q (worker h)) ds \<and> distinct (ds @ running_jobs (worker h) @ ps) \<and>
    waiting (worker h) = length ps \<and> length ps \<le> 16 \<and>
    mset (accepted h) = mset (delivered h @ ds @ running_jobs (worker h) @ ps) \<and>
    (if stopped (worker h)
     then ps = [] \<and> (\<exists>xs zs ys. accepted h = xs @ zs @ ys \<and> length zs \<le> 1 \<and>
       delivered h @ ds @ running_jobs (worker h) = xs @ ys @ zs)
     else accepted h = delivered h @ ds @ running_jobs (worker h) @ ps)"
proof -
  obtain ps ds where inv: "worker_inv L h ps ds" using reachable_ok[OF assms] by (auto simp: worker_ok_def)
  note i = inv[unfolded worker_inv_def Let_def PASSWORD_QUEUE_CAPACITY_def one_overtaken_def]
  show ?thesis
    by (intro exI[of _ ps] exI[of _ ds] conjI) (use i inv_mset[OF inv] in \<open>auto split: if_splits\<close>)
qed

text \<open>
  C15.  A job that is handed back holds no password and no stored hash any more, its operation and
  its context are those with which it was submitted, and it is either cancelled, without a result,
  or its status and its hash are the answer of the password routines to the request: for
  \<open>PASSWORD_HASH\<close> the hash of the password, for \<open>PASSWORD_VERIFY\<close> the comparison with the stored
  hash.  When no hash was stored for the user, its status is never \<open>AUTH_OK\<close>.
\<close>

theorem popped_job_answers:
  assumes "worker_reachable L c h" "password_worker_pop (worker h) = (Some j, w)" "asked h j = (op, pw, stored, ctx)"
  shows "cleared (jobs w j) \<and> operation (jobs w j) = op \<and> data (jobs w j) = ctx \<and>
    (result_status (jobs w j), result_hash (jobs w j)) =
      (if cancelled (jobs w j) then (AUTH_ERROR, [])
       else case (op, stored) of
         (PASSWORD_HASH, _) \<Rightarrow> auth_password_hash L (Some pw)
       | (PASSWORD_VERIFY, Some s) \<Rightarrow> (auth_password_verify L None (Some s) (Some pw), [])
       | (PASSWORD_VERIFY, None) \<Rightarrow>
           (let r = auth_password_verify L None (Some (dummy_hash c)) (Some pw) in (if r = AUTH_OK then AUTH_INVALID else r, []))) \<and>
    (op = PASSWORD_VERIFY \<and> stored = None \<longrightarrow> result_status (jobs w j) \<noteq> AUTH_OK)"
proof -
  obtain ps ds where i: "worker_inv L h ps ds" and d: "worker_dummy_hash (worker h) = dummy_hash c"
    using reachable_ok[OF assms(1)] by (auto simp: worker_ok_def)
  have j: "j \<in> set ds" using inv_pop(2)[OF i] assms(2) by (auto split: list.splits)
  have "jobs w = jobs (worker h)" using assms(2) by (auto simp: password_worker_pop_def split: prod.splits)
  then have "job_done L (dummy_hash c) (op, pw, stored, ctx) (jobs w j)"
    using i j d assms(3) by (auto simp: worker_inv_def Let_def)
  then show ?thesis by (cases op; cases stored) (auto simp: Let_def split: if_splits)
qed

text \<open>
  C16.  Shutting the worker down terminates in every reachable state and releases each job that was
  accepted and not yet handed back, exactly once.
\<close>

theorem worker_free_releases_all:
  assumes "worker_reachable L c h"
  shows "\<exists>js. password_worker_free L (worker h) = Some js \<and> distinct js \<and>
    mset (accepted h) = mset (delivered h) + mset js"
proof -
  obtain ps ds where i: "worker_inv L h ps ds" using reachable_ok[OF assms] by (auto simp: worker_ok_def)
  then have "distinct (ds @ ps @ running_jobs (worker h)) \<and>
      mset (accepted h) = mset (delivered h) + mset (ds @ ps @ running_jobs (worker h))"
    using inv_mset[OF i] by (auto simp: worker_inv_def Let_def)
  then show ?thesis using free_releases[OF i] by blast
qed

definition worker_config :: auth_config where
  "worker_config = example_config\<lparr>dummy_hash := ''$argon2id$x''\<rparr>"

definition worker_libs :: libs where
  "worker_libs = example_libs\<lparr>pwhash := (\<lambda>p. Some (''$argon2id$'' @ rev p))\<rparr>"

text \<open>A worker with one job pending, and one that has finished it.\<close>

definition one_job :: worker_history where
  "one_job = submitted 1 (PASSWORD_HASH, ''passw0rd'', None, 7)
     (password_worker_submit PASSWORD_HASH (Some ''passw0rd'') None 7 (Some 1) (new_worker ''$argon2id$x''))
     \<lparr>worker = new_worker ''$argon2id$x'', asked = (\<lambda>_. (PASSWORD_HASH, [], None, 0)), accepted = [], delivered = []\<rparr>"

definition one_finished :: worker_history where
  "one_finished = (let h = one_job\<lparr>worker := take_job (worker one_job)\<rparr> in
     h\<lparr>worker := finish_job worker_libs (worker h)\<rparr>)"

lemma one_job_reachable: "worker_reachable L worker_config one_job"
proof -
  have n: "password_worker_new True (Some worker_config) = Some (new_worker ''$argon2id$x'')"
    by (simp add: password_worker_new_def worker_config_def cstr_def strnlen_def PWHASH_STRBYTES_def)
  have s: "1 \<notin># mset (accepted h) - mset (delivered h) \<Longrightarrow> worker_step L h
    (submitted 1 (PASSWORD_HASH, ''passw0rd'', None, 7)
      (password_worker_submit PASSWORD_HASH (Some ''passw0rd'') None 7 (Some 1) (worker h)) h)" for h
    using worker_step.submit[of 1 h L PASSWORD_HASH "Some ''passw0rd''" None 7] by simp
  show ?thesis unfolding one_job_def
    using worker_reachable.step[OF worker_reachable.new[OF n] s[of "\<lparr>worker = new_worker ''$argon2id$x'',
        asked = (\<lambda>_. (PASSWORD_HASH, [], None, 0)), accepted = [], delivered = []\<rparr>"]]
    by simp
qed

lemma one_job_state: "running (worker one_job) = None" "accepted one_job = [1]" "delivered one_job = []"
  by code_simp+

lemma one_finished_reachable: "worker_reachable worker_libs worker_config one_finished"
proof -
  have t: "worker_reachable worker_libs worker_config (one_job\<lparr>worker := take_job (worker one_job)\<rparr>)"
    by (rule worker_reachable.step[OF one_job_reachable worker_step.take_pending[OF one_job_state(1)]])
  have r: "running (worker (one_job\<lparr>worker := take_job (worker one_job)\<rparr>)) = Some 1" by code_simp
  show ?thesis unfolding one_finished_def Let_def
    by (rule worker_reachable.step[OF t worker_step.finish[OF r]])
qed

theorem worker_conserves_jobs_witness:
  "\<exists>ps ds. queue (next_ptr (worker one_job), pending (worker one_job)) ps \<and> mset [1] = mset (ds @ ps)"
  using worker_conserves_jobs[OF one_job_reachable] by (auto simp: one_job_state running_jobs_def)

theorem popped_job_answers_witness:
  "cleared (jobs (worker one_finished) 1) \<and> data (jobs (worker one_finished) 1) = 7 \<and>
     result_status (jobs (worker one_finished) 1) = AUTH_OK \<and>
     result_hash (jobs (worker one_finished) 1) = ''$argon2id$dr0wssap''"
proof -
  have p: "fst (password_worker_pop (worker one_finished)) = Some 1"
    "cancelled (jobs (snd (password_worker_pop (worker one_finished))) 1) = False"
    "asked one_finished 1 = (PASSWORD_HASH, ''passw0rd'', None, 7)"
    "auth_password_hash worker_libs (Some ''passw0rd'') = (AUTH_OK, ''$argon2id$dr0wssap'')"
    by code_simp+
  have j: "jobs (snd (password_worker_pop w)) = jobs w" for w
    by (simp add: password_worker_pop_def split: prod.splits)
  have "password_worker_pop (worker one_finished) = (Some 1, snd (password_worker_pop (worker one_finished)))"
    using p(1) by (metis prod.collapse)
  from popped_job_answers[OF one_finished_reachable this p(3)] show ?thesis
    using p(2,4) by (simp add: j)
qed

theorem worker_free_releases_all_witness:
  "password_worker_free example_libs (worker one_job) = Some [1]"
  using worker_free_releases_all[OF one_job_reachable, of example_libs] by (auto simp: one_job_state)

end
