(* ===== verification/HandlerAuth.thy ===== *)
theory HandlerAuth
  imports Repository JsonRequest JsonPrint PasswordWorker HttpTypes
begin

text \<open>
  What all handlers share, and the handlers of \<open>src/src/app/handler_auth.c\<close>.  A handler is called
  with the context of its request and with what has happened: the start of the request, a finished
  database task or a finished password job.  It replies, or it goes on when a submission that it
  made is completed; then the context it leaves is the one of the next call.  \<open>None\<close> is a failed
  assertion or an access out of bounds.
\<close>

section \<open>Contexts and environments\<close>

text \<open>The handlers of the chains that \<open>main\<close> builds.\<close>

datatype handler =
  H_root | H_hello_1 | H_hello_2 | H_get_challenges_1 | H_get_challenges_2
| H_get_own_challenges_1 | H_get_own_challenges_2 | H_post_challenges_1 | H_post_challenges_2
| H_put_challenges_1 | H_put_challenges_2 | H_put_challenges_3 | H_put_challenges_4
| H_delete_challenges_1 | H_delete_challenges_2 | H_delete_challenges_3 | H_delete_challenges_4
| H_post_answers_1 | H_post_answers_2 | H_post_answers_3 | H_post_answers_4 | H_post_answers_5
| H_get_answers_1 | H_get_answers_2 | H_get_answers_3
| H_get_own_answers_1 | H_get_own_answers_2 | H_get_own_answers_3
| H_get_users_1 | H_get_users_2 | H_get_users_3
| H_signup_1 | H_signup_2 | H_signup_3 | H_signup_4 | H_signup_5
| H_login_1 | H_login_2 | H_login_3 | H_login_4 | H_login_5
| H_auth_1 | H_auth_2 | H_logout_1 | H_logout_2

record auth_state =
  st_input :: auth_request
  st_user_id :: string
  st_session_id :: string
  st_issued_at :: int
  found_user :: bool
  token :: "string option"
  st_response :: string
  response_len :: nat

record challenge_write_state =
  write_id :: int
  write_input :: create_challenge_request

record answer_submit_state =
  submit_input :: submit_answer_request
  submit_insert_id :: int

datatype app_data =
  No_data | Auth_data auth_state | Write_data challenge_write_state | Submit_data answer_submit_state
| List_data int | Users_data "public_user list"

record auth_identity =
  claims :: auth_claims
  verified :: bool

text \<open>
  What the handlers read of a request: the body of \<open>content_length\<close> bytes, the query parameters
  and the headers.  \<open>chain\<close> are the current handler and its successors.
\<close>

record http_context =
  req_body :: "string option"
  req_params :: "(string \<times> string option) list"
  req_headers :: "(string \<times> string) list"
  identity :: "auth_identity option"
  app :: app_data
  chain :: "handler list"

record auth_runtime =
  rt_config :: "auth_config option"
  contest_start_at :: int
  contest_end_at :: int
  contest_end_enabled :: bool
  rt_worker :: bool

datatype submission =
  Query string
| Param_query string "string option db_param list"
| Password password_operation "string option" "string option"

text \<open>
  The environment of a call: the configuration, the clock, the libraries and the random source,
  whether the database pool accepts a query, what the password worker answers to a submission,
  the memory that is left for the parts of the handler, and \<open>qsort\<close>.
\<close>

record env =
  runtime :: "auth_runtime option"
  now :: int
  e_libs :: libs
  random :: "string option option"
  system_random :: string
  accepts :: "submission \<Rightarrow> bool"
  submit_result :: "password_operation \<Rightarrow> string option \<Rightarrow> string option \<Rightarrow> password_submit_result"
  parse_mem :: nat
  bind_mem :: bool
  state_mem :: bool
  select_mem :: bool
  json_mem :: "nat \<Rightarrow> bool"
  qsort_users :: "public_user qsort_fun"
  qsort_answers :: "score_answer qsort_fun"

text \<open>What a handler is called with; a password job brings its status, whether it was cancelled, and the hash.\<close>

datatype event = Start | Db_done db_task | Password_done auth_result bool string

datatype step = Reply http_response | Await submission http_context

definition db_result_of :: "event \<Rightarrow> db_result option" where
  "db_result_of ev = (case ev of Db_done task \<Rightarrow> Some (task_result task) | _ \<Rightarrow> None)"

definition error_response :: http_response where
  "error_response = response_status HTTP_STATUS_INTERNAL_SERVER_ERROR"

definition private_status :: "http_status \<Rightarrow> http_response" where
  "private_status s = (response_status s)\<lparr>no_store := True\<rparr>"

definition json_reply :: "http_status \<Rightarrow> string \<Rightarrow> nat \<Rightarrow> http_response" where
  "json_reply s ptr len = (response_text s ptr len)\<lparr>content_type_text := Some ''application/json''\<rparr>"

definition next_handler :: "http_context \<Rightarrow> http_context" where
  "next_handler ctx = ctx\<lparr>chain := tl (chain ctx)\<rparr>"

definition has_next :: "http_context \<Rightarrow> bool" where
  "has_next ctx \<longleftrightarrow> length (chain ctx) \<ge> 2"

text \<open>The submission of a query, and the response when it is not accepted.\<close>

definition submit :: "env \<Rightarrow> submission \<Rightarrow> http_context \<Rightarrow> http_response \<Rightarrow> step option" where
  "submit env q ctx response = Some (if accepts env q then Await q ctx else Reply response)"

definition string_param :: "string \<Rightarrow> string option db_param" where
  "string_param s = DB_PARAM_STRING (Some s) (length s)"

section \<open>Identity\<close>

definition auth_request_user :: "http_context \<Rightarrow> string option" where
  "auth_request_user ctx =
     (case identity ctx of
        None \<Rightarrow> None
      | Some i \<Rightarrow> if \<not> verified i then None else Some (cstr (user_id (claims i))))"

definition auth_unauthorized :: http_response where
  "auth_unauthorized = (response_status HTTP_STATUS_UNAUTHORIZED)\<lparr>bearer_challenge := True, no_store := True\<rparr>"

text \<open>The header of the authorization; \<open>None\<close> when there are two.\<close>

fun find_authorization :: "(string \<times> string) list \<Rightarrow> string option \<Rightarrow> string option option" where
  "find_authorization [] found = Some found"
| "find_authorization ((name, value) # hs) found =
     (if length name = 13 \<and> case_eq name ''Authorization'' then
        (if found \<noteq> None then None else find_authorization hs (Some value))
      else find_authorization hs found)"

definition AUTH_SESSIONS_QUERY :: string where
  "AUTH_SESSIONS_QUERY = ''SELECT s.id,u.id,TIMESTAMPDIFF(SECOND,'' @ [CHR 0x27] @ ''1970-01-01'' @ [CHR 0x27] @ '',s.issued_at),'' @
     ''TIMESTAMPDIFF(SECOND,'' @ [CHR 0x27] @ ''1970-01-01'' @ [CHR 0x27] @ '',s.expires_at) FROM auth_sessions s '' @
     ''JOIN users u ON u.id=s.user_id WHERE s.expires_at>UTC_TIMESTAMP()-INTERVAL 30 SECOND''"

text \<open>The token of a single header \<open>Authorization: Bearer <token>\<close>.\<close>

definition presented_token :: "http_context \<Rightarrow> string option" where
  "presented_token ctx =
     (case find_authorization (req_headers ctx) None of
        Some (Some value) \<Rightarrow>
          if length value < 8 \<or> \<not> case_eq (take 6 value) ''Bearer'' \<or> value ! 6 \<noteq> CHR '' '' then None
          else Some (dropWhile (\<lambda>c. c = CHR '' '') (drop 6 value))
      | _ \<Rightarrow> None)"

definition handle_auth_1 :: "env \<Rightarrow> http_context \<Rightarrow> step option" where
  "handle_auth_1 env ctx =
     (case runtime env of
        None \<Rightarrow> Some (Reply error_response)
      | Some rt \<Rightarrow>
        (case rt_config rt of
           None \<Rightarrow> Some (Reply error_response)
         | Some config \<Rightarrow>
           (case presented_token ctx of
              None \<Rightarrow> Some (Reply auth_unauthorized)
            | Some tok \<Rightarrow>
                if now env < 0 then Some (Reply error_response)
                else (case auth_token_verify (e_libs env) config (Some tok) (now env) of
                    (AUTH_OK, c) \<Rightarrow>
                      if \<not> state_mem env then Some (Reply error_response)
                      else submit env (Query AUTH_SESSIONS_QUERY)
                        (next_handler (ctx\<lparr>identity := Some \<lparr>claims = c, verified = False\<rparr>\<rparr>)) error_response
                  | (AUTH_INVALID, _) \<Rightarrow> Some (Reply auth_unauthorized)
                  | (AUTH_ERROR, _) \<Rightarrow> Some (Reply error_response)))))"

text \<open>A stored session is the one of the claims.\<close>

definition session_matches :: "auth_claims \<Rightarrow> auth_session \<Rightarrow> bool" where
  "session_matches c s \<longleftrightarrow> ses_id s = session_id c \<and> ses_user s = user_id c \<and>
     ses_issued_at s = issued_at c \<and> ses_expires_at s = expires_at c"

text \<open>\<open>run\<close> is the call of the next handler.\<close>

definition handle_auth_2 :: "(http_context \<Rightarrow> step option) \<Rightarrow> env \<Rightarrow> event \<Rightarrow> http_context \<Rightarrow> step option" where
  "handle_auth_2 run env ev ctx =
     (case bind_auth_sessions (bind_mem env) (db_result_of ev) of
        None \<Rightarrow> Some (Reply error_response)
      | Some sessions \<Rightarrow>
        (case identity ctx of
           None \<Rightarrow> None
         | Some i \<Rightarrow>
           let found = list_ex (session_matches (claims i)) sessions in
           if now env < 0 then Some (Reply error_response)
           else if \<not> found \<or> now env \<ge> expires_at (claims i) + AUTH_CLOCK_SKEW \<or>
                   now env + AUTH_CLOCK_SKEW < not_before (claims i) then Some (Reply auth_unauthorized)
           else run (next_handler (ctx\<lparr>identity := Some (i\<lparr>verified := True\<rparr>)\<rparr>))))"

section \<open>Credentials\<close>

definition zero_auth_state :: auth_state where
  "zero_auth_state = \<lparr>st_input = zero_auth_request, st_user_id = [], st_session_id = [], st_issued_at = 0,
     found_user = False, token = None, st_response = replicate (AUTH_TOKEN_MAX + 64) (CHR 0x00), response_len = 0\<rparr>"

definition read_credentials :: "env \<Rightarrow> http_context \<Rightarrow> (http_response + auth_state) option" where
  "read_credentials env ctx =
     (case runtime env of
        None \<Rightarrow> Some (Inl (private_status HTTP_STATUS_INTERNAL_SERVER_ERROR))
      | Some rt \<Rightarrow>
          if rt_config rt = None \<or> \<not> rt_worker rt then Some (Inl (private_status HTTP_STATUS_INTERNAL_SERVER_ERROR))
          else if \<not> state_mem env then Some (Inl (private_status HTTP_STATUS_INTERNAL_SERVER_ERROR))
          else do {
            (result, input) \<leftarrow> json_to_auth_request (parse_mem env) (req_body ctx);
            Some (if result \<noteq> 0 then
                Inl (private_status (if result = -2 then HTTP_STATUS_INTERNAL_SERVER_ERROR else HTTP_STATUS_BAD_REQUEST))
              else Inr (zero_auth_state\<lparr>st_input := input\<rparr>))
          })"

text \<open>The password is consumed by the submission.\<close>

definition submit_password ::
  "env \<Rightarrow> http_context \<Rightarrow> auth_state \<Rightarrow> password_operation \<Rightarrow> string option \<Rightarrow> step" where
  "submit_password env ctx st op hash =
     (let pw = auth_password (st_input st);
          st = st\<lparr>st_input := (st_input st)\<lparr>auth_password := None\<rparr>\<rparr>;
          result = submit_result env op pw hash in
      if result \<noteq> PASSWORD_QUEUED then
        Reply (private_status (if result = PASSWORD_QUEUE_FULL \<or> result = PASSWORD_WORKER_STOPPED
          then HTTP_STATUS_SERVICE_UNAVAILABLE else HTTP_STATUS_INTERNAL_SERVER_ERROR))
      else Await (Password op pw hash) (next_handler (ctx\<lparr>app := Auth_data st\<rparr>)))"

text \<open>\<open>snprintf\<close> into the response buffer of the state.\<close>

definition print_response :: "string \<Rightarrow> auth_state \<Rightarrow> auth_state" where
  "print_response t st = st\<lparr>st_response := take (AUTH_TOKEN_MAX + 63) t @ [CHR 0x00], response_len := length t\<rparr>"

definition json_response :: "auth_state \<Rightarrow> http_status \<Rightarrow> http_response" where
  "json_response st s = (json_reply s (st_response st) (response_len st))\<lparr>no_store := True\<rparr>"

definition USERS_QUERY :: string where "USERS_QUERY = ''SELECT id, username, password_hash FROM users''"

text \<open>The state that a handler finds; another kind of data would be misread memory.\<close>

definition with_auth_state :: "http_context \<Rightarrow> (auth_state \<Rightarrow> step option) \<Rightarrow> step option" where
  "with_auth_state ctx f = (case app ctx of Auth_data st \<Rightarrow> f st | _ \<Rightarrow> None)"

section \<open>Signup\<close>

definition handle_signup_1 :: "env \<Rightarrow> http_context \<Rightarrow> step option" where
  "handle_signup_1 env ctx = do {
     r \<leftarrow> read_credentials env ctx;
     case r of
       Inl response \<Rightarrow> Some (Reply response)
     | Inr st \<Rightarrow> submit env (Query USERS_QUERY) (next_handler (ctx\<lparr>app := Auth_data st\<rparr>))
         (private_status HTTP_STATUS_INTERNAL_SERVER_ERROR)
   }"

definition same_name :: "auth_state \<Rightarrow> user \<Rightarrow> bool" where
  "same_name st u \<longleftrightarrow> Some (usr_name u) = auth_username (st_input st)"

definition handle_signup_2 :: "env \<Rightarrow> event \<Rightarrow> http_context \<Rightarrow> step option" where
  "handle_signup_2 env ev ctx = with_auth_state ctx (\<lambda>st.
     case bind_users (bind_mem env) (db_result_of ev) of
       None \<Rightarrow> Some (Reply (private_status HTTP_STATUS_INTERNAL_SERVER_ERROR))
     | Some users \<Rightarrow>
         if list_ex (same_name st) users then Some (Reply (private_status HTTP_STATUS_CONFLICT))
         else Some (submit_password env ctx st PASSWORD_HASH None))"

definition signup_text :: "string \<Rightarrow> string \<Rightarrow> string" where
  \<open>signup_text i n = ''{"id":"'' @ i @ ''","username":"'' @ cstr n @ ''"}''\<close>

definition INSERT_USER :: string where
  "INSERT_USER = ''INSERT INTO users (id, username, password_hash, created_at) VALUES (?, ?, ?, UTC_TIMESTAMP())''"

definition handle_signup_3 :: "env \<Rightarrow> event \<Rightarrow> http_context \<Rightarrow> step option" where
  "handle_signup_3 env ev ctx = with_auth_state ctx (\<lambda>st.
     let failed = private_status HTTP_STATUS_INTERNAL_SERVER_ERROR in
     case ev of
       Password_done s was_cancelled hash \<Rightarrow>
         if s \<noteq> AUTH_OK \<or> was_cancelled then Some (Reply failed)
         else (case auth_generate_id (e_libs env) (random env) (system_random env) of
           (AUTH_OK, i) \<Rightarrow> do {
             n \<leftarrow> auth_username (st_input st);
             let st = print_response (signup_text i n) (st\<lparr>st_user_id := i\<rparr>);
             submit env (Param_query INSERT_USER [DB_PARAM_STRING (Some i) AUTH_ID_LENGTH, string_param n, string_param (cstr hash)])
               (next_handler (ctx\<lparr>app := Auth_data st\<rparr>)) failed }
         | _ \<Rightarrow> Some (Reply failed))
     | _ \<Rightarrow> Some (Reply failed))"

definition handle_signup_4 :: "env \<Rightarrow> event \<Rightarrow> http_context \<Rightarrow> step option" where
  "handle_signup_4 env ev ctx = with_auth_state ctx (\<lambda>st.
     let failed = private_status HTTP_STATUS_INTERNAL_SERVER_ERROR in
     case db_result_of ev of
       Some r \<Rightarrow>
         if success r then Some (Reply (if affected r = 1 then json_response st HTTP_STATUS_CREATED else failed))
         else submit env (Query USERS_QUERY) (next_handler ctx) failed
     | None \<Rightarrow> submit env (Query USERS_QUERY) (next_handler ctx) failed)"

definition handle_signup_5 :: "env \<Rightarrow> event \<Rightarrow> http_context \<Rightarrow> step option" where
  "handle_signup_5 env ev ctx = with_auth_state ctx (\<lambda>st.
     case bind_users (bind_mem env) (db_result_of ev) of
       None \<Rightarrow> Some (Reply (private_status HTTP_STATUS_INTERNAL_SERVER_ERROR))
     | Some users \<Rightarrow> Some (Reply (private_status
         (if list_ex (same_name st) users then HTTP_STATUS_CONFLICT else HTTP_STATUS_INTERNAL_SERVER_ERROR))))"

section \<open>Login and logout\<close>

definition handle_login_1 :: "env \<Rightarrow> http_context \<Rightarrow> step option" where
  "handle_login_1 env ctx = do {
     r \<leftarrow> read_credentials env ctx;
     case r of
       Inl response \<Rightarrow> Some (Reply response)
     | Inr st \<Rightarrow> submit env (Query USERS_QUERY) (next_handler (ctx\<lparr>app := Auth_data st\<rparr>))
         (private_status HTTP_STATUS_INTERNAL_SERVER_ERROR)
   }"

definition handle_login_2 :: "env \<Rightarrow> event \<Rightarrow> http_context \<Rightarrow> step option" where
  "handle_login_2 env ev ctx = with_auth_state ctx (\<lambda>st.
     case bind_users (bind_mem env) (db_result_of ev) of
       None \<Rightarrow> Some (Reply (private_status HTTP_STATUS_INTERNAL_SERVER_ERROR))
     | Some users \<Rightarrow>
         (case find (same_name st) users of
            None \<Rightarrow> Some (submit_password env ctx st PASSWORD_VERIFY None)
          | Some u \<Rightarrow> Some (submit_password env ctx (st\<lparr>st_user_id := usr_id u, found_user := True\<rparr>)
              PASSWORD_VERIFY (Some (usr_hash u)))))"

definition DELETE_EXPIRED :: string where
  "DELETE_EXPIRED = ''DELETE FROM auth_sessions WHERE expires_at <= UTC_TIMESTAMP() - INTERVAL 30 SECOND''"

definition handle_login_3 :: "env \<Rightarrow> event \<Rightarrow> http_context \<Rightarrow> step option" where
  "handle_login_3 env ev ctx = with_auth_state ctx (\<lambda>st.
     let failed = private_status HTTP_STATUS_INTERNAL_SERVER_ERROR in
     case ev of
       Password_done s was_cancelled hash \<Rightarrow>
         if was_cancelled \<or> s = AUTH_ERROR then Some (Reply failed)
         else if s \<noteq> AUTH_OK \<or> \<not> found_user st then Some (Reply auth_unauthorized)
         else submit env (Param_query DELETE_EXPIRED []) (next_handler ctx) failed
     | _ \<Rightarrow> Some (Reply failed))"

definition login_text :: "string \<Rightarrow> string" where
  \<open>login_text t = ''{"token":"'' @ cstr t @ ''"}''\<close>

definition INSERT_SESSION :: string where
  "INSERT_SESSION = ''INSERT INTO auth_sessions (id,user_id,issued_at,expires_at) VALUES '' @
     ''(?,?,DATE_ADD('' @ [CHR 0x27] @ ''1970-01-01'' @ [CHR 0x27] @ '', INTERVAL ? SECOND),DATE_ADD('' @ [CHR 0x27] @
     ''1970-01-01'' @ [CHR 0x27] @ '', INTERVAL ? SECOND))''"

definition handle_login_4 :: "env \<Rightarrow> event \<Rightarrow> http_context \<Rightarrow> step option" where
  "handle_login_4 env ev ctx = with_auth_state ctx (\<lambda>st.
     let failed = private_status HTTP_STATUS_INTERNAL_SERVER_ERROR in
     if \<not> (case db_result_of ev of Some r \<Rightarrow> success r | None \<Rightarrow> False) then Some (Reply failed)
     else do {
       rt \<leftarrow> runtime env;
       config \<leftarrow> rt_config rt;
       (case auth_generate_id (e_libs env) (random env) (system_random env) of
          (AUTH_OK, i) \<Rightarrow>
            (case auth_token_issue (e_libs env) config (Some (cstr (st_user_id st))) (Some (cstr i)) (now env) of
               (AUTH_OK, Some t) \<Rightarrow>
                 let st = print_response (login_text t) (st\<lparr>st_issued_at := now env, st_session_id := i, token := Some t\<rparr>) in
                 submit env (Param_query INSERT_SESSION [DB_PARAM_STRING (Some i) AUTH_ID_LENGTH,
                     DB_PARAM_STRING (Some (st_user_id st)) AUTH_ID_LENGTH, DB_PARAM_INT64 (now env),
                     DB_PARAM_INT64 (now env + ttl config)])
                   (next_handler (ctx\<lparr>app := Auth_data st\<rparr>)) failed
             | _ \<Rightarrow> Some (Reply failed))
        | _ \<Rightarrow> Some (Reply failed))
     })"

definition handle_login_5 :: "env \<Rightarrow> event \<Rightarrow> http_context \<Rightarrow> step option" where
  "handle_login_5 env ev ctx = with_auth_state ctx (\<lambda>st.
     Some (Reply (if (case db_result_of ev of Some r \<Rightarrow> success r \<and> affected r = 1 | None \<Rightarrow> False)
       then json_response st HTTP_STATUS_OK else private_status HTTP_STATUS_INTERNAL_SERVER_ERROR)))"

definition DELETE_SESSION :: string where
  "DELETE_SESSION = ''DELETE FROM auth_sessions WHERE id=? AND user_id=?''"

definition handle_logout_1 :: "env \<Rightarrow> http_context \<Rightarrow> step option" where
  "handle_logout_1 env ctx =
     (if auth_request_user ctx = None then Some (Reply auth_unauthorized)
      else do {
        i \<leftarrow> identity ctx;
        submit env (Param_query DELETE_SESSION [DB_PARAM_STRING (Some (session_id (claims i))) AUTH_ID_LENGTH,
            DB_PARAM_STRING (Some (user_id (claims i))) AUTH_ID_LENGTH])
          (next_handler ctx) (private_status HTTP_STATUS_INTERNAL_SERVER_ERROR)
      })"

definition handle_logout_2 :: "env \<Rightarrow> event \<Rightarrow> http_context \<Rightarrow> step option" where
  "handle_logout_2 env ev ctx =
     Some (Reply (private_status
       (if (case db_result_of ev of Some r \<Rightarrow> success r \<and> affected r \<le> 1 | None \<Rightarrow> False)
        then HTTP_STATUS_OK else HTTP_STATUS_INTERNAL_SERVER_ERROR)))"

end
