(* ===== verification/HandlerChallenge.thy ===== *)
theory HandlerChallenge
  imports HandlerAuth
begin

text \<open>
  \<open>src/src/app/handler_challenge.c\<close>: listing, creating, updating and deleting challenges.  The
  response buffers that the code keeps in the data of a request have no counterpart.
\<close>

section \<open>Public listing\<close>

definition SELECT_PUBLIC :: string where
  "SELECT_PUBLIC = ''SELECT id, creator_id, name, description, genre FROM challenges;''"

definition SELECT_CHALLENGES :: string where
  "SELECT_CHALLENGES = ''SELECT id, creator_id, name, description, flag, genre FROM challenges''"

definition before_contest :: "env \<Rightarrow> http_response option" where
  "before_contest env =
     (case runtime env of
        None \<Rightarrow> None
      | Some rt \<Rightarrow>
          if contest_start_at rt \<noteq> 0 \<and> (now env < 0 \<or> now env < contest_start_at rt)
          then Some (private_status (if now env < 0 then HTTP_STATUS_INTERNAL_SERVER_ERROR else HTTP_STATUS_FORBIDDEN))
          else None)"

definition handle_get_challenges_1 :: "env \<Rightarrow> http_context \<Rightarrow> step option" where
  "handle_get_challenges_1 env ctx =
     (case before_contest env of
        Some response \<Rightarrow> Some (Reply response)
      | None \<Rightarrow> if has_next ctx then submit env (Query SELECT_PUBLIC) (next_handler ctx) error_response else None)"

definition handle_get_challenges_2 :: "env \<Rightarrow> event \<Rightarrow> http_context \<Rightarrow> step option" where
  "handle_get_challenges_2 env ev ctx =
     (if has_next ctx then None
      else do {
        r \<leftarrow> db_result_of ev;
        if \<not> success r then Some (Reply (response_text HTTP_STATUS_INTERNAL_SERVER_ERROR ''db error'' 8))
        else (case bind_challenges_without_flag (bind_mem env) (Some r) of
          None \<Rightarrow> Some (Reply (json_reply HTTP_STATUS_OK ''[]'' 2))
        | Some cs \<Rightarrow> do {
            (ptr, len) \<leftarrow> challenges_to_json_without_flag (json_mem env) (Some cs) False (None, 0);
            Some (Reply (case ptr of
                None \<Rightarrow> response_text HTTP_STATUS_INTERNAL_SERVER_ERROR ''json error'' 10
              | Some p \<Rightarrow> json_reply HTTP_STATUS_OK p len)) })
      })"

section \<open>Own challenges\<close>

definition handle_get_own_challenges_1 :: "env \<Rightarrow> http_context \<Rightarrow> step option" where
  "handle_get_own_challenges_1 env ctx =
     (if auth_request_user ctx = None then Some (Reply auth_unauthorized)
      else if has_next ctx then
        submit env (Query SELECT_CHALLENGES) (next_handler ctx) (private_status HTTP_STATUS_INTERNAL_SERVER_ERROR)
      else None)"

text \<open>
  The checks of a result of six fields that several handlers share: \<open>None\<close> when they fail, or
  whether the result is empty.
\<close>

definition challenge_rows :: "event \<Rightarrow> bool option" where
  "challenge_rows ev =
     (case db_result_of ev of
        None \<Rightarrow> None
      | Some r \<Rightarrow>
          if \<not> success r then None
          else (case res_set r of
            None \<Rightarrow> None
          | Some rs \<Rightarrow> if num_fields rs \<noteq> 6 then None else Some (num_rows rs = 0)))"

text \<open>The challenges of a result; \<open>count\<close> is 0 when there are none.\<close>

definition bound_challenges :: "env \<Rightarrow> event \<Rightarrow> challenge list option" where
  "bound_challenges env ev = bind_challenges (bind_mem env) (db_result_of ev)"

definition handle_get_own_challenges_2 :: "env \<Rightarrow> event \<Rightarrow> http_context \<Rightarrow> step option" where
  "handle_get_own_challenges_2 env ev ctx =
     (let failed = private_status HTTP_STATUS_INTERNAL_SERVER_ERROR in
      case auth_request_user ctx of
        None \<Rightarrow> Some (Reply auth_unauthorized)
      | Some u \<Rightarrow>
        (case challenge_rows ev of
           None \<Rightarrow> Some (Reply failed)
         | Some none \<Rightarrow>
             let challenges = bound_challenges env ev;
                 cs = (case challenges of None \<Rightarrow> [] | Some cs \<Rightarrow> cs) in
             if challenges = None \<and> \<not> none then Some (Reply failed)
             else if cs \<noteq> [] \<and> \<not> select_mem env then Some (Reply failed)
             else
               let selected = filter (\<lambda>c. string_equals (creator_id c) u) cs in
               if selected = [] then Some (Reply ((json_reply HTTP_STATUS_OK ''[]'' 2)\<lparr>no_store := True\<rparr>))
               else do {
                 (ptr, len) \<leftarrow> challenges_to_json (json_mem env) (Some selected) False (None, 0);
                 Some (Reply (case ptr of
                     None \<Rightarrow> failed
                   | Some p \<Rightarrow> (json_reply HTTP_STATUS_OK p len)\<lparr>no_store := True\<rparr>))
               }))"

section \<open>Creating a challenge\<close>

definition int_of_genre :: "ctf_genre \<Rightarrow> int" where
  "int_of_genre g = (case g of CTF_GENRE_WEB \<Rightarrow> 0 | CTF_GENRE_CRYPTO \<Rightarrow> 1 | CTF_GENRE_PWN \<Rightarrow> 2 | CTF_GENRE_REV \<Rightarrow> 3
     | CTF_GENRE_FORENSICS \<Rightarrow> 4 | CTF_GENRE_OSINT \<Rightarrow> 5 | CTF_GENRE_MISC \<Rightarrow> 6)"

definition INSERT_CHALLENGE :: string where
  "INSERT_CHALLENGE = ''INSERT INTO challenges (creator_id, name, description, flag, genre) VALUES (?, ?, ?, ?, ?)''"

definition parse_status :: "int \<Rightarrow> http_status" where
  "parse_status r = (if r = -2 then HTTP_STATUS_INTERNAL_SERVER_ERROR else HTTP_STATUS_BAD_REQUEST)"

definition handle_post_challenges_1 :: "env \<Rightarrow> http_context \<Rightarrow> step option" where
  "handle_post_challenges_1 env ctx =
     (case auth_request_user ctx of
        None \<Rightarrow> Some (Reply auth_unauthorized)
      | Some u \<Rightarrow>
          if \<not> has_next ctx then None
          else
            let (r, request) = json_to_create_challenge_request (parse_mem env) (req_body ctx) in
            if r \<noteq> 0 then Some (Reply (response_status (parse_status r)))
            else submit env (Param_query INSERT_CHALLENGE [string_param u, string_param (req_name request),
                string_param (req_description request), string_param (req_flag request),
                DB_PARAM_INT64 (int_of_genre (req_genre request))])
              (next_handler ctx) error_response)"

text \<open>A string parameter of a finished task.\<close>

definition task_string :: "db_task \<Rightarrow> nat \<Rightarrow> string option" where
  "task_string task i = do {
     p \<leftarrow> rd (task_params task) i;
     (case p of DB_PARAM_STRING pos len \<Rightarrow> rd_bytes (strings task) pos len | _ \<Rightarrow> None)
   }"

definition task_integer :: "db_task \<Rightarrow> nat \<Rightarrow> int option" where
  "task_integer task i = do {
     p \<leftarrow> rd (task_params task) i;
     (case p of DB_PARAM_INT64 v \<Rightarrow> Some v | _ \<Rightarrow> None)
   }"

definition handle_post_challenges_2 :: "env \<Rightarrow> event \<Rightarrow> http_context \<Rightarrow> step option" where
  "handle_post_challenges_2 env ev ctx =
     (if has_next ctx then None
      else (case ev of
        Db_done task \<Rightarrow>
          let r = task_result task in
          if \<not> (success r \<and> affected r = 1 \<and> insert_id r > 0 \<and> insert_id r \<le> INT_MAX) then Some (Reply error_response)
          else do {
            c \<leftarrow> task_string task 0;
            n \<leftarrow> task_string task 1;
            d \<leftarrow> task_string task 2;
            f \<leftarrow> task_string task 3;
            g \<leftarrow> task_integer task 4;
            (ptr, len) \<leftarrow> challenge_to_json (json_mem env 0) \<lparr>ch_id = int (insert_id r), creator_id = c, ch_name = n,
              description = d, flag = f, genre = genre_of_int g\<rparr> False;
            Some (Reply (case ptr of None \<Rightarrow> error_response | Some p \<Rightarrow> json_reply HTTP_STATUS_CREATED p len))
          }
      | _ \<Rightarrow> None))"

section \<open>Updating and deleting\<close>

definition parse_challenge_id :: "string option \<Rightarrow> int option" where
  "parse_challenge_id t =
     (case t of
        None \<Rightarrow> None
      | Some s \<Rightarrow>
          if s = [] \<or> hd s < CHR ''1'' \<or> CHR ''9'' < hd s then None else bounded_loop (int INT_MAX) s 0)"

fun read_challenge_id :: "(string \<times> string option) list \<Rightarrow> int option \<Rightarrow> int option" where
  "read_challenge_id [] found = found"
| "read_challenge_id ((name, value) # ps) found =
     (if name \<noteq> ''id'' then read_challenge_id ps found
      else if found \<noteq> None then None
      else (case parse_challenge_id value of None \<Rightarrow> None | Some i \<Rightarrow> read_challenge_id ps (Some i)))"

definition new_challenge_write_state :: "env \<Rightarrow> http_context \<Rightarrow> http_response + challenge_write_state" where
  "new_challenge_write_state env ctx =
     (case read_challenge_id (req_params ctx) None of
        None \<Rightarrow> Inl (response_status HTTP_STATUS_BAD_REQUEST)
      | Some i \<Rightarrow>
          if \<not> state_mem env then Inl error_response
          else Inr \<lparr>write_id = i, write_input = zero_create_challenge_request\<rparr>)"

definition SELECT_OWNERS :: string where "SELECT_OWNERS = ''SELECT id, creator_id FROM challenges''"

definition select_challenge_owners :: "env \<Rightarrow> http_context \<Rightarrow> step option" where
  "select_challenge_owners env ctx =
     (if has_next ctx then submit env (Query SELECT_OWNERS) (next_handler ctx) error_response else None)"

text \<open>The loop over the rows.\<close>

fun owner_loop :: "mysql_row list \<Rightarrow> int \<Rightarrow> string \<Rightarrow> http_status" where
  "owner_loop [] target u = HTTP_STATUS_NOT_FOUND"
| "owner_loop (row # rows) target u =
     (case row of
        [i, Some c] \<Rightarrow>
          (case parse_challenge_id i of
             None \<Rightarrow> HTTP_STATUS_INTERNAL_SERVER_ERROR
           | Some n \<Rightarrow>
               if n = target then (if length c = length u \<and> c = u then HTTP_STATUS_OK else HTTP_STATUS_FORBIDDEN)
               else owner_loop rows target u)
      | _ \<Rightarrow> HTTP_STATUS_INTERNAL_SERVER_ERROR)"

definition challenge_write_access :: "db_result option \<Rightarrow> int \<Rightarrow> string option \<Rightarrow> http_status" where
  "challenge_write_access result target u =
     (case result of
        None \<Rightarrow> HTTP_STATUS_INTERNAL_SERVER_ERROR
      | Some r \<Rightarrow>
          if \<not> success r then HTTP_STATUS_INTERNAL_SERVER_ERROR
          else (case res_set r of
            None \<Rightarrow> HTTP_STATUS_INTERNAL_SERVER_ERROR
          | Some rs \<Rightarrow>
              if num_fields rs \<noteq> 2 then HTTP_STATUS_INTERNAL_SERVER_ERROR
              else owner_loop (res_rows rs) target (case u of None \<Rightarrow> [] | Some u \<Rightarrow> u)))"

definition updated_challenge_response :: "env \<Rightarrow> challenge_write_state \<Rightarrow> string option \<Rightarrow> http_response option" where
  "updated_challenge_response env st u = do {
     let input = write_input st;
     (ptr, len) \<leftarrow> challenge_to_json (json_mem env 0) \<lparr>ch_id = write_id st, creator_id = (case u of None \<Rightarrow> [] | Some u \<Rightarrow> u),
       ch_name = req_name input, description = req_description input, flag = req_flag input, genre = req_genre input\<rparr> False;
     Some (case ptr of None \<Rightarrow> error_response | Some p \<Rightarrow> json_reply HTTP_STATUS_OK p len)
   }"

definition with_write_state :: "http_context \<Rightarrow> (challenge_write_state \<Rightarrow> step option) \<Rightarrow> step option" where
  "with_write_state ctx f = (case app ctx of Write_data st \<Rightarrow> f st | _ \<Rightarrow> None)"

definition handle_put_challenges_1 :: "env \<Rightarrow> http_context \<Rightarrow> step option" where
  "handle_put_challenges_1 env ctx =
     (if auth_request_user ctx = None then Some (Reply auth_unauthorized)
      else (case new_challenge_write_state env ctx of
        Inl response \<Rightarrow> Some (Reply response)
      | Inr st \<Rightarrow>
          let (r, request) = json_to_create_challenge_request (parse_mem env) (req_body ctx) in
          if r \<noteq> 0 then Some (Reply (response_status (parse_status r)))
          else select_challenge_owners env (ctx\<lparr>app := Write_data (st\<lparr>write_input := request\<rparr>)\<rparr>)))"

definition UPDATE_CHALLENGE :: string where
  "UPDATE_CHALLENGE = ''UPDATE challenges SET name = ?, description = ?, flag = ?, genre = ? WHERE id = ? AND creator_id = ?''"

text \<open>The slice of the user; without a user its pointer is \<open>NULL\<close>.\<close>

definition user_param :: "string option \<Rightarrow> string option db_param" where
  "user_param u = DB_PARAM_STRING u (case u of None \<Rightarrow> 0 | Some s \<Rightarrow> length s)"

definition handle_put_challenges_2 :: "env \<Rightarrow> event \<Rightarrow> http_context \<Rightarrow> step option" where
  "handle_put_challenges_2 env ev ctx =
     (if \<not> has_next ctx then None
      else with_write_state ctx (\<lambda>st.
        let u = auth_request_user ctx;
            access = challenge_write_access (db_result_of ev) (write_id st) u;
            input = write_input st in
        if access \<noteq> HTTP_STATUS_OK then Some (Reply (response_status access))
        else submit env (Param_query UPDATE_CHALLENGE [string_param (req_name input), string_param (req_description input),
            string_param (req_flag input), DB_PARAM_INT64 (int_of_genre (req_genre input)), DB_PARAM_INT64 (write_id st),
            user_param u])
          (next_handler ctx) error_response))"

definition handle_put_challenges_3 :: "env \<Rightarrow> event \<Rightarrow> http_context \<Rightarrow> step option" where
  "handle_put_challenges_3 env ev ctx =
     (let ok = (case db_result_of ev of Some r \<Rightarrow> success r | None \<Rightarrow> False);
          n = (case db_result_of ev of Some r \<Rightarrow> if success r then affected r else 0 | None \<Rightarrow> 0) in
      if \<not> ok \<or> n > 1 then Some (Reply error_response)
      else if n = 0 then select_challenge_owners env ctx
      else with_write_state ctx (\<lambda>st. map_option Reply (updated_challenge_response env st (auth_request_user ctx))))"

definition handle_put_challenges_4 :: "env \<Rightarrow> event \<Rightarrow> http_context \<Rightarrow> step option" where
  "handle_put_challenges_4 env ev ctx =
     (if has_next ctx then None
      else with_write_state ctx (\<lambda>st.
        let access = challenge_write_access (db_result_of ev) (write_id st) (auth_request_user ctx) in
        if access = HTTP_STATUS_OK then map_option Reply (updated_challenge_response env st (auth_request_user ctx))
        else Some (Reply (response_status access))))"

definition handle_delete_challenges_1 :: "env \<Rightarrow> http_context \<Rightarrow> step option" where
  "handle_delete_challenges_1 env ctx =
     (if auth_request_user ctx = None then Some (Reply auth_unauthorized)
      else (case new_challenge_write_state env ctx of
        Inl response \<Rightarrow> Some (Reply response)
      | Inr st \<Rightarrow> select_challenge_owners env (ctx\<lparr>app := Write_data st\<rparr>)))"

definition DELETE_CHALLENGE :: string where
  "DELETE_CHALLENGE = ''DELETE FROM challenges WHERE id = ? AND creator_id = ?''"

definition handle_delete_challenges_2 :: "env \<Rightarrow> event \<Rightarrow> http_context \<Rightarrow> step option" where
  "handle_delete_challenges_2 env ev ctx =
     (if \<not> has_next ctx then None
      else with_write_state ctx (\<lambda>st.
        let u = auth_request_user ctx;
            access = challenge_write_access (db_result_of ev) (write_id st) u in
        if access \<noteq> HTTP_STATUS_OK then Some (Reply (response_status access))
        else submit env (Param_query DELETE_CHALLENGE [DB_PARAM_INT64 (write_id st), user_param u])
          (next_handler ctx) error_response))"

definition handle_delete_challenges_3 :: "env \<Rightarrow> event \<Rightarrow> http_context \<Rightarrow> step option" where
  "handle_delete_challenges_3 env ev ctx =
     (let ok = (case db_result_of ev of Some r \<Rightarrow> success r | None \<Rightarrow> False);
          n = (case db_result_of ev of Some r \<Rightarrow> if success r then affected r else 0 | None \<Rightarrow> 0) in
      if \<not> ok \<or> n > 1 then Some (Reply error_response)
      else if n = 0 then select_challenge_owners env ctx
      else Some (Reply (response_status HTTP_STATUS_OK)))"

definition handle_delete_challenges_4 :: "env \<Rightarrow> event \<Rightarrow> http_context \<Rightarrow> step option" where
  "handle_delete_challenges_4 env ev ctx =
     (if has_next ctx then None
      else with_write_state ctx (\<lambda>st.
        let access = challenge_write_access (db_result_of ev) (write_id st) (auth_request_user ctx) in
        Some (Reply (response_status (if access = HTTP_STATUS_OK then HTTP_STATUS_INTERNAL_SERVER_ERROR else access)))))"

end
