(* ===== verification/HandlerAnswer.thy ===== *)
theory HandlerAnswer
  imports HandlerChallenge JsonString
begin

text \<open>
  \<open>src/src/app/handler_answer.c\<close>, \<open>handler_user.c\<close> and \<open>handler_health.c\<close>: submitting and listing
  answers, the score board, and the two fixed pages.
\<close>

section \<open>The filter of the lists\<close>

text \<open>The number of the challenge, 0 for all, or \<open>None\<close> for a filter that is refused.\<close>

fun answer_filter_loop :: "(string \<times> string option) list \<Rightarrow> bool \<Rightarrow> int \<Rightarrow> int option" where
  "answer_filter_loop [] found i = Some i"
| "answer_filter_loop ((name, value) # ps) found i =
     (if name \<noteq> ''challenge_id'' then answer_filter_loop ps found i
      else (case value of
        None \<Rightarrow> None
      | Some v \<Rightarrow>
          if found \<or> v = [] \<or> hd v < CHR ''1'' \<or> CHR ''9'' < hd v then None
          else (case read_positive_integer \<lparr>cur = v, mem = 0\<rparr> of
            Inl _ \<Rightarrow> None
          | Inr (n, p) \<Rightarrow> if cur p \<noteq> [] then None else answer_filter_loop ps True (int n))))"

definition answer_filter :: "http_context \<Rightarrow> int option" where
  "answer_filter ctx = answer_filter_loop (req_params ctx) False 0"

section \<open>Submitting an answer\<close>

definition with_submit_state :: "http_context \<Rightarrow> (answer_submit_state \<Rightarrow> step option) \<Rightarrow> step option" where
  "with_submit_state ctx f = (case app ctx of Submit_data st \<Rightarrow> f st | _ \<Rightarrow> None)"

definition with_list_state :: "http_context \<Rightarrow> (int \<Rightarrow> step option) \<Rightarrow> step option" where
  "with_list_state ctx f = (case app ctx of List_data i \<Rightarrow> f i | _ \<Rightarrow> None)"

definition handle_post_answers_1 :: "env \<Rightarrow> http_context \<Rightarrow> step option" where
  "handle_post_answers_1 env ctx =
     (if auth_request_user ctx = None then Some (Reply auth_unauthorized)
      else if \<not> has_next ctx then None
      else if \<not> state_mem env then Some (Reply error_response)
      else
        let (r, request) = json_to_submit_answer_request (parse_mem env) (req_body ctx) in
        if r \<noteq> 0 then Some (Reply (response_status (parse_status r)))
        else submit env (Query SELECT_CHALLENGES)
          (next_handler (ctx\<lparr>app := Submit_data \<lparr>submit_input = request, submit_insert_id = 0\<rparr>\<rparr>)) error_response)"

definition INSERT_ANSWER :: string where
  "INSERT_ANSWER = ''INSERT INTO answers (challenge_id, user_id, answer, is_correct, created_at) '' @
     ''VALUES (?, ?, ?, ?, UTC_TIMESTAMP())''"

text \<open>The comparison with the flag of the first challenge with the number: negative when it fails or there is none.\<close>

definition answer_correct :: "challenge list \<Rightarrow> submit_answer_request \<Rightarrow> http_status \<times> int" where
  "answer_correct cs rq =
     (case find (\<lambda>c. ch_id c = int (sub_challenge_id rq)) cs of
        None \<Rightarrow> (HTTP_STATUS_NOT_FOUND, -1)
      | Some c \<Rightarrow> (HTTP_STATUS_INTERNAL_SERVER_ERROR, json_string_equal_decoded (Some (flag c)) (Some (sub_answer rq))))"

definition handle_post_answers_2 :: "env \<Rightarrow> event \<Rightarrow> http_context \<Rightarrow> step option" where
  "handle_post_answers_2 env ev ctx =
     (if \<not> has_next ctx then None
      else with_submit_state ctx (\<lambda>st.
        case challenge_rows ev of
          None \<Rightarrow> Some (Reply error_response)
        | Some none \<Rightarrow>
          (case bound_challenges env ev of
             None \<Rightarrow> Some (Reply (response_status (if none then HTTP_STATUS_NOT_FOUND else HTTP_STATUS_INTERNAL_SERVER_ERROR)))
           | Some cs \<Rightarrow>
               let (s, correct) = answer_correct cs (submit_input st) in
               if correct < 0 then Some (Reply (response_status s))
               else submit env (Param_query INSERT_ANSWER [DB_PARAM_INT64 (int (sub_challenge_id (submit_input st))),
                   user_param (auth_request_user ctx), string_param (sub_answer (submit_input st)), DB_PARAM_INT64 correct])
                 (next_handler ctx) (response_status s))))"

definition SELECT_ANSWERS :: string where
  "SELECT_ANSWERS = ''SELECT a.id,a.challenge_id,a.user_id,a.answer,a.is_correct,'' @
     ''DATE_FORMAT(a.created_at,'' @ [CHR 0x27] @ ''%Y-%m-%dT%H:%i:%sZ'' @ [CHR 0x27] @ ''),u.username '' @
     ''FROM answers a JOIN users u ON u.id=a.user_id ORDER BY a.id''"

definition handle_post_answers_3 :: "env \<Rightarrow> event \<Rightarrow> http_context \<Rightarrow> step option" where
  "handle_post_answers_3 env ev ctx =
     (if length (chain ctx) < 3 then None
      else with_submit_state ctx (\<lambda>st.
        case db_result_of ev of
          Some r \<Rightarrow>
            if \<not> success r then submit env (Query SELECT_CHALLENGES) (next_handler (next_handler ctx)) error_response
            else if affected r \<noteq> 1 \<or> insert_id r = 0 \<or> insert_id r > INT_MAX then Some (Reply error_response)
            else submit env (Query SELECT_ANSWERS)
              (next_handler (ctx\<lparr>app := Submit_data (st\<lparr>submit_insert_id := int (insert_id r)\<rparr>)\<rparr>)) error_response
        | None \<Rightarrow> submit env (Query SELECT_CHALLENGES) (next_handler (next_handler ctx)) error_response))"

definition handle_post_answers_4 :: "env \<Rightarrow> event \<Rightarrow> http_context \<Rightarrow> step option" where
  "handle_post_answers_4 env ev ctx = with_submit_state ctx (\<lambda>st.
     case bind_answers (bind_mem env) (db_result_of ev) of
       None \<Rightarrow> Some (Reply error_response)
     | Some answers \<Rightarrow>
         (case find (\<lambda>a. ans_id a = submit_insert_id st) answers of
            None \<Rightarrow> Some (Reply (response_status HTTP_STATUS_NOT_FOUND))
          | Some a \<Rightarrow> do {
              (ptr, len) \<leftarrow> answer_to_json (json_mem env 0) a;
              Some (Reply (case ptr of None \<Rightarrow> error_response | Some p \<Rightarrow> json_reply HTTP_STATUS_OK p len)) }))"

definition challenge_exists :: "env \<Rightarrow> event \<Rightarrow> int \<Rightarrow> bool option" where
  "challenge_exists env ev i =
     (case challenge_rows ev of
        None \<Rightarrow> None
      | Some none \<Rightarrow>
          (case bound_challenges env ev of
             None \<Rightarrow> if none then Some False else None
           | Some cs \<Rightarrow> Some (list_ex (\<lambda>c. ch_id c = i) cs)))"

definition handle_post_answers_5 :: "env \<Rightarrow> event \<Rightarrow> http_context \<Rightarrow> step option" where
  "handle_post_answers_5 env ev ctx =
     (if has_next ctx then None
      else with_submit_state ctx (\<lambda>st.
        Some (Reply (if challenge_exists env ev (int (sub_challenge_id (submit_input st))) = Some False
          then response_status HTTP_STATUS_NOT_FOUND else error_response))))"

section \<open>Listing answers\<close>

definition handle_get_answers_1 :: "env \<Rightarrow> http_context \<Rightarrow> step option" where
  "handle_get_answers_1 env ctx =
     (if \<not> has_next ctx then None
      else (case answer_filter ctx of
        None \<Rightarrow> Some (Reply (response_status HTTP_STATUS_BAD_REQUEST))
      | Some i \<Rightarrow>
          if \<not> state_mem env then Some (Reply error_response)
          else submit env (Query SELECT_CHALLENGES) (next_handler (ctx\<lparr>app := List_data i\<rparr>)) error_response))"

definition handle_get_answers_2 :: "env \<Rightarrow> event \<Rightarrow> http_context \<Rightarrow> step option" where
  "handle_get_answers_2 env ev ctx =
     (if \<not> has_next ctx then None
      else with_list_state ctx (\<lambda>i.
        case challenge_exists env ev i of
          None \<Rightarrow> Some (Reply error_response)
        | Some e \<Rightarrow>
            if i \<noteq> 0 \<and> \<not> e then Some (Reply (response_status HTTP_STATUS_NOT_FOUND))
            else submit env (Query SELECT_ANSWERS) (next_handler ctx) error_response))"

text \<open>The selected answers as the response.\<close>

definition answers_reply :: "env \<Rightarrow> answer list \<Rightarrow> bool \<Rightarrow> step option" where
  "answers_reply env selected public_view = do {
     (ptr, len) \<leftarrow> answers_to_json (json_mem env 0) selected public_view;
     Some (Reply (case ptr of None \<Rightarrow> error_response | Some p \<Rightarrow> json_reply HTTP_STATUS_OK p len))
   }"

definition handle_get_answers_3 :: "env \<Rightarrow> event \<Rightarrow> http_context \<Rightarrow> step option" where
  "handle_get_answers_3 env ev ctx =
     (if has_next ctx then None
      else with_list_state ctx (\<lambda>i.
        case bind_answers (bind_mem env) (db_result_of ev) of
          None \<Rightarrow> Some (Reply error_response)
        | Some answers \<Rightarrow>
            if answers \<noteq> [] \<and> \<not> select_mem env then Some (Reply error_response)
            else answers_reply env (filter (\<lambda>a. is_corrected a \<noteq> 0 \<and> (i = 0 \<or> ans_challenge_id a = i)) answers) True))"

definition handle_get_own_answers_1 :: "env \<Rightarrow> http_context \<Rightarrow> step option" where
  "handle_get_own_answers_1 env ctx =
     (if auth_request_user ctx = None then Some (Reply auth_unauthorized)
      else if \<not> has_next ctx then None
      else (case answer_filter ctx of
        None \<Rightarrow> Some (Reply (response_status HTTP_STATUS_BAD_REQUEST))
      | Some i \<Rightarrow>
          if \<not> state_mem env then Some (Reply error_response)
          else submit env (Query SELECT_CHALLENGES) (next_handler (ctx\<lparr>app := List_data i\<rparr>)) error_response))"

definition handle_get_own_answers_2 :: "env \<Rightarrow> event \<Rightarrow> http_context \<Rightarrow> step option" where
  "handle_get_own_answers_2 env ev ctx =
     (if \<not> has_next ctx then None
      else with_list_state ctx (\<lambda>i.
        case challenge_exists env ev i of
          None \<Rightarrow> Some (Reply error_response)
        | Some e \<Rightarrow>
            if i \<noteq> 0 \<and> \<not> e then Some (Reply (response_status HTTP_STATUS_NOT_FOUND))
            else submit env (Query SELECT_ANSWERS) (next_handler ctx) error_response))"

definition handle_get_own_answers_3 :: "env \<Rightarrow> event \<Rightarrow> http_context \<Rightarrow> step option" where
  "handle_get_own_answers_3 env ev ctx =
     (if has_next ctx then None
      else with_list_state ctx (\<lambda>i.
        case bind_answers (bind_mem env) (db_result_of ev) of
          None \<Rightarrow> Some (Reply error_response)
        | Some answers \<Rightarrow>
            if answers \<noteq> [] \<and> \<not> select_mem env then Some (Reply error_response)
            else answers_reply env (filter (\<lambda>a.
                string_equals (ans_user_id a) (case auth_request_user ctx of None \<Rightarrow> [] | Some u \<Rightarrow> u) \<and>
                (i = 0 \<or> ans_challenge_id a = i)) answers) False))"

section \<open>The score board\<close>

definition SELECT_USERS :: string where "SELECT_USERS = ''SELECT id,username FROM users''"

definition SELECT_SCORES :: string where
  "SELECT_SCORES = ''SELECT user_id,challenge_id,TIMESTAMPDIFF(SECOND,'' @ [CHR 0x27] @ ''1970-01-01'' @ [CHR 0x27] @
     '',created_at) FROM answers WHERE is_correct=1''"

definition with_user_list :: "http_context \<Rightarrow> (public_user list \<Rightarrow> step option) \<Rightarrow> step option" where
  "with_user_list ctx f = (case app ctx of Users_data us \<Rightarrow> f us | _ \<Rightarrow> None)"

definition handle_get_users_1 :: "env \<Rightarrow> http_context \<Rightarrow> step option" where
  "handle_get_users_1 env ctx =
     (if \<not> has_next ctx then None
      else if \<not> state_mem env then Some (Reply error_response)
      else submit env (Query SELECT_USERS) (next_handler (ctx\<lparr>app := Users_data []\<rparr>)) error_response)"

definition handle_get_users_2 :: "env \<Rightarrow> event \<Rightarrow> http_context \<Rightarrow> step option" where
  "handle_get_users_2 env ev ctx =
     (if \<not> has_next ctx then None
      else with_user_list ctx (\<lambda>us.
        case bind_public_users (bind_mem env) (db_result_of ev) of
          None \<Rightarrow> Some (Reply error_response)
        | Some users \<Rightarrow> submit env (Query SELECT_SCORES) (next_handler (ctx\<lparr>app := Users_data users\<rparr>)) error_response))"

definition handle_get_users_3 :: "env \<Rightarrow> event \<Rightarrow> http_context \<Rightarrow> step option" where
  "handle_get_users_3 env ev ctx = with_user_list ctx (\<lambda>us.
     case bind_score_answers (bind_mem env) (db_result_of ev) of
       None \<Rightarrow> Some (Reply error_response)
     | Some answers \<Rightarrow> do {
         let rt = runtime env;
         let users = calculate_user_scores (qsort_users env) (qsort_answers env) us answers
           (case rt of Some rt \<Rightarrow> contest_end_enabled rt | None \<Rightarrow> False) (case rt of Some rt \<Rightarrow> contest_end_at rt | None \<Rightarrow> 0);
         (ptr, len) \<leftarrow> public_users_to_json (json_mem env 0) (if us = [] then None else Some users) (length us);
         Some (Reply (case ptr of None \<Rightarrow> error_response | Some p \<Rightarrow> json_reply HTTP_STATUS_OK p len)) })"

section \<open>Fixed pages\<close>

definition handle_root :: "env \<Rightarrow> http_context \<Rightarrow> step option" where
  "handle_root env ctx = Some (Reply (response_text HTTP_STATUS_OK ''Welcome to the CTF server!'' 26))"

definition handle_hello_1 :: "env \<Rightarrow> http_context \<Rightarrow> step option" where
  "handle_hello_1 env ctx =
     (if \<not> has_next ctx then None
      else submit env (Query ''SELECT * FROM challenges;'') (next_handler ctx) error_response)"

definition handle_hello_2 :: "env \<Rightarrow> event \<Rightarrow> http_context \<Rightarrow> step option" where
  "handle_hello_2 env ev ctx = Some (Reply (response_text HTTP_STATUS_OK ''Hello, World!'' 13))"

end
