(* ===== verification/Contest.thy ===== *)
theory Contest
  imports Prelude
begin

text \<open>
  \<open>src/src/app/contest.c\<close>: the start and the end of the contest, RFC 3339 times given in the
  environment.  A C string is the list of its bytes before the terminating NUL; the fixed
  positions are read after the length has been checked.  All values stay below \<open>2 ^ 31\<close>
  (years have four digits), so \<open>int\<close> arithmetic is exact.
\<close>

fun read_digits_loop :: "string \<Rightarrow> int \<Rightarrow> int" where
  "read_digits_loop [] r = r"
| "read_digits_loop (c # s) r =
     (if \<not> is_digit c then -1 else read_digits_loop s (r * 10 + int (of_char c) - 48))"

text \<open>\<open>read_digits(value + start, n)\<close>.\<close>

definition read_digits :: "string \<Rightarrow> nat \<Rightarrow> nat \<Rightarrow> int" where
  "read_digits v start n = read_digits_loop (take n (drop start v)) 0"

definition is_leap :: "int \<Rightarrow> bool" where
  "is_leap year \<longleftrightarrow> year mod 4 = 0 \<and> (year mod 100 \<noteq> 0 \<or> year mod 400 = 0)"

definition month_days :: "int list" where
  "month_days = [31, 28, 31, 30, 31, 30, 31, 31, 30, 31, 30, 31]"

definition days_before_year :: "int \<Rightarrow> int" where
  "days_before_year year = (year - 1970) * 365 + (year - 1) div 4 - 1969 div 4 - (year - 1) div 100 +
     1969 div 100 + (year - 1) div 400 - 1969 div 400"

text \<open>The loop \<open>for (int i = 1; i < month; i++)\<close>.\<close>

fun add_months :: "bool \<Rightarrow> int list \<Rightarrow> nat \<Rightarrow> int \<Rightarrow> int \<Rightarrow> int" where
  "add_months leap [] i month days = days"
| "add_months leap (d # ds) i month days =
     (if int i < month then add_months leap ds (i + 1) month (days + d + of_bool (i = 2 \<and> leap)) else days)"

definition zone_offset :: "string \<Rightarrow> int option" where
  "zone_offset v =
     (if length v = 20 then (if v ! 19 \<noteq> CHR ''Z'' then None else Some 0)
      else
        let offset_hour = read_digits v 20 2; offset_minute = read_digits v 23 2 in
        if (v ! 19 \<noteq> CHR ''+'' \<and> v ! 19 \<noteq> CHR ''-'') \<or> v ! 22 \<noteq> CHR '':'' \<or>
           offset_hour < 0 \<or> offset_hour > 23 \<or> offset_minute < 0 \<or> offset_minute > 59 then None
        else
          let offset = (offset_hour * 60 + offset_minute) * 60 in
          Some (if v ! 19 = CHR ''-'' then - offset else offset))"

text \<open>The result and \<open>*timestamp\<close>; \<open>None\<close> is a \<open>NULL\<close> pointer.\<close>

definition contest_time_parse :: "string option \<Rightarrow> bool \<times> int" where
  "contest_time_parse value =
     (case value of
        None \<Rightarrow> (True, 0)
      | Some v \<Rightarrow>
          if v = [] then (True, 0)
          else if (length v \<noteq> 20 \<and> length v \<noteq> 25) \<or> v ! 4 \<noteq> CHR ''-'' \<or> v ! 7 \<noteq> CHR ''-'' \<or>
             v ! 10 \<noteq> CHR ''T'' \<or> v ! 13 \<noteq> CHR '':'' \<or> v ! 16 \<noteq> CHR '':'' then (False, 0)
          else
            let year = read_digits v 0 4; month = read_digits v 5 2; day = read_digits v 8 2;
                hour = read_digits v 11 2; minute = read_digits v 14 2; second = read_digits v 17 2 in
            (case zone_offset v of
               None \<Rightarrow> (False, 0)
             | Some offset \<Rightarrow>
                 if year < 1970 \<or> month < 1 \<or> month > 12 \<or> day < 1 \<or> hour < 0 \<or> hour > 23 \<or>
                    minute < 0 \<or> minute > 59 \<or> second < 0 \<or> second > 59 then (False, 0)
                 else
                   let leap = is_leap year in
                   if day > month_days ! nat (month - 1) + of_bool (month = 2 \<and> leap) then (False, 0)
                   else
                     let days = add_months leap month_days 1 month (days_before_year year);
                         parsed = (days + day - 1) * 86400 + hour * 3600 + minute * 60 + second - offset in
                     if parsed < 0 then (False, 0) else (True, parsed)))"

section \<open>Specification: counting days\<close>

definition days_in_month :: "int \<Rightarrow> nat \<Rightarrow> int" where
  "days_in_month y m = (if m = 2 then (if is_leap y then 29 else 28) else if m \<in> {4, 6, 9, 11} then 30 else 31)"

definition days_in_year :: "int \<Rightarrow> int" where
  "days_in_year y = (\<Sum>m = 1..12. days_in_month y m)"

text \<open>Days from 1970-01-01 to a date, year by year and month by month.\<close>

definition days_from_epoch :: "nat \<Rightarrow> nat \<Rightarrow> nat \<Rightarrow> int" where
  "days_from_epoch y m d =
     (\<Sum>k = 1970..<y. days_in_year (int k)) + (\<Sum>k = 1..<m. days_in_month (int y) k) + int d - 1"

definition valid_date :: "nat \<Rightarrow> nat \<Rightarrow> nat \<Rightarrow> bool" where
  "valid_date y m d \<longleftrightarrow> 1970 \<le> y \<and> y \<le> 9999 \<and> 1 \<le> m \<and> m \<le> 12 \<and> 1 \<le> d \<and> int d \<le> days_in_month (int y) m"

definition valid_time :: "nat \<Rightarrow> nat \<Rightarrow> nat \<Rightarrow> bool" where
  "valid_time h mi s \<longleftrightarrow> h \<le> 23 \<and> mi \<le> 59 \<and> s \<le> 59"

datatype zone = Utc | East nat nat | West nat nat

fun zone_seconds :: "zone \<Rightarrow> int" where
  "zone_seconds Utc = 0"
| "zone_seconds (East h m) = int (h * 60 + m) * 60"
| "zone_seconds (West h m) = - int (h * 60 + m) * 60"

fun valid_zone :: "zone \<Rightarrow> bool" where
  "valid_zone Utc = True"
| "valid_zone (East h m) = (h \<le> 23 \<and> m \<le> 59)"
| "valid_zone (West h m) = (h \<le> 23 \<and> m \<le> 59)"

definition digit_char :: "nat \<Rightarrow> char" where "digit_char n = char_of (48 + n mod 10)"

definition two :: "nat \<Rightarrow> string" where "two n = [digit_char (n div 10), digit_char n]"

definition four :: "nat \<Rightarrow> string" where "four n = two (n div 100) @ two (n mod 100)"

fun show_zone :: "zone \<Rightarrow> string" where
  "show_zone Utc = ''Z''"
| "show_zone (East h m) = CHR ''+'' # two h @ CHR '':'' # two m"
| "show_zone (West h m) = CHR ''-'' # two h @ CHR '':'' # two m"

definition show_time :: "nat \<Rightarrow> nat \<Rightarrow> nat \<Rightarrow> nat \<Rightarrow> nat \<Rightarrow> nat \<Rightarrow> zone \<Rightarrow> string" where
  "show_time y m d h mi s z =
     four y @ CHR ''-'' # two m @ CHR ''-'' # two d @ CHR ''T'' # two h @ CHR '':'' # two mi @ CHR '':'' # two s @ show_zone z"

definition epoch_seconds :: "nat \<Rightarrow> nat \<Rightarrow> nat \<Rightarrow> nat \<Rightarrow> nat \<Rightarrow> nat \<Rightarrow> zone \<Rightarrow> int" where
  "epoch_seconds y m d h mi s z =
     days_from_epoch y m d * 86400 + int h * 3600 + int mi * 60 + int s - zone_seconds z"

lemma days_in_year: "days_in_year y = (if is_leap y then 366 else 365)"
  by (simp add: days_in_year_def days_in_month_def numeral_eq_Suc)

lemma div_step:
  assumes "0 < (n::int)"
  shows "x div n = (x - 1) div n + of_bool (x mod n = 0)"
proof (cases "x mod n = 0")
  case True
  then have "x - 1 = n * (x div n - 1) + (n - 1)"
    using div_mult_mod_eq[of x n] by (simp add: algebra_simps)
  then have "(x - 1) div n = x div n - 1" by (rule int_div_pos_eq) (use assms in simp_all)
  then show ?thesis using True by simp
next
  case False
  have "x - 1 = n * (x div n) + (x mod n - 1)"
    using div_mult_mod_eq[of x n] by (simp add: algebra_simps)
  moreover have "0 \<le> x mod n - 1" "x mod n - 1 < n"
    using False pos_mod_sign[OF assms, of x] pos_mod_bound[OF assms, of x] by linarith+
  ultimately have "(x - 1) div n = x div n" by (rule int_div_pos_eq)
  then show ?thesis using False by simp
qed

lemma of_bool_leap:
  "(b \<longrightarrow> a) \<Longrightarrow> (c \<longrightarrow> b) \<Longrightarrow> of_bool a - of_bool b + of_bool c = (of_bool (a \<and> (\<not> b \<or> c)) :: int)"
  by (cases a; cases b; cases c) simp_all

lemma leap_days:
  "of_bool (x mod 4 = 0) - of_bool (x mod 100 = 0) + of_bool (x mod 400 = 0) = (of_bool (is_leap x) :: int)"
  unfolding is_leap_def
proof (rule of_bool_leap)
  show "x mod 100 = 0 \<longrightarrow> x mod 4 = 0" using mod_mod_cancel[of 4 100 x] by auto
  show "x mod 400 = 0 \<longrightarrow> x mod 100 = 0" using mod_mod_cancel[of 100 400 x] by auto
qed

lemma days_before_year_Suc: "days_before_year (x + 1) = days_before_year x + days_in_year x"
proof -
  have dy: "days_in_year x = 365 + of_bool (is_leap x)" by (simp add: days_in_year)
  define p4 p100 p400 where p: "p4 = x div 4" "p100 = x div 100" "p400 = x div 400"
  define q4 q100 q400 where q: "q4 = (x - 1) div 4" "q100 = (x - 1) div 100" "q400 = (x - 1) div 400"
  define b4 b100 b400 :: int where b: "b4 = of_bool (x mod 4 = 0)" "b100 = of_bool (x mod 100 = 0)"
    "b400 = of_bool (x mod 400 = 0)"
  have "p4 = q4 + b4" "p100 = q100 + b100" "p400 = q400 + b400"
    unfolding p q b by (rule div_step; simp)+
  moreover have "b4 - b100 + b400 = of_bool (is_leap x)" unfolding b by (rule leap_days)
  ultimately show ?thesis
    unfolding days_before_year_def add_diff_cancel_right' dy
    unfolding p [symmetric] q [symmetric] by (simp add: algebra_simps)
qed

lemma days_before_year_sum:
  "1970 \<le> y \<Longrightarrow> days_before_year (int y) = (\<Sum>k = 1970..<y. days_in_year (int k))"
proof (induction y rule: nat_induct_at_least)
  case base
  then show ?case by (simp add: days_before_year_def)
next
  case (Suc y)
  then show ?case using days_before_year_Suc[of "int y"] by (simp add: add.commute)
qed

lemma nat_cases_12:
  assumes "1 \<le> m" "m \<le> (12::nat)"
  shows "m \<in> {1, 2, 3, 4, 5, 6, 7, 8, 9, 10, 11, 12}"
  using assms by (auto simp: le_Suc_eq numeral_eq_Suc)

lemma add_months_sum:
  assumes "1 \<le> m" "m \<le> 12"
  shows "add_months (is_leap y) month_days 1 (int m) days = days + (\<Sum>k = 1..<m. days_in_month y k)"
  using nat_cases_12[OF assms]
  by (auto simp: month_days_def days_in_month_def numeral_eq_Suc)

lemma month_days_nth:
  assumes "1 \<le> m" "m \<le> 12"
  shows "month_days ! nat (int m - 1) + of_bool (m = 2 \<and> is_leap y) = days_in_month y m"
  using nat_cases_12[OF assms]
  by (auto simp: month_days_def days_in_month_def nat_numeral_diff_1 nth_Cons')

section \<open>Reading what was printed\<close>

lemma digit_char: "is_digit (digit_char n)" "int (of_char (digit_char n)) - 48 = int (n mod 10)"
  by (simp_all add: digit_char_def is_digit_code)

lemma read_digits_Cons: "read_digits_loop (digit_char n # s) r = read_digits_loop s (r * 10 + int (n mod 10))"
  using digit_char(2)[of n] by (simp add: digit_char(1) algebra_simps)

lemma read_two: "n < 100 \<Longrightarrow> read_digits_loop (two n) 0 = int n"
  by (simp add: two_def read_digits_Cons del: read_digits_loop.simps(2)) (simp add: zmod_int zdiv_int)

lemma two_digits_value: "int (n div 10 mod 10) * 10 + int (n mod 10) = int n" if "n < 100" for n
proof -
  have "n div 10 < 10" using that by simp
  then have "n div 10 mod 10 = n div 10" by simp
  moreover have "int (n div 10) * 10 + int (n mod 10) = int (n div 10 * 10 + n mod 10)"
    by (simp only: of_nat_add of_nat_mult of_nat_numeral)
  ultimately show ?thesis by (simp only: div_mult_mod_eq)
qed

lemma read_four: "n < 10000 \<Longrightarrow> read_digits_loop (four n) 0 = int n"
proof -
  assume n: "n < 10000"
  have h: "n div 100 < 100" "n mod 100 < 100" using n by simp_all
  have "read_digits_loop (four n) 0 =
      (int (n div 100 div 10 mod 10) * 10 + int (n div 100 mod 10)) * 100 +
      (int (n mod 100 div 10 mod 10) * 10 + int (n mod 100 mod 10))"
    by (simp add: four_def two_def read_digits_Cons del: read_digits_loop.simps(2))
  also have "\<dots> = int (n div 100) * 100 + int (n mod 100)"
    by (simp only: two_digits_value[OF h(1)] two_digits_value[OF h(2)])
  also have "\<dots> = int (n div 100 * 100 + n mod 100)"
    by (simp only: of_nat_add of_nat_mult of_nat_numeral)
  also have "\<dots> = int n" by (simp only: div_mult_mod_eq)
  finally show ?thesis .
qed

lemma zone_offset_show:
  assumes "valid_zone z" "length p = 19"
  shows "zone_offset (p @ show_zone z) = Some (zone_seconds z)"
    and "length (p @ show_zone z) = 20 \<or> length (p @ show_zone z) = 25"
proof -
  have nth: "(p @ q) ! n = q ! (n - 19)" if "19 \<le> n" for q n using that assms(2) by (simp add: nth_append)
  have dr: "drop n (p @ q) = drop (n - 19) q" if "19 \<le> n" for q n using that assms(2) by simp
  have val: "read_digits_loop (two n) 0 = int n" if "n \<le> 59" for n using read_two that by simp
  have pos: "\<not> int n < 0" for n by simp
  have hm: "read_digits (p @ c # two h @ CHR '':'' # two m) 20 2 = int h"
    "read_digits (p @ c # two h @ CHR '':'' # two m) 23 2 = int m" if "h \<le> 23" "m \<le> 59" for c h m
  proof -
    have t: "take 2 (drop (20 - 19) (c # two h @ CHR '':'' # two m)) = two h"
      "take 2 (drop (23 - 19) (c # two h @ CHR '':'' # two m)) = two m" by (simp_all add: two_def)
    have "read_digits (p @ c # two h @ CHR '':'' # two m) 20 2 = read_digits_loop (two h) 0"
      unfolding read_digits_def by (subst dr) (simp, simp only: t(1))
    then show "read_digits (p @ c # two h @ CHR '':'' # two m) 20 2 = int h" using val[of h] that by simp
    have "read_digits (p @ c # two h @ CHR '':'' # two m) 23 2 = read_digits_loop (two m) 0"
      unfolding read_digits_def by (subst dr) (simp, simp only: t(2))
    then show "read_digits (p @ c # two h @ CHR '':'' # two m) 23 2 = int m" using val[of m] that by simp
  qed
  have at: "(p @ c # two h @ CHR '':'' # two m) ! 19 = c" "(p @ c # two h @ CHR '':'' # two m) ! 22 = CHR '':''"
    "length (p @ c # two h @ CHR '':'' # two m) \<noteq> 20" for c h m
    using nth[of 19 "c # two h @ CHR '':'' # two m"] nth[of 22 "c # two h @ CHR '':'' # two m"] assms(2)
    by (simp_all add: two_def)
  show "zone_offset (p @ show_zone z) = Some (zone_seconds z)"
  proof (cases z)
    case Utc
    then show ?thesis using assms(2) nth[of 19 "''Z''"] by (simp add: zone_offset_def)
  next
    case (East h m)
    then have b: "h \<le> 23" "m \<le> 59" using assms(1) by simp_all
    have "zone_offset (p @ CHR ''+'' # two h @ CHR '':'' # two m) = Some ((int h * 60 + int m) * 60)"
      unfolding zone_offset_def if_not_P[OF at(3)] Let_def at hm[OF b] using b by simp
    then show ?thesis using East by simp
  next
    case (West h m)
    then have b: "h \<le> 23" "m \<le> 59" using assms(1) by simp_all
    have "zone_offset (p @ CHR ''-'' # two h @ CHR '':'' # two m) = Some (- ((int h * 60 + int m) * 60))"
      unfolding zone_offset_def if_not_P[OF at(3)] Let_def at hm[OF b] using b by simp
    then show ?thesis using West by simp
  qed
  show "length (p @ show_zone z) = 20 \<or> length (p @ show_zone z) = 25"
    using assms(2) by (cases z) (simp_all add: two_def)
qed

lemma contest_time_parse_show:
  assumes "valid_date y m d" "valid_time h mi s" "valid_zone z"
  shows "contest_time_parse (Some (show_time y m d h mi s z)) =
    (if epoch_seconds y m d h mi s z < 0 then (False, 0) else (True, epoch_seconds y m d h mi s z))"
proof -
  define v where "v = show_time y m d h mi s z"
  define p where "p = four y @ CHR ''-'' # two m @ CHR ''-'' # two d @ CHR ''T'' # two h @ CHR '':'' # two mi @ CHR '':'' # two s"
  have v: "v = p @ show_zone z" by (simp add: v_def p_def show_time_def)
  have p: "length p = 19" by (simp add: p_def four_def two_def)
  have nth: "v ! 4 = CHR ''-''" "v ! 7 = CHR ''-''" "v ! 10 = CHR ''T''" "v ! 13 = CHR '':''" "v ! 16 = CHR '':''"
    by (simp_all add: v_def show_time_def four_def two_def)
  have fields: "take 4 (drop 0 v) = four y" "take 2 (drop 5 v) = two m" "take 2 (drop 8 v) = two d"
    "take 2 (drop 11 v) = two h" "take 2 (drop 14 v) = two mi" "take 2 (drop 17 v) = two s"
    by (simp_all add: v_def show_time_def four_def two_def)
  have lim: "y < 10000" "m < 100" "d < 100" "h < 100" "mi < 100" "s < 100"
    using assms(1,2) by (auto simp: valid_date_def valid_time_def days_in_month_def split: if_splits)
  have rd: "read_digits v 0 4 = int y" "read_digits v 5 2 = int m" "read_digits v 8 2 = int d"
    "read_digits v 11 2 = int h" "read_digits v 14 2 = int mi" "read_digits v 17 2 = int s"
    unfolding read_digits_def fields using lim by (simp_all add: read_four read_two)
  have date: "1970 \<le> y" "1 \<le> m" "m \<le> 12" "1 \<le> d" "int d \<le> days_in_month (int y) m"
    using assms(1) by (simp_all add: valid_date_def)
  have days: "add_months (is_leap (int y)) month_days 1 (int m) (days_before_year (int y)) + int d - 1 = days_from_epoch y m d"
    unfolding add_months_sum[OF date(2,3)] days_before_year_sum[OF date(1)] days_from_epoch_def by simp
  have dim: "month_days ! nat (int m - 1) + of_bool (int m = 2 \<and> is_leap (int y)) = days_in_month (int y) m"
    using month_days_nth[OF date(2,3), of "int y"] by simp
  have len: "\<not> (length v \<noteq> 20 \<and> length v \<noteq> 25)" "v \<noteq> []"
    using zone_offset_show(2)[OF assms(3) p] v p by auto
  have form: "\<not> (length v \<noteq> 20 \<and> length v \<noteq> 25 \<or> v ! 4 \<noteq> CHR ''-'' \<or> v ! 7 \<noteq> CHR ''-'' \<or>
      v ! 10 \<noteq> CHR ''T'' \<or> v ! 13 \<noteq> CHR '':'' \<or> v ! 16 \<noteq> CHR '':'')"
    using len(1) nth by simp
  have zone: "zone_offset v = Some (zone_seconds z)" using zone_offset_show(1)[OF assms(3) p] v by simp
  have time: "\<not> (int y < 1970 \<or> int m < 1 \<or> 12 < int m \<or> int d < 1 \<or> int h < 0 \<or> 23 < int h \<or>
      int mi < 0 \<or> 59 < int mi \<or> int s < 0 \<or> 59 < int s)"
    using date assms(2) by (simp add: valid_time_def)
  have "contest_time_parse (Some v) =
     (let parsed = (add_months (is_leap (int y)) month_days 1 (int m) (days_before_year (int y)) + int d - 1) * 86400 +
          int h * 3600 + int mi * 60 + int s - zone_seconds z in
      if parsed < 0 then (False, 0) else (True, parsed))"
    unfolding contest_time_parse_def Let_def option.case if_not_P[OF len(2)] rd zone if_not_P[OF time] dim if_not_P[OF form]
    using date(5) by simp
  then show ?thesis unfolding days v_def epoch_seconds_def Let_def by simp
qed


section \<open>Nothing else is accepted\<close>

lemma read_digits_loop_digits: "0 \<le> read_digits_loop s r \<Longrightarrow> list_all is_digit s"
  by (induction s r rule: read_digits_loop.induct) (simp_all split: if_splits)

lemma digit_char_inverse:
  assumes "is_digit c"
  obtains k where "k < 10" "c = digit_char k"
proof
  have d: "48 \<le> (of_char c :: nat)" "(of_char c :: nat) \<le> 57" using assms by (simp_all add: is_digit_code)
  then show "of_char c - 48 < (10::nat)" by simp
  then have "48 + (of_char c - 48) mod 10 = (of_char c :: nat)" using d by simp
  then show "c = digit_char (of_char c - 48)" unfolding digit_char_def by (simp only: char_of_char)
qed

lemma two_inverse:
  assumes "length s = 2" "0 \<le> read_digits_loop s 0"
  obtains n where "n < 100" "s = two n" "read_digits_loop s 0 = int n"
proof -
  obtain a b where s: "s = [a, b]" using assms(1) by (auto simp: numeral_eq_Suc length_Suc_conv)
  then have "is_digit a" "is_digit b" using read_digits_loop_digits[OF assms(2)] by simp_all
  then obtain i j where ij: "i < 10" "a = digit_char i" "j < 10" "b = digit_char j"
    using digit_char_inverse by metis
  have "s = two (10 * i + j)" using ij s by (simp add: two_def digit_char_def mod_mult_self4 [of i 10 j])
  moreover have "10 * i + j < 100" using ij by simp
  ultimately show thesis using that read_two by blast
qed

lemma four_inverse:
  assumes "length s = 4" "0 \<le> read_digits_loop s 0"
  obtains n where "n < 10000" "s = four n" "read_digits_loop s 0 = int n"
proof -
  have dig: "list_all is_digit s" using read_digits_loop_digits[OF assms(2)] .
  obtain a b c d where s: "s = [a, b, c, d]" using assms(1) by (auto simp: numeral_eq_Suc length_Suc_conv)
  have nn: "0 \<le> read_digits_loop [x, y] 0" if "is_digit x" "is_digit y" for x y
    using that by (simp add: is_digit_code)
  obtain i where i: "i < 100" "[a, b] = two i" using two_inverse[of "[a, b]"] nn[of a b] dig s by auto
  obtain j where j: "j < 100" "[c, d] = two j" using two_inverse[of "[c, d]"] nn[of c d] dig s by auto
  have "s = [a, b] @ [c, d]" using s by simp
  also have "\<dots> = four (100 * i + j)" unfolding i(2) j(2) four_def using j(1) by simp
  finally have "s = four (100 * i + j)" .
  moreover have "100 * i + j < 10000" using i j by simp
  ultimately show thesis using that read_four by blast
qed

lemma time_layout:
  assumes "19 \<le> length v"
  shows "v = take 4 (drop 0 v) @ v ! 4 # take 2 (drop 5 v) @ v ! 7 # take 2 (drop 8 v) @ v ! 10 #
    take 2 (drop 11 v) @ v ! 13 # take 2 (drop 14 v) @ v ! 16 # take 2 (drop 17 v) @ drop 19 v"
proof -
  have c: "drop k v = v ! k # drop (k + 1) v" if "k < 19" for k
    using Cons_nth_drop_Suc[of k v] that assms by simp
  have t: "drop k v = take n (drop k v) @ drop (k + n) v" for k n
    using append_take_drop_id[of n "drop k v"] by (simp add: add.commute)
  show ?thesis
    using t[of 0 4] c[of 4] t[of 5 2] c[of 7] t[of 8 2] c[of 10] t[of 11 2] c[of 13] t[of 14 2] c[of 16] t[of 17 2]
    by simp
qed

lemma zone_inverse:
  assumes "zone_offset v = Some off" "length v = 20 \<or> length v = 25"
  obtains z where "valid_zone z" "drop 19 v = show_zone z"
proof (cases "length v = 20")
  case True
  then have "drop 19 v = [v ! 19]" using Cons_nth_drop_Suc[of 19 v] by simp
  then show ?thesis using that[of Utc] assms(1) True by (simp add: zone_offset_def split: if_splits)
next
  case False
  then have len: "length v = 25" using assms(2) by simp
  have c: "drop k v = v ! k # drop (k + 1) v" if "k < 25" for k
    using Cons_nth_drop_Suc[of k v] that len by simp
  have t: "drop k v = take n (drop k v) @ drop (k + n) v" for k n
    using append_take_drop_id[of n "drop k v"] by (simp add: add.commute)
  have lay: "drop 19 v = v ! 19 # take 2 (drop 20 v) @ v ! 22 # take 2 (drop 23 v)"
    using c[of 19] t[of 20 2] c[of 22] t[of 23 2] len by simp
  have ok: "v ! 19 = CHR ''+'' \<or> v ! 19 = CHR ''-''" "v ! 22 = CHR '':''"
    "0 \<le> read_digits v 20 2" "read_digits v 20 2 \<le> 23" "0 \<le> read_digits v 23 2" "read_digits v 23 2 \<le> 59"
    using assms(1) False by (auto simp: zone_offset_def Let_def split: if_splits)
  obtain h where h: "take 2 (drop 20 v) = two h" "read_digits v 20 2 = int h"
    using two_inverse[of "take 2 (drop 20 v)"] ok(3) len unfolding read_digits_def by auto
  obtain m where m: "take 2 (drop 23 v) = two m" "read_digits v 23 2 = int m"
    using two_inverse[of "take 2 (drop 23 v)"] ok(5) len unfolding read_digits_def by auto
  show ?thesis
    using that[of "East h m"] that[of "West h m"] ok lay unfolding h m by auto
qed

lemma contest_time_parse_inverse:
  assumes "contest_time_parse (Some v) = (True, t)" "v \<noteq> []"
  obtains y m d h mi s z where "valid_date y m d" "valid_time h mi s" "valid_zone z"
    "v = show_time y m d h mi s z"
proof -
  have ite: "(if P then (False, 0) else X) = (True, t) \<longleftrightarrow> \<not> P \<and> X = (True, t)" for P X by simp
  obtain off where zo: "zone_offset v = Some off"
    using assms(1) unfolding contest_time_parse_def Let_def option.case if_not_P[OF assms(2)] ite
    by (cases "zone_offset v") simp_all
  have h: "\<not> ((length v \<noteq> 20 \<and> length v \<noteq> 25) \<or> v ! 4 \<noteq> CHR ''-'' \<or> v ! 7 \<noteq> CHR ''-'' \<or>
       v ! 10 \<noteq> CHR ''T'' \<or> v ! 13 \<noteq> CHR '':'' \<or> v ! 16 \<noteq> CHR '':'') \<and>
    \<not> (read_digits v 0 4 < 1970 \<or> read_digits v 5 2 < 1 \<or> 12 < read_digits v 5 2 \<or> read_digits v 8 2 < 1 \<or>
      read_digits v 11 2 < 0 \<or> 23 < read_digits v 11 2 \<or> read_digits v 14 2 < 0 \<or> 59 < read_digits v 14 2 \<or>
      read_digits v 17 2 < 0 \<or> 59 < read_digits v 17 2) \<and>
    \<not> (month_days ! nat (read_digits v 5 2 - 1) +
      of_bool (read_digits v 5 2 = 2 \<and> is_leap (read_digits v 0 4)) < read_digits v 8 2)"
    using assms(1) unfolding contest_time_parse_def Let_def option.case if_not_P[OF assms(2)] zo ite
    by (elim conjE) (intro conjI; assumption)
  note form = h [THEN conjunct1] and time = h [THEN conjunct2, THEN conjunct1]
    and day = h [THEN conjunct2, THEN conjunct2, unfolded linorder_not_less]
  have len: "length v = 20 \<or> length v = 25" and sep: "v ! 4 = CHR ''-''" "v ! 7 = CHR ''-''"
    "v ! 10 = CHR ''T''" "v ! 13 = CHR '':''" "v ! 16 = CHR '':''"
    using form by simp_all
  have rng: "1970 \<le> read_digits v 0 4" "1 \<le> read_digits v 5 2" "read_digits v 5 2 \<le> 12" "1 \<le> read_digits v 8 2"
      "0 \<le> read_digits v 11 2" "read_digits v 11 2 \<le> 23" "0 \<le> read_digits v 14 2" "read_digits v 14 2 \<le> 59"
      "0 \<le> read_digits v 17 2" "read_digits v 17 2 \<le> 59"
    using time by simp_all
  have two: "\<exists>n. take 2 (drop k v) = two n \<and> read_digits v k 2 = int n" if "0 \<le> read_digits v k 2" "k \<le> 17" for k
  proof -
    have "length (take 2 (drop k v)) = 2" using that(2) len by auto
    from two_inverse[OF this that(1)[unfolded read_digits_def]] show ?thesis unfolding read_digits_def by blast
  qed
  obtain y where y: "y < 10000" "take 4 (drop 0 v) = four y" "read_digits v 0 4 = int y"
  proof -
    have l: "length (take 4 (drop 0 v)) = 4" using len by auto
    have "0 \<le> read_digits_loop (take 4 (drop 0 v)) 0" using rng(1) unfolding read_digits_def by simp
    from four_inverse[OF l this] that show thesis unfolding read_digits_def by blast
  qed
  obtain m where m: "take 2 (drop 5 v) = two m" "read_digits v 5 2 = int m" using two[of 5] rng by auto
  obtain d where d: "take 2 (drop 8 v) = two d" "read_digits v 8 2 = int d" using two[of 8] rng by auto
  obtain h where h: "take 2 (drop 11 v) = two h" "read_digits v 11 2 = int h" using two[of 11] rng by auto
  obtain mi where mi: "take 2 (drop 14 v) = two mi" "read_digits v 14 2 = int mi" using two[of 14] rng by auto
  obtain s where s: "take 2 (drop 17 v) = two s" "read_digits v 17 2 = int s" using two[of 17] rng by auto
  obtain z where z: "valid_zone z" "drop 19 v = show_zone z" using zone_inverse[OF zo len] .
  have "v = show_time y m d h mi s z"
    using time_layout[of v] len unfolding sep y(2) m(1) d(1) h(1) mi(1) s(1) z(2) show_time_def by auto
  moreover have "valid_date y m d"
  proof -
    have "1 \<le> m" "m \<le> 12" using rng m by simp_all
    then show ?thesis
      using month_days_nth[of m "int y"] day rng y m d unfolding valid_date_def by simp
  qed
  moreover have "valid_time h mi s" using rng h mi s by (simp add: valid_time_def)
  ultimately show thesis using that z(1) by blast
qed


lemma contest_time_parse_accepts:
  assumes "v \<noteq> []"
  shows "contest_time_parse (Some v) = (True, t) \<longleftrightarrow>
    (\<exists>y m d h mi s z. valid_date y m d \<and> valid_time h mi s \<and> valid_zone z \<and>
       v = show_time y m d h mi s z \<and> t = epoch_seconds y m d h mi s z \<and> 0 \<le> t)"
proof
  assume a: "contest_time_parse (Some v) = (True, t)"
  show "\<exists>y m d h mi s z. valid_date y m d \<and> valid_time h mi s \<and> valid_zone z \<and>
      v = show_time y m d h mi s z \<and> t = epoch_seconds y m d h mi s z \<and> 0 \<le> t"
  proof (rule contest_time_parse_inverse[OF a assms])
    fix y m d h mi s z
    assume k: "valid_date y m d" "valid_time h mi s" "valid_zone z" "v = show_time y m d h mi s z"
    then have "t = epoch_seconds y m d h mi s z \<and> 0 \<le> t"
      using a contest_time_parse_show[OF k(1-3)] by (simp split: if_splits)
    then show ?thesis using k by blast
  qed
next
  assume "\<exists>y m d h mi s z. valid_date y m d \<and> valid_time h mi s \<and> valid_zone z \<and>
      v = show_time y m d h mi s z \<and> t = epoch_seconds y m d h mi s z \<and> 0 \<le> t"
  then obtain y m d h mi s z where k: "valid_date y m d" "valid_time h mi s" "valid_zone z"
      "v = show_time y m d h mi s z" "t = epoch_seconds y m d h mi s z" "0 \<le> t" by blast
  show "contest_time_parse (Some v) = (True, t)"
    unfolding k(4) contest_time_parse_show[OF k(1-3)] k(5)[symmetric] using k(6) by simp
qed

lemma contest_time_parse_reject: "\<not> fst (contest_time_parse v) \<Longrightarrow> snd (contest_time_parse v) = 0"
  by (cases v) (auto simp: contest_time_parse_def Let_def split: if_splits option.splits)

text \<open>
  C32. Exactly the well-formed times are accepted: a non-empty value is accepted with the
  timestamp \<open>t\<close> if and only if it is the RFC 3339 text of a real calendar date from 1970 on,
  of a time of day without leap seconds and of a zone, and \<open>t\<close> is the number of seconds from the
  epoch to it, counted year by year and month by month, when that is not negative; every other
  value is refused.
\<close>

theorem contest_time_parse_correct:
  assumes "v \<noteq> []"
  shows "contest_time_parse (Some v) = (True, t) \<longleftrightarrow>
    (\<exists>y m d h mi s z. valid_date y m d \<and> valid_time h mi s \<and> valid_zone z \<and>
       v = show_time y m d h mi s z \<and> t = epoch_seconds y m d h mi s z \<and> 0 \<le> t)"
  using assms by (rule contest_time_parse_accepts)

theorem contest_time_parse_correct_witness:
  "contest_time_parse (Some ''2024-02-29T09:00:00+09:00'') = (True, 1709164800) \<and>
   (\<exists>y m d h mi s z. valid_date y m d \<and> valid_time h mi s \<and> valid_zone z \<and>
      ''2024-02-29T09:00:00+09:00'' = show_time y m d h mi s z \<and>
      1709164800 = epoch_seconds y m d h mi s z \<and> (0::int) \<le> 1709164800)"
proof -
  have "contest_time_parse (Some ''2024-02-29T09:00:00+09:00'') = (True, 1709164800)" by code_simp
  then show ?thesis
    using contest_time_parse_correct[of "''2024-02-29T09:00:00+09:00''" 1709164800] by simp
qed

end
