(* ===== verification/Response.thy ===== *)
theory Response
  imports HttpTypes Printing
begin

text \<open>
  \<open>src/src/http_response.c\<close>: the rendering of a response into a buffer whose size is computed
  before the text is printed.  \<open>alloc\<close> says whether \<open>malloc\<close> succeeds.  The result is the
  error code with the buffer (its terminator included) and \<open>*out_buf_len\<close>; \<open>None\<close> is
  undefined behaviour.
\<close>

definition crlf :: string where "crlf = [CHR 0x0D, CHR 0x0A]"

definition resolve_content_length :: "nat \<Rightarrow> nat" where
  "resolve_content_length n = count_digits (n div 10) 1"

definition resolve_content_type :: "http_response \<Rightarrow> string" where
  "resolve_content_type res = (case content_type_text res of None \<Rightarrow> ''text/plain'' | Some t \<Rightarrow> t)"

definition authentication_headers :: "http_response \<Rightarrow> string" where
  "authentication_headers res =
     (if bearer_challenge res \<and> no_store res then
        ''WWW-Authenticate: Bearer'' @ crlf @ ''Cache-Control: no-store'' @ crlf
      else if bearer_challenge res then ''WWW-Authenticate: Bearer'' @ crlf
      else if no_store res then ''Cache-Control: no-store'' @ crlf else [])"

definition header_len :: "http_response \<Rightarrow> nat" where
  "header_len res =
     length (authentication_headers res) + length (http_version_to_string HTTP_VERSION_1_1) + 5 +
     length (http_status_to_string (resp_status res)) + 2 + 16 + resolve_content_length (body_len res) + 2 +
     14 + length (resolve_content_type res) + 2 + 19 + 2"

definition http_response_build :: "bool \<Rightarrow> http_response \<Rightarrow> (error_code \<times> (string \<times> nat) option) option" where
  "http_response_build alloc res =
     (let status_str = http_status_to_string (resp_status res);
          version_str = http_version_to_string HTTP_VERSION_1_1;
          response_len = header_len res + body_len res;
          cap = response_len + 1 in
      if \<not> alloc then Some (ERR_OUT_OF_MEMORY, None)
      else do {
        t1 \<leftarrow> emit cap (version_str @ '' '' @ show_nat (status_code (resp_status res)) @ '' '' @ status_str @ crlf) [];
        t2 \<leftarrow> emit cap (''Content-Length: '' @ show_nat (body_len res) @ crlf) t1;
        t3 \<leftarrow> emit cap (''Content-Type: '' @ resolve_content_type res @ crlf) t2;
        t4 \<leftarrow> emit cap (''Connection: close'' @ crlf) t3;
        t5 \<leftarrow> emit cap (authentication_headers res @ crlf) t4;
        content \<leftarrow> (if body_len res = 0 then Some []
                   else Option.bind (resp_body res) (\<lambda>b. rd_bytes b 0 (body_len res)));
        if length t5 + length content \<noteq> response_len then None
        else do {
          buffer \<leftarrow> put cap (CHR 0x00) (t5 @ content);
          Some (ERR_NONE, Some (buffer, response_len))
        }
      })"

definition http_response_build_header :: "bool \<Rightarrow> http_response \<Rightarrow> (error_code \<times> (string \<times> nat) option) option" where
  "http_response_build_header alloc res =
     (let status_str = http_status_to_string (resp_status res);
          version_str = http_version_to_string HTTP_VERSION_1_1;
          response_len = header_len res in
      if \<not> alloc then Some (ERR_OUT_OF_MEMORY, None)
      else do {
        t \<leftarrow> emit (response_len + 1)
          (version_str @ '' '' @ show_nat (status_code (resp_status res)) @ '' '' @ status_str @ crlf @
           ''Content-Length: '' @ show_nat (body_len res) @ crlf @
           ''Content-Type: '' @ resolve_content_type res @ crlf @
           ''Connection: close'' @ crlf @ authentication_headers res @ crlf) [];
        Some (ERR_NONE, Some (t @ [CHR 0x00], response_len))
      })"

definition http_response_internal_server_error :: "bool \<Rightarrow> (string \<times> nat) option option" where
  "http_response_internal_server_error alloc =
     map_option snd (http_response_build alloc
       (response_text HTTP_STATUS_INTERNAL_SERVER_ERROR ''Internal Server Error'' (length ''Internal Server Error'')))"

section \<open>Specification\<close>

definition header_lines :: "http_response \<Rightarrow> string list" where
  "header_lines res =
     [''HTTP/1.1 '' @ show_nat (status_code (resp_status res)) @ '' '' @ http_status_to_string (resp_status res),
      ''Content-Length: '' @ show_nat (body_len res),
      ''Content-Type: '' @ resolve_content_type res,
      ''Connection: close''] @
     (if bearer_challenge res then [''WWW-Authenticate: Bearer''] else []) @
     (if no_store res then [''Cache-Control: no-store''] else [])"

definition response_head :: "http_response \<Rightarrow> string" where
  "response_head res = concat (map (\<lambda>l. l @ crlf) (header_lines res)) @ crlf"

lemma resolve_content_length: "resolve_content_length n = length (show_nat n)"
proof (cases "n < 10")
  case True
  then show ?thesis by (simp add: resolve_content_length_def show_nat.simps[of n] count_digits.simps)
next
  case False
  then show ?thesis
    using count_digits_add[of "n div 10" 0 1] count_digits_show[of "n div 10"]
    by (simp add: resolve_content_length_def show_nat.simps[of n])
qed

lemma length_status_code: "length (show_nat (status_code st)) = 3"
proof -
  obtain k where k: "status_code st = k" "100 \<le> k" "k < 1000" using status_code_three_digits[of st] by blast
  have "\<not> k < 10" "\<not> k div 10 < 10" "k div 100 < 10" using k by linarith+
  then show ?thesis unfolding k(1)
    by (simp add: show_nat.simps[of k] show_nat.simps[of "k div 10"] show_nat.simps[of "k div 100"] div_mult2_eq[symmetric])
qed

lemma length_response_head: "length (response_head res) = header_len res"
  by (simp add: response_head_def header_lines_def header_len_def authentication_headers_def crlf_def
      resolve_content_length length_status_code)

lemma response_head_text:
  "http_version_to_string HTTP_VERSION_1_1 @ '' '' @ show_nat (status_code (resp_status res)) @ '' '' @
     http_status_to_string (resp_status res) @ crlf @
     ''Content-Length: '' @ show_nat (body_len res) @ crlf @
     ''Content-Type: '' @ resolve_content_type res @ crlf @
     ''Connection: close'' @ crlf @ authentication_headers res @ crlf = response_head res"
  by (simp add: response_head_def header_lines_def authentication_headers_def)


lemma http_response_build_text:
  assumes "body_len res = 0 \<or> (\<exists>b. resp_body res = Some b \<and> body_len res \<le> length b)"
  shows "http_response_build True res =
    Some (ERR_NONE, Some (response_head res @ take (body_len res) (the (resp_body res)) @ [CHR 0x00],
      length (response_head res) + body_len res))"
proof -
  define cap where "cap = header_len res + body_len res + 1"
  define t1 where "t1 = http_version_to_string HTTP_VERSION_1_1 @ '' '' @ show_nat (status_code (resp_status res)) @ '' '' @
    http_status_to_string (resp_status res) @ crlf"
  define t2 where "t2 = ''Content-Length: '' @ show_nat (body_len res) @ crlf"
  define t3 where "t3 = ''Content-Type: '' @ resolve_content_type res @ crlf"
  define t4 where "t4 = ''Connection: close'' @ crlf"
  define t5 where "t5 = authentication_headers res @ crlf"
  have all: "((((t1 @ t2) @ t3) @ t4) @ t5) = response_head res"
    using response_head_text[of res] by (simp only: t1_def t2_def t3_def t4_def t5_def append.assoc)
  have len: "length t1 + length t2 + length t3 + length t4 + length t5 = header_len res"
    unfolding length_response_head[symmetric] all[symmetric] by simp
  define content where "content = take (body_len res) (the (resp_body res))"
  have c: "(if body_len res = 0 then Some [] else Option.bind (resp_body res) (\<lambda>b. rd_bytes b 0 (body_len res))) = Some content"
    "length content = body_len res" using assms by (auto simp: content_def rd_bytes_def)
  have "http_response_build True res = do {
        a \<leftarrow> emit cap t1 [];
        b \<leftarrow> emit cap t2 a;
        c \<leftarrow> emit cap t3 b;
        d \<leftarrow> emit cap t4 c;
        e \<leftarrow> emit cap t5 d;
        content \<leftarrow> Some content;
        if length e + length content \<noteq> header_len res + body_len res then None
        else do {
          buffer \<leftarrow> put cap (CHR 0x00) (e @ content);
          Some (ERR_NONE, Some (buffer, header_len res + body_len res))
        } }"
    unfolding http_response_build_def Let_def c(1) cap_def t1_def t2_def t3_def t4_def t5_def by (simp only: simp_thms if_False)
  also have "\<dots> = Some (ERR_NONE, Some (response_head res @ content @ [CHR 0x00], header_len res + body_len res))"
  proof -
    have e: "emit cap t1 [] = Some t1" "emit cap t2 t1 = Some (t1 @ t2)" "emit cap t3 (t1 @ t2) = Some ((t1 @ t2) @ t3)"
      "emit cap t4 ((t1 @ t2) @ t3) = Some (((t1 @ t2) @ t3) @ t4)"
      "emit cap t5 (((t1 @ t2) @ t3) @ t4) = Some (response_head res)"
      using len all by (simp_all add: emit_def cap_def)
    show ?thesis unfolding e Option.bind.bind_lunit
      using c(2) by (simp add: length_response_head put_def cap_def)
  qed
  finally show ?thesis by (simp add: content_def length_response_head)
qed

lemma http_response_build_header_text:
  "http_response_build_header True res =
    Some (ERR_NONE, Some (response_head res @ [CHR 0x00], length (response_head res)))"
  unfolding http_response_build_header_def Let_def response_head_text emit_def
  by (simp add: length_response_head)

section \<open>Properties\<close>

text \<open>
  C33.  Rendering: whenever the body has the announced length, the response is the status
  line, the header lines with the exact \<open>Content-Length\<close>, an empty line and the body, and its
  length is the one computed in advance, so that the buffer is filled to its last byte and
  nothing is truncated or written behind it; the response to \<open>HEAD\<close> is the same head.
\<close>

theorem http_response_build_correct:
  assumes "body_len res = 0 \<or> (\<exists>b. resp_body res = Some b \<and> body_len res \<le> length b)"
  shows "http_response_build True res =
      Some (ERR_NONE, Some (response_head res @ take (body_len res) (the (resp_body res)) @ [CHR 0x00],
        length (response_head res) + body_len res)) \<and>
    http_response_build_header True res =
      Some (ERR_NONE, Some (response_head res @ [CHR 0x00], length (response_head res))) \<and>
    decimal (show_nat (body_len res)) = body_len res"
  using http_response_build_text[OF assms] http_response_build_header_text[of res] decimal_show_nat by blast

theorem http_response_build_correct_witness:
  "http_response_build True (response_text HTTP_STATUS_NOT_FOUND ''no'' 2) =
    Some (ERR_NONE, Some (response_head (response_text HTTP_STATUS_NOT_FOUND ''no'' 2) @ ''no'' @ [CHR 0x00], 92)) \<and>
   length (response_head (response_text HTTP_STATUS_NOT_FOUND ''no'' 2)) = 90"
proof -
  have len: "length (response_head (response_text HTTP_STATUS_NOT_FOUND ''no'' 2)) = 90" by code_simp
  show ?thesis
    using http_response_build_correct[of "response_text HTTP_STATUS_NOT_FOUND ''no'' 2"] len
    by (simp add: response_text_def)
qed

end
