(* ===== verification/Send.thy ===== *)
theory Send
  imports Response
begin

text \<open>
  Sending a response, \<open>src/src/server.c\<close>: the scatter/gather vector of a connection and the
  partial writes.  An entry of the vector is the list of its remaining bytes.  The socket is the
  list of the results of \<open>writev\<close>; at the end of the list it would block.
\<close>

definition MAX_IOV :: nat where "MAX_IOV = 4"

record send_state =
  iov :: "string list"
  iov_count :: nat
  iov_index :: nat

text \<open>
  \<open>Written n\<close>: the socket has room for \<open>n\<close> bytes and \<open>writev\<close> takes as many of those offered.
  The errors are told apart by \<open>errno\<close>.
\<close>

datatype writev_result = Written nat | Writev_again | Writev_error

function advance_loop :: "nat \<Rightarrow> send_state \<Rightarrow> send_state option" where
  "advance_loop send_bytes st =
     (if iov_index st < iov_count st \<and> send_bytes > 0 then do {
        cur \<leftarrow> rd (iov st) (iov_index st);
        if send_bytes \<ge> length cur then advance_loop (send_bytes - length cur) (st\<lparr>iov_index := iov_index st + 1\<rparr>)
        else Some (st\<lparr>iov := (iov st)[iov_index st := drop send_bytes cur]\<rparr>)
      }
      else Some st)"
  by pat_completeness auto
termination by (relation "measure (\<lambda>(n, st). iov_count st - iov_index st)") auto

declare advance_loop.simps [simp del]

definition advance_iovec :: "nat \<Rightarrow> send_state \<Rightarrow> (bool \<times> send_state) option" where
  "advance_iovec send_bytes st = map_option (\<lambda>st. (iov_index st \<ge> iov_count st, st)) (advance_loop send_bytes st)"

text \<open>The bytes that the vector still offers.\<close>

definition offered :: "send_state \<Rightarrow> string" where
  "offered st = concat (take (iov_count st - iov_index st) (drop (iov_index st) (iov st)))"

text \<open>The result, the bytes that the socket took, and the vector behind them.\<close>

fun connection_send_buffer :: "writev_result list \<Rightarrow> send_state \<Rightarrow> (int \<times> string \<times> send_state) option" where
  "connection_send_buffer [] st = Some (if iov_index st < iov_count st then 0 else 1, [], st)"
| "connection_send_buffer (w # ws) st =
     (if iov_index st < iov_count st then
        (case w of
           Written m \<Rightarrow>
             let n = min m (length (offered st)) in
             if n > 0 then do {
               (complete, st') \<leftarrow> advance_iovec n st;
               if complete then Some (1, take n (offered st), st')
               else do {
                 (r, sent, st'') \<leftarrow> connection_send_buffer ws st';
                 Some (r, take n (offered st) @ sent, st'')
               }
             }
             else Some (0, [], st)
         | Writev_again \<Rightarrow> Some (0, [], st)
         | Writev_error \<Rightarrow> Some (-1, [], st))
      else Some (1, [], st))"

text \<open>The vector that \<open>start_send_http_response\<close> prepares, or \<open>None\<close> when the header cannot be built.\<close>

definition send_start :: "bool \<Rightarrow> http_response \<Rightarrow> send_state option option" where
  "send_start alloc response = do {
     (err, header) \<leftarrow> http_response_build_header alloc response;
     case header of
       None \<Rightarrow> Some None
     | Some (header_buf, header_buf_len) \<Rightarrow> do {
         h \<leftarrow> rd_bytes header_buf 0 header_buf_len;
         (case resp_body response of
            Some b \<Rightarrow>
              if body_len response > 0 then do {
                b \<leftarrow> rd_bytes b 0 (body_len response);
                Some (Some \<lparr>iov = [h, b, [], []], iov_count = 2, iov_index = 0\<rparr>) }
              else Some (Some \<lparr>iov = [h, [], [], []], iov_count = 1, iov_index = 0\<rparr>)
          | None \<Rightarrow> Some (Some \<lparr>iov = [h, [], [], []], iov_count = 1, iov_index = 0\<rparr>))
       }
   }"

text \<open>
  The first attempt and one attempt for each event that the socket is writable, as long as the
  result is 0.
\<close>

fun send_events :: "writev_result list list \<Rightarrow> send_state \<Rightarrow> (int \<times> string \<times> send_state) option" where
  "send_events [] st = Some (0, [], st)"
| "send_events (ws # wss) st = do {
     (r, sent, st') \<leftarrow> connection_send_buffer ws st;
     if r \<noteq> 0 then Some (r, sent, st')
     else do { (r', sent', st'') \<leftarrow> send_events wss st'; Some (r', sent @ sent', st'') }
   }"

section \<open>No byte is lost or repeated\<close>

definition vector_ok :: "send_state \<Rightarrow> bool" where
  "vector_ok st \<longleftrightarrow> iov_count st \<le> length (iov st) \<and>
     (\<forall>i < iov_count st. iov_index st \<le> i \<longrightarrow> iov st ! i \<noteq> [])"

lemma offered_step:
  assumes "iov_index st < iov_count st" "iov_count st \<le> length (iov st)"
  shows "offered st = iov st ! iov_index st @ offered (st\<lparr>iov_index := iov_index st + 1\<rparr>)"
proof -
  have d: "drop (iov_index st) (iov st) = iov st ! iov_index st # drop (Suc (iov_index st)) (iov st)"
    by (rule drop_Suc_nth) (use assms in simp)
  have c: "iov_count st - iov_index st = Suc (iov_count st - Suc (iov_index st))" using assms(1) by simp
  show ?thesis unfolding offered_def d c by simp
qed

lemma offered_empty: "vector_ok st \<Longrightarrow> offered st = [] \<longleftrightarrow> iov_index st \<ge> iov_count st"
proof (cases "iov_index st < iov_count st")
  case True
  assume ok: "vector_ok st"
  then have "iov st ! iov_index st \<noteq> []" "iov_count st \<le> length (iov st)" using True by (auto simp: vector_ok_def)
  then show ?thesis using offered_step[OF True] True by auto
qed (simp add: offered_def)

lemma advance_loop_drops:
  assumes "vector_ok st" "n \<le> length (offered st)"
  shows "\<exists>st'. advance_loop n st = Some st' \<and> vector_ok st' \<and> offered st' = drop n (offered st) \<and>
    iov_count st' = iov_count st"
  using assms
proof (induction n st rule: advance_loop.induct)
  case (1 n st)
  show ?case
  proof (cases "iov_index st < iov_count st \<and> n > 0")
    case False
    then have "advance_loop n st = Some st" by (subst advance_loop.simps) auto
    moreover have "drop n (offered st) = offered st"
      using False 1(3) offered_empty[OF 1(2)] by (cases "n = 0") auto
    ultimately show ?thesis using 1(2) by simp
  next
    case True
    let ?cur = "iov st ! iov_index st"
    let ?st = "st\<lparr>iov_index := iov_index st + 1\<rparr>"
    have c: "iov_count st \<le> length (iov st)" using 1(2) by (simp add: vector_ok_def)
    then have r: "rd (iov st) (iov_index st) = Some ?cur" using True by (simp add: rd_Some)
    note o = offered_step[OF conjunct1[OF True] c]
    have ok: "vector_ok ?st" using 1(2) by (auto simp: vector_ok_def)
    show ?thesis
    proof (cases "n \<ge> length ?cur")
      case ge: True
      have l: "n - length ?cur \<le> length (offered ?st)" using 1(3) o by simp
      have s: "advance_loop n st = advance_loop (n - length ?cur) ?st"
        using True r ge by (subst advance_loop.simps) simp
      obtain st' where "advance_loop (n - length ?cur) ?st = Some st'" "vector_ok st'"
        "offered st' = drop (n - length ?cur) (offered ?st)" "iov_count st' = iov_count ?st"
        using 1(1)[OF True r ge ok l] by blast
      then show ?thesis using s o ge by simp
    next
      case lt: False
      let ?st' = "st\<lparr>iov := (iov st)[iov_index st := drop n ?cur]\<rparr>"
      have s: "advance_loop n st = Some ?st'" using True r lt by (subst advance_loop.simps) simp
      have ok': "vector_ok ?st'" using 1(2) lt by (auto simp: vector_ok_def nth_list_update)
      have "offered ?st' = iov ?st' ! iov_index ?st' @ offered (?st'\<lparr>iov_index := iov_index ?st' + 1\<rparr>)"
        by (rule offered_step) (use True c in simp_all)
      also have "offered (?st'\<lparr>iov_index := iov_index ?st' + 1\<rparr>) = offered ?st" by (simp add: offered_def)
      also have "iov ?st' ! iov_index ?st' = drop n ?cur" using True c by simp
      finally have "offered ?st' = drop n (offered st)" using o lt by simp
      then show ?thesis using s ok' by simp
    qed
  qed
qed

lemma send_buffer_sends:
  assumes "vector_ok st"
  shows "\<exists>r sent st'. connection_send_buffer ws st = Some (r, sent, st') \<and> vector_ok st' \<and>
    offered st = sent @ offered st' \<and> r \<in> {-1, 0, 1} \<and> (r = 1 \<longleftrightarrow> offered st' = [])"
  using assms
proof (induction ws arbitrary: st)
  case Nil
  then show ?case using offered_empty by auto
next
  case (Cons w ws)
  show ?case
  proof (cases "iov_index st < iov_count st")
    case False
    then show ?thesis using Cons.prems offered_empty by auto
  next
    case True
    then have ne: "offered st \<noteq> []" using offered_empty[OF Cons.prems] by simp
    show ?thesis
    proof (cases w)
      case (Written m)
      let ?n = "min m (length (offered st))"
      show ?thesis
      proof (cases "?n > 0")
        case n: True
        obtain st' where a: "advance_loop ?n st = Some st'" "vector_ok st'" "offered st' = drop ?n (offered st)"
          using advance_loop_drops[OF Cons.prems, of ?n] by auto
        have v: "advance_iovec ?n st = Some (iov_index st' \<ge> iov_count st', st')" using a(1) by (simp add: advance_iovec_def)
        have split: "offered st = take ?n (offered st) @ offered st'" using a(3) by simp
        show ?thesis
        proof (cases "iov_index st' \<ge> iov_count st'")
          case complete: True
          then have e: "offered st' = []" using offered_empty[OF a(2)] by simp
          have "connection_send_buffer (w # ws) st = Some (1, take ?n (offered st), st')"
            using True Written n v complete by (simp add: Let_def)
          then show ?thesis using a(2) e split by (intro exI conjI) (assumption, auto)
        next
          case part: False
          obtain r sent st'' where i: "connection_send_buffer ws st' = Some (r, sent, st'')" "vector_ok st''"
            "offered st' = sent @ offered st''" "r \<in> {-1, 0, 1}" "r = 1 \<longleftrightarrow> offered st'' = []"
            using Cons.IH[OF a(2)] by blast
          have "connection_send_buffer (w # ws) st = Some (r, take ?n (offered st) @ sent, st'')"
            using True Written n v part i(1) by (simp add: Let_def)
          moreover have "offered st = (take ?n (offered st) @ sent) @ offered st''"
            using split i(3) by simp
          ultimately show ?thesis using i(2,4,5) by blast
        qed
      next
        case False
        then show ?thesis using True Written Cons.prems ne by auto
      qed
    qed (use True Cons.prems ne in auto)
  qed
qed

lemma send_events_send:
  assumes "vector_ok st" "offered st \<noteq> []"
  shows "\<exists>r sent st'. send_events wss st = Some (r, sent, st') \<and> offered st = sent @ offered st' \<and>
    r \<in> {-1, 0, 1} \<and> (r = 1 \<longleftrightarrow> offered st' = [])"
  using assms
proof (induction wss arbitrary: st)
  case (Cons ws wss)
  obtain r sent st' where s: "connection_send_buffer ws st = Some (r, sent, st')" "vector_ok st'"
    "offered st = sent @ offered st'" "r \<in> {-1, 0, 1}" "r = 1 \<longleftrightarrow> offered st' = []"
    using send_buffer_sends[OF Cons.prems(1)] by blast
  show ?case
  proof (cases "r = 0")
    case True
    then have "offered st' \<noteq> []" using s(5) by simp
    from Cons.IH[OF s(2) this] s(1,3) True show ?thesis by fastforce
  next
    case False
    then show ?thesis using s by simp
  qed
qed simp

lemma response_head_nonempty: "response_head res \<noteq> []"
  by (simp add: response_head_def crlf_def)

lemma send_start_offers:
  assumes "body_len res = 0 \<or> (\<exists>b. resp_body res = Some b \<and> body_len res \<le> length b)"
  shows "\<exists>st. send_start True res = Some (Some st) \<and> vector_ok st \<and>
    offered st = response_head res @ take (body_len res) (the (resp_body res))"
proof -
  have h: "rd_bytes (response_head res @ [CHR 0x00]) 0 (length (response_head res)) = Some (response_head res)"
    by (simp add: rd_bytes_def)
  have b: "http_response_build_header True res = Some (ERR_NONE, Some (response_head res @ [CHR 0x00], length (response_head res)))"
    by (rule http_response_build_header_text)
  show ?thesis
  proof (cases "body_len res = 0")
    case True
    then have "send_start True res = Some (Some \<lparr>iov = [response_head res, [], [], []], iov_count = 1, iov_index = 0\<rparr>)"
      by (cases "resp_body res") (simp_all add: send_start_def b h)
    then show ?thesis using True response_head_nonempty by (simp add: vector_ok_def offered_def)
  next
    case False
    then obtain c where c: "resp_body res = Some c" "body_len res \<le> length c" using assms by auto
    have "send_start True res =
        Some (Some \<lparr>iov = [response_head res, take (body_len res) c, [], []], iov_count = 2, iov_index = 0\<rparr>)"
      using c False by (simp add: send_start_def b h rd_bytes_def)
    then show ?thesis using c False response_head_nonempty
      by (auto simp: vector_ok_def offered_def nth_Cons' take_Cons' numeral_2_eq_2)
  qed
qed

text \<open>
  C10.  However the socket splits the writes, sending a response never leaves the vector, and the
  bytes sent are at any time a prefix of the head and the body of the response, in order, without
  loss or repetition; the result is 1 exactly when all of them have been sent.
\<close>

theorem response_sent_completely:
  assumes "body_len res = 0 \<or> (\<exists>b. resp_body res = Some b \<and> body_len res \<le> length b)"
  shows "\<exists>st r sent st'. send_start True res = Some (Some st) \<and> send_events wss st = Some (r, sent, st') \<and>
    response_head res @ take (body_len res) (the (resp_body res)) = sent @ offered st' \<and>
    (r = 1 \<longleftrightarrow> sent = response_head res @ take (body_len res) (the (resp_body res)))"
proof -
  obtain st where s: "send_start True res = Some (Some st)" "vector_ok st"
    "offered st = response_head res @ take (body_len res) (the (resp_body res))"
    using send_start_offers[OF assms] by blast
  have n: "offered st \<noteq> []" using s(3) response_head_nonempty by simp
  obtain r sent st' where e: "send_events wss st = Some (r, sent, st')" "offered st = sent @ offered st'"
    "r = 1 \<longleftrightarrow> offered st' = []"
    using send_events_send[OF s(2) n] by blast
  have "r = 1 \<longleftrightarrow> sent = offered st" using e(2,3) by (metis append_self_conv self_append_conv)
  then show ?thesis using s(1,3) e(1,2) by metis
qed

theorem response_sent_completely_witness:
  "\<exists>st st'. send_start True (response_text HTTP_STATUS_NOT_FOUND ''Not Found'' 9) = Some (Some st) \<and>
     send_events [[Written 10, Writev_again], [Written 88], [Written 7, Written 100]] st =
       Some (1, response_head (response_text HTTP_STATUS_NOT_FOUND ''Not Found'' 9) @ ''Not Found'', st')"
proof -
  let ?r = "response_text HTTP_STATUS_NOT_FOUND ''Not Found'' 9"
  let ?w = "[[Written 10, Writev_again], [Written 88], [Written 7, Written 100]]"
  have b: "body_len ?r = 0 \<or> (\<exists>b. resp_body ?r = Some b \<and> body_len ?r \<le> length b)" by (simp add: response_text_def)
  obtain st r sent st' where c: "send_start True ?r = Some (Some st)" "send_events ?w st = Some (r, sent, st')"
    "r = 1 \<longleftrightarrow> sent = response_head ?r @ take (body_len ?r) (the (resp_body ?r))"
    using response_sent_completely[OF b, of ?w] by blast
  have "map_option fst (send_events ?w (the (the (send_start True ?r)))) = Some 1" by code_simp
  then have "r = 1" using c(1,2) by simp
  then show ?thesis using c by (simp add: response_text_def)
qed

end
