(* ===== verification/Connection.thy ===== *)
theory Connection
  imports Send
begin

text \<open>
  Connections, requests and request contexts: \<open>src/src/server_connection.c\<close>, the event handlers
  of \<open>src/src/server.c\<close> and \<open>src/src/http_server.c\<close>.  The three kinds of heap objects are finite
  maps from addresses; an access to an object that is not allocated, or its second release, is
  undefined behaviour and the value \<open>None\<close>.  Handlers are the values \<open>'h\<close> of the routing table,
  and what a handler does in a call is a parameter of the operations that call it.
\<close>

section \<open>Routes\<close>

definition MAX_ROUTES :: nat where "MAX_ROUTES = 64"

record 'h route =
  route_method :: http_method
  route_path :: string
  route_handler :: 'h

definition http_server_add_route :: "http_method \<Rightarrow> string \<Rightarrow> 'h \<Rightarrow> 'h route list \<Rightarrow> 'h route list" where
  "http_server_add_route meth path handler routes =
     (if length routes \<ge> MAX_ROUTES then routes
      else routes @ [\<lparr>route_method = meth, route_path = cstr path, route_handler = handler\<rparr>])"

text \<open>\<open>strncmp\<close> returns 0.\<close>

definition strncmp_eq :: "string \<Rightarrow> string \<Rightarrow> nat \<Rightarrow> bool" where
  "strncmp_eq a b n \<longleftrightarrow> take n (cstr a) = take n (cstr b)"

fun find_route :: "'h route list \<Rightarrow> http_method \<Rightarrow> string \<Rightarrow> 'h option" where
  "find_route [] meth u = None"
| "find_route (route # routes) meth u =
     (if route_method route \<noteq> meth then find_route routes meth u
      else if length (route_path route) \<noteq> length u then find_route routes meth u
      else if strncmp_eq (route_path route) u (length (route_path route)) then Some (route_handler route)
      else find_route routes meth u)"

section \<open>Heap objects\<close>

type_synonym addr = nat

datatype fd_type = FD_TYPE_LISTEN | FD_TYPE_CLIENT | FD_TYPE_SIGNAL | FD_TYPE_DB | FD_TYPE_PASSWORD

record conn_node =
  fd :: int
  fd_type :: fd_type
  next_conn :: "addr option"
  previous :: "addr option"
  retired_next :: "addr option"
  conn_request :: "addr option"
  header_buffer :: "string option"
  sending :: send_state

record request_node =
  req_conn :: "addr option"
  req_context :: "addr option"
  req_method :: http_method
  req_uri :: string

record 'h context_node =
  ctx_request :: addr
  current_handler :: 'h

record 'h server =
  conns :: "addr \<rightharpoonup> conn_node"
  requests :: "addr \<rightharpoonup> request_node"
  contexts :: "addr \<rightharpoonup> 'h context_node"
  clients :: "addr option"
  retired_clients :: "addr option"

datatype 'h outcome = Complete http_response | Pending 'h

definition upd_conn :: "(conn_node \<Rightarrow> conn_node) \<Rightarrow> addr \<Rightarrow> 'h server \<Rightarrow> 'h server option" where
  "upd_conn f c s = do { n \<leftarrow> conns s c; Some (s\<lparr>conns := (conns s)(c \<mapsto> f n)\<rparr>) }"

definition http_request_dispose :: "addr \<Rightarrow> 'h server \<Rightarrow> 'h server option" where
  "http_request_dispose r s = do { q \<leftarrow> requests s r; Some (s\<lparr>requests := (requests s)(r := None)\<rparr>) }"

definition http_request_context_dispose :: "addr \<Rightarrow> 'h server \<Rightarrow> 'h server option" where
  "http_request_context_dispose x s = do {
     ctx \<leftarrow> contexts s x;
     q \<leftarrow> requests s (ctx_request ctx);
     let s = s\<lparr>requests := (requests s)(ctx_request ctx \<mapsto> q\<lparr>req_context := None\<rparr>)\<rparr>;
     s \<leftarrow> (if req_conn q = None then http_request_dispose (ctx_request ctx) s else Some s);
     Some (s\<lparr>contexts := (contexts s)(x := None)\<rparr>)
   }"

text \<open>The unlinking of a client in \<open>remove_connection\<close>, and the release of its request.\<close>

definition unlink_client :: "addr \<Rightarrow> 'h server \<Rightarrow> 'h server option" where
  "unlink_client c s = do {
     n \<leftarrow> conns s c;
     s \<leftarrow> (case previous n of
            Some p \<Rightarrow> upd_conn (\<lambda>m. m\<lparr>next_conn := next_conn n\<rparr>) p s
          | None \<Rightarrow> Some (s\<lparr>clients := next_conn n\<rparr>));
     (case next_conn n of
        Some x \<Rightarrow> upd_conn (\<lambda>m. m\<lparr>previous := previous n\<rparr>) x s
      | None \<Rightarrow> Some s)
   }"

definition release_request :: "addr \<Rightarrow> 'h server \<Rightarrow> 'h server option" where
  "release_request c s = do {
     n \<leftarrow> conns s c;
     s \<leftarrow> upd_conn (\<lambda>m. m\<lparr>conn_request := None\<rparr>) c s;
     s \<leftarrow> (case conn_request n of
             None \<Rightarrow> Some s
           | Some r \<Rightarrow> do {
               q \<leftarrow> requests s r;
               let s = s\<lparr>requests := (requests s)(r \<mapsto> q\<lparr>req_conn := None\<rparr>)\<rparr>;
               if req_context q = None then http_request_dispose r s else Some s });
     upd_conn (\<lambda>m. m\<lparr>header_buffer := None\<rparr>) c s
   }"

definition remove_connection :: "addr \<Rightarrow> 'h server \<Rightarrow> 'h server option" where
  "remove_connection c s = do {
     n \<leftarrow> conns s c;
     if fd n < 0 then Some s
     else do {
       s \<leftarrow> upd_conn (\<lambda>m. m\<lparr>fd := -1\<rparr>) c s;
       s \<leftarrow> (if fd_type n = FD_TYPE_CLIENT then Option.bind (unlink_client c s) (release_request c) else Some s);
       s \<leftarrow> upd_conn (\<lambda>m. m\<lparr>retired_next := retired_clients s\<rparr>) c s;
       Some (s\<lparr>retired_clients := Some c\<rparr>)
     }
   }"

partial_function (option) reap_connections :: "'h server \<Rightarrow> 'h server option" where
  "reap_connections s =
     (case retired_clients s of
        None \<Rightarrow> Some s
      | Some c \<Rightarrow> Option.bind (conns s c) (\<lambda>n.
          reap_connections (s\<lparr>retired_clients := retired_next n, conns := (conns s)(c := None)\<rparr>)))"

section \<open>Events\<close>

definition zero_send :: send_state where
  "zero_send = \<lparr>iov = replicate MAX_IOV [], iov_count = 0, iov_index = 0\<rparr>"

text \<open>The acceptance of a connection in \<open>listen_handler\<close>; \<open>c\<close> is the new object.\<close>

definition accept_client :: "addr \<Rightarrow> int \<Rightarrow> 'h server \<Rightarrow> 'h server option" where
  "accept_client c client_fd s = do {
     let n = \<lparr>fd = client_fd, fd_type = FD_TYPE_CLIENT, next_conn = clients s, previous = None, retired_next = None,
              conn_request = None, header_buffer = None, sending = zero_send\<rparr>;
     let s = s\<lparr>conns := (conns s)(c \<mapsto> n)\<rparr>;
     s \<leftarrow> (case clients s of None \<Rightarrow> Some s | Some h \<Rightarrow> upd_conn (\<lambda>m. m\<lparr>previous := Some c\<rparr>) h s);
     Some (s\<lparr>clients := Some c\<rparr>)
   }"

text \<open>
  What the environment answers while a response is sent: whether the header can be allocated, the
  results of \<open>writev\<close>, whether \<open>epoll_ctl\<close> succeeds.
\<close>

record send_env =
  header_mem :: bool
  writes :: "writev_result list"
  epoll_ok :: bool

definition send_response_bytes :: "writev_result list \<Rightarrow> addr \<Rightarrow> 'h server \<Rightarrow> (int \<times> 'h server) option" where
  "send_response_bytes ws c s = do {
     n \<leftarrow> conns s c;
     (r, sent, st) \<leftarrow> connection_send_buffer ws (sending n);
     s \<leftarrow> upd_conn (\<lambda>m. m\<lparr>sending := st\<rparr>) c s;
     Some (r, s)
   }"

definition start_send_http_response :: "send_env \<Rightarrow> addr \<Rightarrow> http_response \<Rightarrow> 'h server \<Rightarrow> 'h server option" where
  "start_send_http_response env c response s = do {
     prepared \<leftarrow> send_start (header_mem env) response;
     case prepared of
       None \<Rightarrow> remove_connection c s
     | Some st \<Rightarrow> do {
         s \<leftarrow> upd_conn (\<lambda>m. m\<lparr>header_buffer := Some (iov st ! 0), sending := st\<rparr>) c s;
         (r, s) \<leftarrow> send_response_bytes (writes env) c s;
         if r = 0 \<and> epoll_ok env then Some s else remove_connection c s
       }
   }"

definition not_found :: http_response where
  "not_found = response_text HTTP_STATUS_NOT_FOUND ''Not Found'' 9"

text \<open>
  The response, or \<open>None\<close> when the handler goes on later.  \<open>ctx_mem\<close>: the new context, \<open>run\<close>: what
  the handler does.
\<close>

definition http_server_handle_request ::
  "'h route list \<Rightarrow> ('h \<Rightarrow> 'h outcome) \<Rightarrow> addr option \<Rightarrow> addr \<Rightarrow> 'h server \<Rightarrow> (http_response option \<times> 'h server) option" where
  "http_server_handle_request routes run ctx_mem r s = do {
     q \<leftarrow> requests s r;
     case find_route routes (req_method q) (req_uri q) of
       None \<Rightarrow> Some (Some not_found, s)
     | Some h \<Rightarrow>
         (case ctx_mem of
            None \<Rightarrow> Some (Some (response_text HTTP_STATUS_INTERNAL_SERVER_ERROR [] 0), s)
          | Some x \<Rightarrow>
              let s = s\<lparr>requests := (requests s)(r \<mapsto> q\<lparr>req_context := Some x\<rparr>)\<rparr> in
              (case run h of
                 Complete response \<Rightarrow> do {
                   s \<leftarrow> http_request_context_dispose x
                     (s\<lparr>contexts := (contexts s)(x \<mapsto> \<lparr>ctx_request = r, current_handler = h\<rparr>)\<rparr>);
                   Some (Some response, s) }
               | Pending h' \<Rightarrow>
                   Some (None, s\<lparr>contexts := (contexts s)(x \<mapsto> \<lparr>ctx_request = r, current_handler = h'\<rparr>)\<rparr>)))
   }"

text \<open>
  A readable client: the answer of the peek, the new request object, what the parser makes of the
  input (method and target, and a response when it failed), and the environment of the rest.
\<close>

record 'h client_env =
  peek_ends :: bool
  req_mem :: "addr option"
  parsed_method :: http_method
  parsed_uri :: string
  parse_error :: "http_response option"
  run_handler :: "'h \<Rightarrow> 'h outcome"
  ctx_mem :: "addr option"
  client_send :: send_env

definition client_handler :: "'h route list \<Rightarrow> 'h client_env \<Rightarrow> addr \<Rightarrow> 'h server \<Rightarrow> 'h server option" where
  "client_handler routes env c s = do {
     n \<leftarrow> conns s c;
     if conn_request n \<noteq> None then (if peek_ends env then remove_connection c s else Some s)
     else (case req_mem env of
       None \<Rightarrow> remove_connection c s
     | Some r \<Rightarrow> do {
         s \<leftarrow> upd_conn (\<lambda>m. m\<lparr>conn_request := Some r\<rparr>) c s;
         let s = s\<lparr>requests := (requests s)(r \<mapsto> \<lparr>req_conn = Some c, req_context = None,
                     req_method = parsed_method env, req_uri = parsed_uri env\<rparr>)\<rparr>;
         (case parse_error env of
            Some response \<Rightarrow> start_send_http_response (client_send env) c response s
          | None \<Rightarrow> do {
              (response, s) \<leftarrow> http_server_handle_request routes (run_handler env) (ctx_mem env) r s;
              (case response of
                 None \<Rightarrow> Some s
               | Some response \<Rightarrow> start_send_http_response (client_send env) c response s)
            })
       })
   }"

datatype client_event = Event_error | Event_out | Event_in

text \<open>A client in the loop of \<open>serve\<close>.\<close>

definition client_ready :: "'h route list \<Rightarrow> client_event \<Rightarrow> 'h client_env \<Rightarrow> addr \<Rightarrow> 'h server \<Rightarrow> 'h server option" where
  "client_ready routes ev env c s = do {
     n \<leftarrow> conns s c;
     if fd n < 0 then Some s
     else (case ev of
       Event_error \<Rightarrow> remove_connection c s
     | Event_out \<Rightarrow> do {
         (r, s) \<leftarrow> send_response_bytes (writes (client_send env)) c s;
         if r \<noteq> 0 then remove_connection c s else Some s }
     | Event_in \<Rightarrow> client_handler routes env c s)
   }"

text \<open>
  The completion of a task, in \<open>db_handler\<close> and \<open>password_worker_handler\<close>; \<open>x\<close> is the context it
  was submitted with.  A cancelled password job is completed with status 503 without the handler.
\<close>

definition task_completed :: "('h \<Rightarrow> 'h outcome) \<Rightarrow> send_env \<Rightarrow> addr \<Rightarrow> 'h server \<Rightarrow> 'h server option" where
  "task_completed run env x s = do {
     ctx \<leftarrow> contexts s x;
     q \<leftarrow> requests s (ctx_request ctx);
     case req_conn q of
       None \<Rightarrow> http_request_context_dispose x s
     | Some c \<Rightarrow>
         (case run (current_handler ctx) of
            Pending h \<Rightarrow> Some (s\<lparr>contexts := (contexts s)(x \<mapsto> ctx\<lparr>current_handler := h\<rparr>)\<rparr>)
          | Complete response \<Rightarrow> do {
              s \<leftarrow> start_send_http_response env c response s;
              http_request_context_dispose x s })
   }"

definition job_run :: "bool \<Rightarrow> ('h \<Rightarrow> 'h outcome) \<Rightarrow> 'h \<Rightarrow> 'h outcome" where
  "job_run is_cancelled run h =
     (if is_cancelled then Complete (response_text HTTP_STATUS_SERVICE_UNAVAILABLE [] 0) else run h)"

text \<open>
  \<open>destroy_server\<close>: all clients are removed, the completed tasks are delivered, and the retired
  connections are released.
\<close>

partial_function (option) remove_clients :: "'h server \<Rightarrow> 'h server option" where
  "remove_clients s = (case clients s of None \<Rightarrow> Some s | Some c \<Rightarrow> Option.bind (remove_connection c s) remove_clients)"

fun deliver_tasks :: "('h \<Rightarrow> 'h outcome) \<Rightarrow> send_env \<Rightarrow> addr list \<Rightarrow> 'h server \<Rightarrow> 'h server option" where
  "deliver_tasks run env [] s = Some s"
| "deliver_tasks run env (x # xs) s = Option.bind (task_completed run env x s) (deliver_tasks run env xs)"

definition destroy_server ::
  "('h \<Rightarrow> 'h outcome) \<Rightarrow> send_env \<Rightarrow> addr list \<Rightarrow> addr list \<Rightarrow> 'h server \<Rightarrow> 'h server option" where
  "destroy_server run env password_jobs db_tasks s = do {
     s \<leftarrow> remove_clients s;
     s \<leftarrow> deliver_tasks run env password_jobs s;
     s \<leftarrow> deliver_tasks run env db_tasks s;
     reap_connections s
   }"

definition create_server :: "'h server" where
  "create_server = \<lparr>conns = Map.empty, requests = Map.empty, contexts = Map.empty, clients = None, retired_clients = None\<rparr>"

section \<open>Routing is exact\<close>

lemma strncmp_eq_exact:
  assumes "no_nul a" "length a = length b"
  shows "strncmp_eq a b (length a) \<longleftrightarrow> a = b"
proof
  assume "strncmp_eq a b (length a)"
  then have e: "a = take (length a) (cstr b)" using assms(1) by (simp add: strncmp_eq_def)
  then have "length a \<le> length (cstr b)" by (metis length_take min.cobounded1 min_def)
  then have "length (cstr b) = length b" using assms(2) length_cstr[of b] by simp
  then have "cstr b = b" unfolding cstr_def by (metis takeWhile_eq_take take_all order_refl)
  then show "a = b" using e assms(2) by simp
qed (simp add: strncmp_eq_def)

lemma strncmp_eq_exact': "no_nul a \<Longrightarrow> length a = length b \<Longrightarrow> strncmp_eq a b (length b) \<longleftrightarrow> a = b"
  using strncmp_eq_exact[of a b] by simp

lemma find_route_exact:
  assumes "\<forall>route \<in> set routes. no_nul (route_path route)"
  shows "find_route routes meth u =
    map_option route_handler (find (\<lambda>route. route_method route = meth \<and> route_path route = u) routes)"
  using assms by (induction routes) (auto simp: strncmp_eq_exact')

section \<open>Doubly linked lists\<close>

text \<open>
  \<open>segment m a p xs b q\<close>: starting at \<open>p\<close>, whose predecessor is \<open>a\<close>, the nodes \<open>xs\<close> are linked in
  both directions up to \<open>b\<close>, whose successor is \<open>q\<close>.
\<close>

definition client_ok :: "conn_node \<Rightarrow> bool" where
  "client_ok n \<longleftrightarrow> 0 \<le> fd n \<and> fd_type n = FD_TYPE_CLIENT \<and> vector_ok (sending n)"

primrec segment ::
  "(addr \<rightharpoonup> conn_node) \<Rightarrow> addr option \<Rightarrow> addr option \<Rightarrow> addr list \<Rightarrow> addr option \<Rightarrow> addr option \<Rightarrow> bool" where
  "segment m a p [] b q \<longleftrightarrow> p = q \<and> a = b"
| "segment m a p (x # xs) b q \<longleftrightarrow> p = Some x \<and>
     (\<exists>n. m x = Some n \<and> client_ok n \<and> previous n = a \<and> segment m (Some x) (next_conn n) xs b q)"

primrec retired :: "(addr \<rightharpoonup> conn_node) \<Rightarrow> addr option \<Rightarrow> addr list \<Rightarrow> bool" where
  "retired m p [] \<longleftrightarrow> p = None"
| "retired m p (x # xs) \<longleftrightarrow> p = Some x \<and> (\<exists>n. m x = Some n \<and> fd n < 0 \<and> conn_request n = None \<and> retired m (retired_next n) xs)"

lemma segment_append:
  "segment m a p (xs @ ys) b q \<longleftrightarrow> (\<exists>c r. segment m a p xs c r \<and> segment m c r ys b q)"
  by (induction xs arbitrary: a p) auto

lemma segment_frame:
  assumes "\<And>x. x \<in> set xs \<Longrightarrow> m' x = m x"
  shows "segment m' a p xs b q = segment m a p xs b q"
  using assms by (induction xs arbitrary: a p) auto

lemma retired_frame:
  assumes "\<And>x. x \<in> set xs \<Longrightarrow> m' x = m x"
  shows "retired m' p xs = retired m p xs"
  using assms by (induction xs arbitrary: p) auto

lemma segment_other [simp]: "c \<notin> set xs \<Longrightarrow> segment (m(c := v)) a p xs b q = segment m a p xs b q"
  by (rule segment_frame) auto

lemma retired_other [simp]: "c \<notin> set xs \<Longrightarrow> retired (m(c := v)) p xs = retired m p xs"
  by (rule retired_frame) auto

lemma segment_last:
  "segment m a p xs b q \<Longrightarrow> b = (if xs = [] then a else Some (last xs))"
  by (induction xs arbitrary: a p) (auto split: if_splits)

lemma segment_first:
  "segment m a p xs b q \<Longrightarrow> p = (if xs = [] then q else Some (hd xs))"
  by (cases xs) auto

text \<open>The last node gets another successor, the first one another predecessor.\<close>

lemma segment_set_next:
  assumes "segment m a p xs b q" "distinct xs" "xs \<noteq> []" "m (last xs) = Some n"
  shows "segment (m(last xs \<mapsto> n\<lparr>next_conn := q'\<rparr>)) a p xs b q'"
  using assms
proof (induction xs arbitrary: a p)
  case (Cons x xs)
  show ?case
  proof (cases "xs = []")
    case True
    then show ?thesis using Cons.prems by (auto simp: client_ok_def)
  next
    case False
    then have "x \<noteq> last xs" using Cons.prems(2) by auto
    then show ?thesis using Cons False by auto
  qed
qed simp

lemma segment_set_previous:
  assumes "segment m a p (x # xs) b q" "distinct (x # xs)" "m x = Some n"
  shows "segment (m(x \<mapsto> n\<lparr>previous := a'\<rparr>)) a' p (x # xs) b q"
  using assms by (auto simp: client_ok_def)

section \<open>Ownership\<close>

definition conn_req :: "'h server \<Rightarrow> addr \<Rightarrow> addr option" where
  "conn_req s c = Option.bind (conns s c) conn_request"

definition request_conn :: "'h server \<Rightarrow> addr \<Rightarrow> addr option" where
  "request_conn s r = Option.bind (requests s r) req_conn"

definition request_context :: "'h server \<Rightarrow> addr \<Rightarrow> addr option" where
  "request_context s r = Option.bind (requests s r) req_context"

definition context_request :: "'h server \<Rightarrow> addr \<Rightarrow> addr option" where
  "context_request s x = map_option ctx_request (contexts s x)"

text \<open>
  The pointers between the objects are mutual, and a request lives exactly as long as a
  connection or a context holds it.
\<close>

definition owned :: "'h server \<Rightarrow> bool" where
  "owned s \<longleftrightarrow>
     (\<forall>c r. conn_req s c = Some r \<longleftrightarrow> request_conn s r = Some c) \<and>
     (\<forall>x r. context_request s x = Some r \<longleftrightarrow> request_context s r = Some x) \<and>
     (\<forall>r q. requests s r = Some q \<longrightarrow> req_conn q \<noteq> None \<or> req_context q \<noteq> None)"

text \<open>The clients are \<open>cs\<close>, the retired connections \<open>rs\<close>, and there are no others.\<close>

definition lists :: "'h server \<Rightarrow> addr list \<Rightarrow> addr list \<Rightarrow> bool" where
  "lists s cs rs \<longleftrightarrow> (\<exists>b. segment (conns s) None (clients s) cs b None) \<and> retired (conns s) (retired_clients s) rs \<and>
     distinct (cs @ rs) \<and> dom (conns s) = set (cs @ rs)"

lemma lists_client:
  assumes "lists s cs rs" "c \<in> set cs"
  obtains n where "conns s c = Some n" "client_ok n"
proof -
  obtain xs ys where "cs = xs @ c # ys" using assms(2) by (meson split_list)
  then show ?thesis using assms(1) that by (auto simp: lists_def segment_append)
qed

lemma retired_node: "retired m p rs \<Longrightarrow> c \<in> set rs \<Longrightarrow> \<exists>n. m c = Some n \<and> fd n < 0 \<and> conn_request n = None"
  by (induction rs arbitrary: p) auto

text \<open>A change of a node that keeps its links, its descriptor and its vector in order.\<close>

definition keeps_links :: "(conn_node \<Rightarrow> conn_node) \<Rightarrow> bool" where
  "keeps_links f \<longleftrightarrow> (\<forall>n. next_conn (f n) = next_conn n \<and> previous (f n) = previous n \<and> fd (f n) = fd n \<and>
     fd_type (f n) = fd_type n)"

lemma segment_update:
  assumes "segment m a p xs b q" "m c = Some n" "keeps_links f" "vector_ok (sending (f n))" "distinct xs"
  shows "segment (m(c \<mapsto> f n)) a p xs b q"
  using assms by (induction xs arbitrary: a p) (auto simp: keeps_links_def client_ok_def)

lemma lists_update:
  assumes "lists s cs rs" "c \<in> set cs" "conns s c = Some n" "keeps_links f" "vector_ok (sending (f n))"
  shows "lists (s\<lparr>conns := (conns s)(c \<mapsto> f n)\<rparr>) cs rs"
proof -
  have "c \<notin> set rs" using assms(1,2) by (auto simp: lists_def)
  then have "retired ((conns s)(c \<mapsto> f n)) (retired_clients s) rs"
    using assms(1) by (simp add: lists_def)
  moreover obtain b where b: "segment (conns s) None (clients s) cs b None" "distinct cs" using assms(1) by (auto simp: lists_def)
  have "segment ((conns s)(c \<mapsto> f n)) None (clients s) cs b None"
    by (rule segment_update[where m = "conns s"]) (use assms b in auto)
  ultimately show ?thesis using assms by (auto simp: lists_def insert_absorb)
qed

section \<open>Removing a connection\<close>

text \<open>Only links among the nodes of \<open>X\<close> differ.\<close>

definition only_links :: "addr set \<Rightarrow> 'h server \<Rightarrow> 'h server \<Rightarrow> bool" where
  "only_links X s s' \<longleftrightarrow> (\<forall>d. d \<notin> X \<longrightarrow> conns s' d = conns s d) \<and> dom (conns s') = dom (conns s) \<and>
     (\<forall>d. conn_req s' d = conn_req s d) \<and> requests s' = requests s \<and> contexts s' = contexts s \<and>
     retired_clients s' = retired_clients s"

lemma only_links_refl: "only_links X s s" "only_links X s (s\<lparr>clients := p\<rparr>)"
  by (simp_all add: only_links_def conn_req_def)

lemma only_links_upd:
  assumes "conns s d = Some n" "d \<in> X" "conn_request n' = conn_request n"
  shows "only_links X s (s\<lparr>conns := (conns s)(d \<mapsto> n')\<rparr>)"
  using assms by (auto simp: only_links_def conn_req_def)

lemma only_links_trans: "only_links X s s' \<Longrightarrow> only_links Y s' s'' \<Longrightarrow> only_links (X \<union> Y) s s''"
  by (simp add: only_links_def)

lemma segment_node: "segment m a p xs b q \<Longrightarrow> c \<in> set xs \<Longrightarrow> \<exists>n. m c = Some n \<and> client_ok n"
  by (induction xs arbitrary: a p) auto

lemma link_predecessor:
  assumes x: "segment (conns s) None (clients s) xs a p" and y: "segment (conns s) a' q ys b None"
    and d: "distinct (xs @ ys)"
  shows "\<exists>s'. (case a of Some u \<Rightarrow> upd_conn (\<lambda>m. m\<lparr>next_conn := q\<rparr>) u s | None \<Rightarrow> Some (s\<lparr>clients := q\<rparr>)) = Some s' \<and>
    segment (conns s') None (clients s') xs a q \<and> segment (conns s') a' q ys b None \<and> only_links (set xs) s s'"
proof (cases "xs = []")
  case True
  then show ?thesis using x y by (auto simp: only_links_refl)
next
  case False
  have a: "a = Some (last xs)" using segment_last[OF x] False by simp
  obtain n where n: "conns s (last xs) = Some n" using segment_node[OF x, of "last xs"] False by auto
  have "last xs \<in> set xs" using False by simp
  then have o: "last xs \<notin> set ys" using d by auto
  have "segment ((conns s)(last xs \<mapsto> n\<lparr>next_conn := q\<rparr>)) None (clients s) xs a q"
    by (rule segment_set_next[OF x _ False n]) (use d in simp)
  then show ?thesis
    using y o n a False by (auto simp: upd_conn_def intro!: only_links_upd)
qed

lemma link_successor:
  assumes x: "segment (conns s) None (clients s) xs a q" and y: "segment (conns s) a' q ys b None"
    and d: "distinct (xs @ ys)"
  shows "\<exists>s' b. (case q of Some v \<Rightarrow> upd_conn (\<lambda>m. m\<lparr>previous := a\<rparr>) v s | None \<Rightarrow> Some s) = Some s' \<and>
    segment (conns s') None (clients s') (xs @ ys) b None \<and> only_links (set ys) s s'"
proof (cases ys)
  case Nil
  then show ?thesis using x y by (auto simp: only_links_refl)
next
  case (Cons v vs)
  have q: "q = Some v" using y Cons by simp
  obtain n where n: "conns s v = Some n" using segment_node[OF y, of v] Cons by auto
  have o: "v \<notin> set xs" using d Cons by auto
  have "segment ((conns s)(v \<mapsto> n\<lparr>previous := a\<rparr>)) a q ys b None"
    unfolding Cons by (rule segment_set_previous) (use y d n Cons in auto)
  moreover have "segment ((conns s)(v \<mapsto> n\<lparr>previous := a\<rparr>)) None (clients s) xs a q" using x o by simp
  ultimately have "segment ((conns s)(v \<mapsto> n\<lparr>previous := a\<rparr>)) None (clients s) (xs @ ys) b None"
    by (auto simp: segment_append)
  then show ?thesis using q n Cons by (auto simp: upd_conn_def intro!: only_links_upd)
qed

lemma unlink_client_unlinks:
  assumes x: "segment (conns s) None (clients s) xs a (Some c)" and y: "segment (conns s) (Some c) q ys b None"
    and n: "conns s c = Some n" "previous n = a" "next_conn n = q" and d: "distinct (xs @ c # ys)"
  shows "\<exists>s' b. unlink_client c s = Some s' \<and> segment (conns s') None (clients s') (xs @ ys) b None \<and>
    only_links (set (xs @ ys)) s s'"
proof -
  have d': "distinct (xs @ ys)" using d by simp
  obtain s1 where s1: "(case a of Some u \<Rightarrow> upd_conn (\<lambda>m. m\<lparr>next_conn := q\<rparr>) u s | None \<Rightarrow> Some (s\<lparr>clients := q\<rparr>)) = Some s1"
    "segment (conns s1) None (clients s1) xs a q" "segment (conns s1) (Some c) q ys b None" "only_links (set xs) s s1"
    using link_predecessor[OF x y d'] by blast
  obtain s2 b' where s2: "(case q of Some v \<Rightarrow> upd_conn (\<lambda>m. m\<lparr>previous := a\<rparr>) v s1 | None \<Rightarrow> Some s1) = Some s2"
    "segment (conns s2) None (clients s2) (xs @ ys) b' None" "only_links (set ys) s1 s2"
    using link_successor[OF s1(2,3) d'] by blast
  have "unlink_client c s = Some s2"
    unfolding unlink_client_def n(1) bind.bind_lunit n(2,3) s1(1) s2(1) by (rule refl)
  then show ?thesis using s2(2) only_links_trans[OF s1(4) s2(3)] by auto
qed

lemma owned_conn:
  assumes "owned s" "conns s c = Some n" "conn_request n = Some r"
  obtains q where "requests s r = Some q" "req_conn q = Some c"
proof -
  have "conn_req s c = Some r" using assms(2,3) by (simp add: conn_req_def)
  then have "request_conn s r = Some c" using assms(1) by (simp add: owned_def)
  then show ?thesis using that by (auto simp: request_conn_def bind_eq_Some_conv)
qed

lemma owned_request:
  assumes "owned s" "requests s r = Some q" "req_conn q = Some c"
  obtains n where "conns s c = Some n" "conn_request n = Some r"
proof -
  have "request_conn s r = Some c" using assms(2,3) by (simp add: request_conn_def)
  then have "conn_req s c = Some r" using assms(1) by (simp add: owned_def)
  then show ?thesis using that by (auto simp: conn_req_def bind_eq_Some_conv)
qed

lemma owned_context:
  assumes "owned s" "contexts s x = Some k"
  obtains q where "requests s (ctx_request k) = Some q" "req_context q = Some x"
proof -
  have "context_request s x = Some (ctx_request k)" using assms(2) by (simp add: context_request_def)
  then have "request_context s (ctx_request k) = Some x" using assms(1) by (simp add: owned_def)
  then show ?thesis using that by (auto simp: request_context_def bind_eq_Some_conv)
qed

text \<open>\<open>owned\<close> from the two pointer maps, each of which loses or gains a pair.\<close>

lemma owned_intro:
  assumes "\<And>c r. conn_req s c = Some r \<longleftrightarrow> request_conn s r = Some c"
    and "\<And>x r. context_request s x = Some r \<longleftrightarrow> request_context s r = Some x"
    and "\<And>r q. requests s r = Some q \<Longrightarrow> req_conn q \<noteq> None \<or> req_context q \<noteq> None"
  shows "owned s"
  using assms by (simp add: owned_def)

lemma owned_drop_conn:
  assumes o: "owned s" and c: "conn_req s c = Some r"
    and "\<And>d. conn_req s' d = (if d = c then None else conn_req s d)"
    and "\<And>t. request_conn s' t = (if t = r then None else request_conn s t)"
    and "\<And>x. context_request s' x = context_request s x" "\<And>t. request_context s' t = request_context s t"
    and "\<And>t q. requests s' t = Some q \<Longrightarrow> req_conn q \<noteq> None \<or> req_context q \<noteq> None"
  shows "owned s'"
proof (rule owned_intro)
  fix d t
  have pair: "conn_req s d = Some t \<longleftrightarrow> request_conn s t = Some d" for d t using o by (simp add: owned_def)
  have other: "t \<noteq> r \<Longrightarrow> request_conn s t \<noteq> Some c" "d \<noteq> c \<Longrightarrow> request_conn s r \<noteq> Some d"
    using pair[of c t] pair[of c r] c by auto
  show "conn_req s' d = Some t \<longleftrightarrow> request_conn s' t = Some d"
  proof (cases "d = c")
    case True
    then show ?thesis using other(1) by (cases "t = r") (simp_all add: assms(3,4))
  next
    case False
    then show ?thesis using other(2) pair[of d t] by (cases "t = r") (simp_all add: assms(3,4))
  qed
next
  fix x t
  show "context_request s' x = Some t \<longleftrightarrow> request_context s' t = Some x"
    using o assms(5,6) by (simp add: owned_def)
qed (rule assms(7))

lemma release_request_releases:
  assumes o: "owned s" and n: "conns s c = Some n"
  shows "\<exists>s'. release_request c s = Some s' \<and> owned s' \<and>
    conns s' = (conns s)(c \<mapsto> n\<lparr>conn_request := None, header_buffer := None\<rparr>) \<and>
    contexts s' = contexts s \<and> clients s' = clients s \<and> retired_clients s' = retired_clients s"
proof (cases "conn_request n")
  case None
  let ?s = "s\<lparr>conns := (conns s)(c \<mapsto> n\<lparr>conn_request := None, header_buffer := None\<rparr>)\<rparr>"
  have "release_request c s = Some ?s" using n None by (simp add: release_request_def upd_conn_def)
  moreover have "owned ?s"
  proof (rule owned_intro)
    fix d t
    have "conn_req ?s d = conn_req s d" using n None by (simp add: conn_req_def)
    then show "conn_req ?s d = Some t \<longleftrightarrow> request_conn ?s t = Some d" using o by (simp add: owned_def request_conn_def)
  qed (use o in \<open>auto simp: owned_def context_request_def request_context_def\<close>)
  ultimately show ?thesis by simp
next
  case (Some r)
  obtain q where q: "requests s r = Some q" "req_conn q = Some c" by (rule owned_conn[OF o n Some])
  let ?m = "(requests s)(r := (if req_context q = None then None else Some (q\<lparr>req_conn := None\<rparr>)))"
  let ?s = "s\<lparr>conns := (conns s)(c \<mapsto> n\<lparr>conn_request := None, header_buffer := None\<rparr>), requests := ?m\<rparr>"
  have e: "release_request c s = Some ?s"
    using n Some q by (cases "req_context q") (simp_all add: release_request_def upd_conn_def http_request_dispose_def Let_def)
  have c: "conn_req s c = Some r" using n Some by (simp add: conn_req_def)
  have "owned ?s"
  proof (rule owned_drop_conn[OF o c])
    fix t q' assume "requests ?s t = Some q'"
    then show "req_conn q' \<noteq> None \<or> req_context q' \<noteq> None"
      using o q by (auto simp: owned_def split: if_splits)
  qed (use n q in \<open>simp_all add: conn_req_def request_conn_def context_request_def request_context_def\<close>)
  then show ?thesis using e by simp
qed

lemma lists_split:
  assumes "lists s cs rs" "c \<in> set cs"
  obtains xs ys a q b n where "cs = xs @ c # ys" "conns s c = Some n" "client_ok n" "previous n = a" "next_conn n = q"
    "segment (conns s) None (clients s) xs a (Some c)" "segment (conns s) (Some c) q ys b None"
proof -
  obtain xs ys where cs: "cs = xs @ c # ys" using assms(2) by (meson split_list)
  then show ?thesis using assms(1) that by (auto simp: lists_def segment_append)
qed

lemma remove_client:
  assumes l: "lists s cs rs" and o: "owned s" and c: "c \<in> set cs"
  shows "\<exists>s'. remove_connection c s = Some s' \<and> lists s' (remove1 c cs) (c # rs) \<and> owned s' \<and>
    contexts s' = contexts s"
proof -
  obtain xs ys a q b n where cs: "cs = xs @ c # ys" and n: "conns s c = Some n" "client_ok n" "previous n = a" "next_conn n = q"
    and x: "segment (conns s) None (clients s) xs a (Some c)" and y: "segment (conns s) (Some c) q ys b None"
    by (rule lists_split[OF l c])
  have dist: "distinct (xs @ c # ys)" "distinct rs" "set cs \<inter> set rs = {}" using l cs by (auto simp: lists_def)
  let ?n = "n\<lparr>fd := -1\<rparr>"
  let ?s = "s\<lparr>conns := (conns s)(c \<mapsto> ?n)\<rparr>"
  have x1: "segment (conns ?s) None (clients ?s) xs a (Some c)" and y1: "segment (conns ?s) (Some c) q ys b None"
    using x y dist(1) by simp_all
  obtain s2 b' where s2: "unlink_client c ?s = Some s2" "segment (conns s2) None (clients s2) (xs @ ys) b' None"
    "only_links (set (xs @ ys)) ?s s2"
    using unlink_client_unlinks[OF x1 y1 _ _ _ dist(1), of ?n] n by auto
  have c2: "conns s2 c = Some ?n" using s2(3) dist(1) by (auto simp: only_links_def)
  have o2: "owned s2"
  proof (rule owned_intro)
    fix d t
    have "conn_req s2 d = conn_req s d" using s2(3) n(1) by (auto simp: only_links_def conn_req_def)
    then show "conn_req s2 d = Some t \<longleftrightarrow> request_conn s2 t = Some d"
      using o s2(3) by (simp add: owned_def request_conn_def only_links_def)
  qed (use o s2(3) in \<open>auto simp: owned_def context_request_def request_context_def only_links_def\<close>)
  obtain s3 where s3: "release_request c s2 = Some s3" "owned s3"
    "conns s3 = (conns s2)(c \<mapsto> ?n\<lparr>conn_request := None, header_buffer := None\<rparr>)"
    "contexts s3 = contexts s2" "clients s3 = clients s2" "retired_clients s3 = retired_clients s2"
    using release_request_releases[OF o2 c2] by blast
  let ?n3 = "?n\<lparr>conn_request := None, header_buffer := None, retired_next := retired_clients s3\<rparr>"
  let ?s4 = "s3\<lparr>conns := (conns s3)(c \<mapsto> ?n3), retired_clients := Some c\<rparr>"
  have e: "remove_connection c s = Some ?s4"
    using n s2(1) s3(1,3) by (simp add: remove_connection_def upd_conn_def client_ok_def)
  have r: "retired_clients s3 = retired_clients s" using s3(6) s2(3) by (simp add: only_links_def)
  have same: "\<And>d. d \<in> set rs \<Longrightarrow> conns s2 d = conns s d"
    using s2(3) dist(3) cs by (auto simp: only_links_def)
  have "retired (conns s) (retired_clients s) rs" using l by (simp add: lists_def)
  then have "retired (conns s2) (retired_clients s) rs" using retired_frame[OF same] by simp
  then have ret: "retired (conns ?s4) (Some c) (c # rs)"
    using dist(3) cs r s3(3) by simp
  have "dom (conns ?s4) = set (remove1 c cs @ c # rs)"
    using l s2(3) s3(3) dist(1) cs n(1) by (auto simp: lists_def only_links_def remove1_append)
  moreover have rm: "remove1 c cs = xs @ ys" using cs dist(1) by (simp add: remove1_append)
  moreover have "segment (conns ?s4) None (clients ?s4) (xs @ ys) b' None"
    using s2(2) s3(3,5) dist(1) by simp
  ultimately have "lists ?s4 (remove1 c cs) (c # rs)"
    unfolding lists_def using ret dist cs by auto
  moreover have "owned ?s4"
  proof (rule owned_intro)
    fix d t
    have "conn_req ?s4 d = conn_req s3 d" using s3(3) by (simp add: conn_req_def)
    then show "conn_req ?s4 d = Some t \<longleftrightarrow> request_conn ?s4 t = Some d" using s3(2) by (simp add: owned_def request_conn_def)
  qed (use s3(2) in \<open>auto simp: owned_def context_request_def request_context_def\<close>)
  ultimately show ?thesis using e s3(4) s2(3) by (auto simp: only_links_def)
qed

section \<open>Every operation keeps the objects in order\<close>

definition ok :: "'h server \<Rightarrow> bool" where
  "ok s \<longleftrightarrow> (\<exists>cs rs. lists s cs rs) \<and> owned s"

lemma ok_intro: "lists s cs rs \<Longrightarrow> owned s \<Longrightarrow> ok s"
  unfolding ok_def by blast

definition response_ok :: "http_response \<Rightarrow> bool" where
  "response_ok response \<longleftrightarrow>
     body_len response = 0 \<or> (\<exists>b. resp_body response = Some b \<and> body_len response \<le> length b)"

text \<open>Connections stay allocated, and contexts and requests with a context are not touched.\<close>

definition keeps :: "'h server \<Rightarrow> 'h server \<Rightarrow> bool" where
  "keeps s s' \<longleftrightarrow> dom (conns s') = dom (conns s) \<and> contexts s' = contexts s"

lemma keeps_refl [simp]: "keeps s s" by (simp add: keeps_def)

lemma keeps_trans: "keeps s s' \<Longrightarrow> keeps s' s'' \<Longrightarrow> keeps s s''" by (simp add: keeps_def)

lemma remove_ok:
  assumes "ok s" "c \<in> dom (conns s)"
  shows "\<exists>s'. remove_connection c s = Some s' \<and> ok s' \<and> keeps s s'"
proof -
  obtain cs rs where l: "lists s cs rs" and o: "owned s" using assms(1) by (auto simp: ok_def)
  then have "c \<in> set cs \<or> c \<in> set rs" using assms(2) by (simp add: lists_def)
  then show ?thesis
  proof
    assume c: "c \<in> set cs"
    obtain s' where s': "remove_connection c s = Some s'" "lists s' (remove1 c cs) (c # rs)" "owned s'" "contexts s' = contexts s"
      using remove_client[OF l o c] by blast
    have "dom (conns s') = dom (conns s)"
      using l s'(2) c by (auto simp: lists_def set_remove1_eq)
    then show ?thesis using s' by (auto simp: ok_def keeps_def)
  next
    assume "c \<in> set rs"
    then obtain n where "conns s c = Some n" "fd n < 0" using l retired_node[of "conns s" "retired_clients s" rs c] by (auto simp: lists_def)
    then have "remove_connection c s = Some s" by (simp add: remove_connection_def)
    then show ?thesis using assms(1) by simp
  qed
qed

lemma owned_upd_conn:
  assumes "owned s" "conns s c = Some n" "conn_request n' = conn_request n"
  shows "owned (s\<lparr>conns := (conns s)(c \<mapsto> n')\<rparr>)"
proof (rule owned_intro)
  fix d t
  have "conn_req (s\<lparr>conns := (conns s)(c \<mapsto> n')\<rparr>) d = conn_req s d" using assms(2,3) by (simp add: conn_req_def)
  then show "conn_req (s\<lparr>conns := (conns s)(c \<mapsto> n')\<rparr>) d = Some t \<longleftrightarrow> request_conn (s\<lparr>conns := (conns s)(c \<mapsto> n')\<rparr>) t = Some d"
    using assms(1) by (simp add: owned_def request_conn_def)
qed (use assms(1) in \<open>auto simp: owned_def context_request_def request_context_def\<close>)

lemma ok_client_cases:
  assumes "ok s" "conns s c = Some n" "0 \<le> fd n \<or> conn_request n \<noteq> None"
  obtains cs rs where "lists s cs rs" "owned s" "c \<in> set cs" "client_ok n"
proof -
  obtain cs rs where l: "lists s cs rs" and o: "owned s" using assms(1) by (auto simp: ok_def)
  have "c \<notin> set rs" using l assms(2,3) retired_node[of "conns s" "retired_clients s" rs c] by (auto simp: lists_def)
  then have c: "c \<in> set cs" using l assms(2) by (auto simp: lists_def)
  have "client_ok n" using lists_client[OF l c] assms(2) by auto
  then show ?thesis using that[OF l o c] by blast
qed

lemma update_client_ok:
  assumes "ok s" "conns s c = Some n" "0 \<le> fd n \<or> conn_request n \<noteq> None"
    and "keeps_links f" "vector_ok (sending (f n))" "conn_request (f n) = conn_request n"
  shows "ok (s\<lparr>conns := (conns s)(c \<mapsto> f n)\<rparr>)" "keeps s (s\<lparr>conns := (conns s)(c \<mapsto> f n)\<rparr>)"
proof -
  obtain cs rs where l: "lists s cs rs" "owned s" "c \<in> set cs" "client_ok n"
    by (rule ok_client_cases[OF assms(1-3)])
  have "lists (s\<lparr>conns := (conns s)(c \<mapsto> f n)\<rparr>) cs rs" by (rule lists_update[OF l(1,3) assms(2,4,5)])
  moreover have "owned (s\<lparr>conns := (conns s)(c \<mapsto> f n)\<rparr>)" by (rule owned_upd_conn[OF l(2) assms(2,6)])
  ultimately show "ok (s\<lparr>conns := (conns s)(c \<mapsto> f n)\<rparr>)" by (auto simp: ok_def)
  show "keeps s (s\<lparr>conns := (conns s)(c \<mapsto> f n)\<rparr>)" using assms(2) by (auto simp: keeps_def)
qed

lemma send_bytes_ok:
  assumes "ok s" "conns s c = Some n" "0 \<le> fd n"
  shows "\<exists>r s'. send_response_bytes ws c s = Some (r, s') \<and> ok s' \<and> keeps s s'"
proof -
  obtain cs rs where "client_ok n" by (rule ok_client_cases[OF assms(1,2) disjI1[OF assms(3)]])
  then have "vector_ok (sending n)" by (simp add: client_ok_def)
  then obtain r sent st where st: "connection_send_buffer ws (sending n) = Some (r, sent, st)" "vector_ok st"
    using send_buffer_sends by blast
  let ?s = "s\<lparr>conns := (conns s)(c \<mapsto> n\<lparr>sending := st\<rparr>)\<rparr>"
  have "ok ?s" "keeps s ?s"
    using update_client_ok[where f = "\<lambda>m. m\<lparr>sending := st\<rparr>", OF assms(1,2) disjI1[OF assms(3)]] st(2)
    by (simp_all add: keeps_links_def)
  moreover have "send_response_bytes ws c s = Some (r, ?s)"
    by (simp add: send_response_bytes_def assms(2) st(1) upd_conn_def)
  ultimately show ?thesis by blast
qed

lemma send_start_ok:
  assumes "response_ok response"
  shows "send_start alloc response = Some None \<or> (\<exists>st. send_start alloc response = Some (Some st) \<and> vector_ok st)"
proof (cases alloc)
  case True
  then show ?thesis using send_start_offers assms by (auto simp: response_ok_def)
next
  case False
  then show ?thesis by (simp add: send_start_def http_response_build_header_def Let_def)
qed

lemma start_send_ok:
  assumes "ok s" "conns s c = Some n" "0 \<le> fd n" "response_ok response"
  shows "\<exists>s'. start_send_http_response env c response s = Some s' \<and> ok s' \<and> keeps s s'"
proof (cases "send_start (header_mem env) response = Some None")
  case True
  then show ?thesis using remove_ok[OF assms(1)] assms(2) by (auto simp: start_send_http_response_def)
next
  case False
  then obtain st where st: "send_start (header_mem env) response = Some (Some st)" "vector_ok st"
    using send_start_ok[OF assms(4)] by blast
  let ?f = "\<lambda>m. m\<lparr>header_buffer := Some (iov st ! 0), sending := st\<rparr>"
  let ?s = "s\<lparr>conns := (conns s)(c \<mapsto> ?f n)\<rparr>"
  have o1: "ok ?s" "keeps s ?s"
    using update_client_ok[where f = ?f, OF assms(1,2) disjI1[OF assms(3)]] st(2) by (simp_all add: keeps_links_def)
  obtain r s2 where s2: "send_response_bytes (writes env) c ?s = Some (r, s2)" "ok s2" "keeps ?s s2"
    using send_bytes_ok[OF o1(1), of c "?f n" "writes env"] assms(3) by auto
  have k: "keeps s s2" by (rule keeps_trans[OF o1(2) s2(3)])
  then have "c \<in> dom (conns s2)" using assms(2) by (auto simp: keeps_def)
  then obtain s3 where s3: "remove_connection c s2 = Some s3" "ok s3" "keeps s2 s3" using remove_ok[OF s2(2)] by blast
  have "start_send_http_response env c response s = (if r = 0 \<and> epoll_ok env then Some s2 else Some s3)"
    by (simp add: start_send_http_response_def st(1) upd_conn_def assms(2) s2(1) s3(1))
  then show ?thesis using s2(2) s3(2) k keeps_trans[OF k s3(3)] by auto
qed

lemma lists_same:
  assumes "lists s cs rs" "conns s' = conns s" "clients s' = clients s" "retired_clients s' = retired_clients s"
  shows "lists s' cs rs"
  using assms by (simp add: lists_def)

lemma context_dispose_ok:
  assumes "ok s" "contexts s x = Some k"
  shows "\<exists>s'. http_request_context_dispose x s = Some s' \<and> ok s' \<and> conns s' = conns s \<and>
    contexts s' = (contexts s)(x := None)"
proof -
  have o: "owned s" using assms(1) by (simp add: ok_def)
  let ?r = "ctx_request k"
  obtain q where q: "requests s ?r = Some q" "req_context q = Some x" by (rule owned_context[OF o assms(2)])
  let ?m = "(requests s)(?r := (if req_conn q = None then None else Some (q\<lparr>req_context := None\<rparr>)))"
  let ?s = "s\<lparr>requests := ?m, contexts := (contexts s)(x := None)\<rparr>"
  have e: "http_request_context_dispose x s = Some ?s"
    using assms(2) q by (cases "req_conn q") (simp_all add: http_request_context_dispose_def http_request_dispose_def Let_def)
  have "owned ?s"
  proof (rule owned_intro)
    fix d t
    have "request_conn ?s t = request_conn s t" using q by (simp add: request_conn_def)
    then show "conn_req ?s d = Some t \<longleftrightarrow> request_conn ?s t = Some d"
      using o by (simp add: owned_def conn_req_def)
  next
    fix y t
    have pair: "context_request s y = Some t \<longleftrightarrow> request_context s t = Some y" for y t
      using o by (simp add: owned_def)
    have xr: "context_request s x = Some ?r" using assms(2) by (simp add: context_request_def)
    have other: "t \<noteq> ?r \<Longrightarrow> request_context s t \<noteq> Some x" "y \<noteq> x \<Longrightarrow> request_context s ?r \<noteq> Some y"
      using pair[of x t] pair[of x ?r] xr by auto
    have c: "context_request ?s y = (if y = x then None else context_request s y)" by (simp add: context_request_def)
    have r: "request_context ?s t = (if t = ?r then None else request_context s t)" by (simp add: request_context_def)
    show "context_request ?s y = Some t \<longleftrightarrow> request_context ?s t = Some y"
    proof (cases "y = x")
      case True
      then show ?thesis using other(1) unfolding c r by (cases "t = ?r") simp_all
    next
      case False
      then show ?thesis using other(2) pair[of y t] unfolding c r by (cases "t = ?r") simp_all
    qed
  next
    fix t q' assume "requests ?s t = Some q'"
    then show "req_conn q' \<noteq> None \<or> req_context q' \<noteq> None"
      using o q by (auto simp: owned_def split: if_splits)
  qed
  moreover obtain cs rs where "lists s cs rs" using assms(1) by (auto simp: ok_def)
  then have "lists ?s cs rs" by (rule lists_same) simp_all
  ultimately have "ok ?s" using ok_intro by blast
  then show ?thesis using e by simp
qed

text \<open>A new request for a client, and a new context for a request without one.\<close>

lemma attach_request_ok:
  assumes "ok s" "conns s c = Some n" "0 \<le> fd n" "conn_request n = None" "requests s r = None"
    and "req_conn q = Some c" "req_context q = None"
  shows "ok (s\<lparr>conns := (conns s)(c \<mapsto> n\<lparr>conn_request := Some r\<rparr>), requests := (requests s)(r \<mapsto> q)\<rparr>)"
proof -
  let ?f = "\<lambda>m. m\<lparr>conn_request := Some r\<rparr>"
  let ?s = "s\<lparr>conns := (conns s)(c \<mapsto> ?f n), requests := (requests s)(r \<mapsto> q)\<rparr>"
  obtain cs rs where l: "lists s cs rs" and o: "owned s" and c: "c \<in> set cs" and k: "client_ok n"
    by (rule ok_client_cases[OF assms(1,2) disjI1[OF assms(3)]])
  have "lists (s\<lparr>conns := (conns s)(c \<mapsto> ?f n)\<rparr>) cs rs"
    by (rule lists_update[where f = ?f, OF l c assms(2)]) (use k in \<open>simp_all add: keeps_links_def client_ok_def\<close>)
  then have "lists ?s cs rs" by (rule lists_same) simp_all
  moreover have "owned ?s"
  proof (rule owned_intro)
    fix d t
    have pair: "conn_req s d = Some t \<longleftrightarrow> request_conn s t = Some d" for d t using o by (simp add: owned_def)
    have none: "conn_req s c = None" "request_conn s r = None"
      using assms(2,4,5) by (simp_all add: conn_req_def request_conn_def)
    then have other: "request_conn s t \<noteq> Some c" "conn_req s d \<noteq> Some r" for d t
      using pair[of c t] pair[of d r] by auto
    have e: "conn_req ?s d = (if d = c then Some r else conn_req s d)"
      "request_conn ?s t = (if t = r then Some c else request_conn s t)"
      using assms(6) by (simp_all add: conn_req_def request_conn_def)
    show "conn_req ?s d = Some t \<longleftrightarrow> request_conn ?s t = Some d"
      unfolding e using other pair[of d t] by (cases "d = c"; cases "t = r") simp_all
  next
    fix x t
    have pair: "context_request s x = Some t \<longleftrightarrow> request_context s t = Some x" using o by (simp add: owned_def)
    have "request_context ?s t = request_context s t" using assms(5,7) by (simp add: request_context_def)
    then show "context_request ?s x = Some t \<longleftrightarrow> request_context ?s t = Some x"
      using pair by (simp add: context_request_def)
  next
    fix t q' assume "requests ?s t = Some q'"
    then show "req_conn q' \<noteq> None \<or> req_context q' \<noteq> None"
      using o assms(6) by (auto simp: owned_def split: if_splits)
  qed
  ultimately show ?thesis by (rule ok_intro)
qed

lemma attach_context_ok:
  assumes "ok s" "requests s r = Some q" "req_context q = None" "contexts s x = None" "ctx_request k = r"
  shows "ok (s\<lparr>requests := (requests s)(r \<mapsto> q\<lparr>req_context := Some x\<rparr>), contexts := (contexts s)(x \<mapsto> k)\<rparr>)"
proof -
  let ?s = "s\<lparr>requests := (requests s)(r \<mapsto> q\<lparr>req_context := Some x\<rparr>), contexts := (contexts s)(x \<mapsto> k)\<rparr>"
  obtain cs rs where l: "lists s cs rs" and o: "owned s" using assms(1) by (auto simp: ok_def)
  have "lists ?s cs rs" by (rule lists_same[OF l]) simp_all
  moreover have "owned ?s"
  proof (rule owned_intro)
    fix d t
    have "request_conn ?s t = request_conn s t" using assms(2) by (simp add: request_conn_def)
    then show "conn_req ?s d = Some t \<longleftrightarrow> request_conn ?s t = Some d" using o by (simp add: owned_def conn_req_def)
  next
    fix y t
    have pair: "context_request s y = Some t \<longleftrightarrow> request_context s t = Some y" for y t using o by (simp add: owned_def)
    have none: "context_request s x = None" "request_context s r = None"
      using assms(2-4) by (simp_all add: context_request_def request_context_def)
    then have other: "request_context s t \<noteq> Some x" "context_request s y \<noteq> Some r" for y t
      using pair[of x t] pair[of y r] by auto
    have e: "context_request ?s y = (if y = x then Some r else context_request s y)"
      "request_context ?s t = (if t = r then Some x else request_context s t)"
      using assms(5) by (simp_all add: context_request_def request_context_def)
    show "context_request ?s y = Some t \<longleftrightarrow> request_context ?s t = Some y"
      unfolding e using other pair[of y t] by (cases "y = x"; cases "t = r") simp_all
  next
    fix t q' assume "requests ?s t = Some q'"
    then show "req_conn q' \<noteq> None \<or> req_context q' \<noteq> None"
      using o by (auto simp: owned_def split: if_splits)
  qed
  ultimately show ?thesis by (rule ok_intro)
qed

lemma update_context_ok:
  assumes "ok s" "contexts s x = Some k" "ctx_request k' = ctx_request k"
  shows "ok (s\<lparr>contexts := (contexts s)(x \<mapsto> k')\<rparr>)"
proof -
  let ?s = "s\<lparr>contexts := (contexts s)(x \<mapsto> k')\<rparr>"
  obtain cs rs where l: "lists s cs rs" and o: "owned s" using assms(1) by (auto simp: ok_def)
  have "lists ?s cs rs" by (rule lists_same[OF l]) simp_all
  moreover have "owned ?s"
  proof (rule owned_intro)
    fix y t
    have "context_request ?s y = context_request s y" using assms(2,3) by (simp add: context_request_def)
    then show "context_request ?s y = Some t \<longleftrightarrow> request_context ?s t = Some y"
      using o by (simp add: owned_def request_context_def)
  qed (use o in \<open>auto simp: owned_def conn_req_def request_conn_def\<close>)
  ultimately show ?thesis by (rule ok_intro)
qed

definition run_ok :: "('h \<Rightarrow> 'h outcome) \<Rightarrow> bool" where
  "run_ok run \<longleftrightarrow> (\<forall>h response. run h = Complete response \<longrightarrow> response_ok response)"

lemma response_text_ok: "n \<le> length t \<Longrightarrow> response_ok (response_text s t n)"
  by (auto simp: response_ok_def response_text_def)

lemma handle_request_ok:
  assumes "ok s" "requests s r = Some q" "req_context q = None" "run_ok run" "\<And>x. mem = Some x \<Longrightarrow> contexts s x = None"
  shows "\<exists>response s'. http_server_handle_request routes run mem r s = Some (response, s') \<and> ok s' \<and>
    conns s' = conns s \<and> (\<forall>res. response = Some res \<longrightarrow> response_ok res)"
proof (cases "find_route routes (req_method q) (req_uri q)")
  case None
  then show ?thesis using assms(1,2) by (simp add: http_server_handle_request_def not_found_def response_text_ok)
next
  case (Some h)
  show ?thesis
  proof (cases mem)
    case None
    then show ?thesis using assms(1,2) Some by (simp add: http_server_handle_request_def response_text_ok)
  next
    case (Some x)
    have x: "contexts s x = None" using assms(5) Some by simp
    let ?s = "\<lambda>h. s\<lparr>requests := (requests s)(r \<mapsto> q\<lparr>req_context := Some x\<rparr>),
      contexts := (contexts s)(x \<mapsto> \<lparr>ctx_request = r, current_handler = h\<rparr>)\<rparr>"
    have o1: "ok (?s h)" for h by (rule attach_context_ok[OF assms(1-3) x]) simp
    show ?thesis
    proof (cases "run h")
      case (Complete response)
      obtain s' where s': "http_request_context_dispose x (?s h) = Some s'" "ok s'" "conns s' = conns s"
        using context_dispose_ok[OF o1, of h x] by auto
      have "http_server_handle_request routes run mem r s = Some (Some response, s')"
        using assms(2) \<open>find_route _ _ _ = Some h\<close> Some Complete s'(1) by (simp add: http_server_handle_request_def Let_def)
      then show ?thesis using s'(2,3) assms(4) Complete by (auto simp: run_ok_def)
    next
      case (Pending h')
      then have "http_server_handle_request routes run mem r s = Some (None, ?s h')"
        using assms(2) \<open>find_route _ _ _ = Some h\<close> Some by (simp add: http_server_handle_request_def Let_def)
      then show ?thesis using o1[of h'] by auto
    qed
  qed
qed

definition env_ok :: "'h server \<Rightarrow> 'h client_env \<Rightarrow> bool" where
  "env_ok s env \<longleftrightarrow> (\<forall>r. req_mem env = Some r \<longrightarrow> requests s r = None) \<and> (\<forall>x. ctx_mem env = Some x \<longrightarrow> contexts s x = None) \<and>
     run_ok (run_handler env) \<and> (\<forall>response. parse_error env = Some response \<longrightarrow> response_ok response)"

lemma client_handler_ok:
  assumes "ok s" "conns s c = Some n" "0 \<le> fd n" "env_ok s env"
  shows "\<exists>s'. client_handler routes env c s = Some s' \<and> ok s' \<and> dom (conns s') = dom (conns s)"
proof (cases "conn_request n \<noteq> None \<or> req_mem env = None")
  case True
  obtain s' where s': "remove_connection c s = Some s'" "ok s'" "keeps s s'"
    using remove_ok[OF assms(1)] assms(2) by blast
  have "client_handler routes env c s = Some s' \<or> client_handler routes env c s = Some s"
    using True assms(2) s'(1) by (auto simp: client_handler_def)
  then show ?thesis using s' assms(1) by (auto simp: keeps_def)
next
  case False
  then obtain r where r: "req_mem env = Some r" "conn_request n = None" by auto
  let ?q = "\<lparr>req_conn = Some c, req_context = None, req_method = parsed_method env, req_uri = parsed_uri env\<rparr>"
  let ?s = "s\<lparr>conns := (conns s)(c \<mapsto> n\<lparr>conn_request := Some r\<rparr>), requests := (requests s)(r \<mapsto> ?q)\<rparr>"
  have o1: "ok ?s"
    by (rule attach_request_ok[OF assms(1-3) r(2)]) (use assms(4) r(1) in \<open>simp_all add: env_ok_def\<close>)
  have d: "dom (conns ?s) = dom (conns s)" using assms(2) by auto
  show ?thesis
  proof (cases "parse_error env")
    case (Some response)
    then obtain s' where "start_send_http_response (client_send env) c response ?s = Some s'" "ok s'" "keeps ?s s'"
      using start_send_ok[OF o1, of c "n\<lparr>conn_request := Some r\<rparr>" response "client_send env"] assms(3,4)
      by (auto simp: env_ok_def)
    then show ?thesis using r assms(2) Some d by (auto simp: client_handler_def upd_conn_def keeps_def Let_def)
  next
    case None
    obtain response s2 where h: "http_server_handle_request routes (run_handler env) (ctx_mem env) r ?s = Some (response, s2)"
      "ok s2" "conns s2 = conns ?s" "\<forall>res. response = Some res \<longrightarrow> response_ok res"
      using handle_request_ok[OF o1, of r ?q "run_handler env" "ctx_mem env" routes] assms(4) by (auto simp: env_ok_def)
    show ?thesis
    proof (cases response)
      case None2: None
      then show ?thesis using h r assms(2) None d
        by (simp add: client_handler_def upd_conn_def Let_def)
    next
      case (Some res)
      obtain s' where "start_send_http_response (client_send env) c res s2 = Some s'" "ok s'" "keeps s2 s'"
        using start_send_ok[OF h(2), of c "n\<lparr>conn_request := Some r\<rparr>" res "client_send env"] h(3,4) assms(3) Some by auto
      then show ?thesis using h r assms(2) None Some d
        by (auto simp: client_handler_def upd_conn_def keeps_def Let_def)
    qed
  qed
qed

lemma client_ready_ok:
  assumes "ok s" "c \<in> dom (conns s)" "env_ok s env"
  shows "\<exists>s'. client_ready routes ev env c s = Some s' \<and> ok s' \<and> dom (conns s') = dom (conns s)"
proof -
  obtain n where n: "conns s c = Some n" using assms(2) by auto
  show ?thesis
  proof (cases "fd n < 0")
    case True
    then show ?thesis using assms(1) n by (simp add: client_ready_def)
  next
    case False
    then have fd: "0 \<le> fd n" by simp
    show ?thesis
    proof (cases ev)
      case Event_error
      then show ?thesis using remove_ok[OF assms(1,2)] n False by (auto simp: client_ready_def keeps_def)
    next
      case Event_out
      obtain r s2 where s2: "send_response_bytes (writes (client_send env)) c s = Some (r, s2)" "ok s2" "keeps s s2"
        using send_bytes_ok[OF assms(1) n fd] by blast
      then obtain s3 where "remove_connection c s2 = Some s3" "ok s3" "keeps s2 s3"
        using remove_ok[OF s2(2), of c] assms(2) by (auto simp: keeps_def)
      then show ?thesis using s2 n False Event_out by (auto simp: client_ready_def keeps_def)
    next
      case Event_in
      then show ?thesis using client_handler_ok[OF assms(1) n fd assms(3)] n False by (auto simp: client_ready_def)
    qed
  qed
qed

lemma accept_client_ok:
  assumes "ok s" "conns s c = None" "0 \<le> client_fd"
  shows "\<exists>s'. accept_client c client_fd s = Some s' \<and> ok s' \<and> dom (conns s') = insert c (dom (conns s)) \<and>
    contexts s' = contexts s"
proof -
  obtain cs rs b where l: "lists s cs rs" and o: "owned s" and g: "segment (conns s) None (clients s) cs b None"
    using assms(1) by (auto simp: ok_def lists_def)
  have c: "c \<notin> set cs" "c \<notin> set rs" "distinct cs" "set cs \<inter> set rs = {}" using l assms(2) by (auto simp: lists_def)
  let ?n = "\<lparr>fd = client_fd, fd_type = FD_TYPE_CLIENT, next_conn = clients s, previous = None, retired_next = None,
              conn_request = None, header_buffer = None, sending = zero_send\<rparr>"
  have nok: "client_ok ?n" using assms(3) by (simp add: client_ok_def vector_ok_def zero_send_def)
  have "\<exists>s' b'. accept_client c client_fd s = Some s' \<and> segment (conns s') None (clients s') (c # cs) b' None \<and>
    (\<forall>d. d \<noteq> c \<and> d \<notin> set cs \<longrightarrow> conns s' d = conns s d) \<and> dom (conns s') = insert c (dom (conns s)) \<and>
    (\<forall>d. conn_req s' d = conn_req s d) \<and> requests s' = requests s \<and> contexts s' = contexts s \<and>
    retired_clients s' = retired_clients s"
  proof (cases cs)
    case Nil
    then have "clients s = None" using g by simp
    then have "accept_client c client_fd s = Some (s\<lparr>conns := (conns s)(c \<mapsto> ?n), clients := Some c\<rparr>)"
      by (simp add: accept_client_def)
    then show ?thesis using nok Nil g assms(2) by (auto simp: conn_req_def)
  next
    case (Cons h hs)
    obtain m where m: "conns s h = Some m" "clients s = Some h" using g Cons by auto
    have hc: "h \<noteq> c" using c Cons by auto
    let ?m = "(conns s)(c \<mapsto> ?n, h \<mapsto> m\<lparr>previous := Some c\<rparr>)"
    have e: "accept_client c client_fd s = Some (s\<lparr>conns := ?m, clients := Some c\<rparr>)"
      using m hc by (simp add: accept_client_def upd_conn_def)
    have "segment ((conns s)(h \<mapsto> m\<lparr>previous := Some c\<rparr>)) (Some c) (clients s) cs b None"
      unfolding Cons by (rule segment_set_previous) (use g c(3) m Cons in auto)
    then have "segment (((conns s)(h \<mapsto> m\<lparr>previous := Some c\<rparr>))(c \<mapsto> ?n)) (Some c) (clients s) cs b None"
      using c(1) by simp
    then have "segment ?m (Some c) (clients s) cs b None" by (simp only: fun_upd_twist[OF hc])
    then have "segment ?m None (Some c) (c # cs) b None" using nok hc by simp
    then show ?thesis using e m(1) assms(2) hc Cons by (auto simp: conn_req_def)
  qed
  then obtain s' b' where s': "accept_client c client_fd s = Some s'" "segment (conns s') None (clients s') (c # cs) b' None"
    "\<And>d. d \<noteq> c \<and> d \<notin> set cs \<Longrightarrow> conns s' d = conns s d" "dom (conns s') = insert c (dom (conns s))"
    "\<And>d. conn_req s' d = conn_req s d" "requests s' = requests s" "contexts s' = contexts s"
    "retired_clients s' = retired_clients s" by blast
  have same: "conns s' d = conns s d" if d: "d \<in> set rs" for d
    by (rule s'(3)) (use d c in auto)
  have "retired (conns s) (retired_clients s) rs" using l by (simp add: lists_def)
  then have "retired (conns s') (retired_clients s') rs" using retired_frame[OF same] s'(8) by simp
  moreover have "dom (conns s') = set ((c # cs) @ rs)" using s'(4) l by (simp add: lists_def)
  ultimately have "lists s' (c # cs) rs" unfolding lists_def using s'(2) c l by (auto simp: lists_def)
  moreover have "owned s'"
    using o s'(5-7) by (simp add: owned_def request_conn_def context_request_def request_context_def)
  ultimately have "ok s'" by (rule ok_intro)
  then show ?thesis using s'(1,4,7) by blast
qed

lemma task_completed_ok:
  assumes "ok s" "contexts s x = Some k" "run_ok run"
  shows "\<exists>s'. task_completed run env x s = Some s' \<and> ok s' \<and> dom (conns s') = dom (conns s) \<and>
    (contexts s' = (contexts s)(x := None) \<or> (\<exists>k'. contexts s' = (contexts s)(x \<mapsto> k') \<and> (\<exists>c. request_conn s (ctx_request k) = Some c)))"
proof -
  have o: "owned s" using assms(1) by (simp add: ok_def)
  obtain q where q: "requests s (ctx_request k) = Some q" "req_context q = Some x" by (rule owned_context[OF o assms(2)])
  show ?thesis
  proof (cases "req_conn q")
    case None
    then show ?thesis using context_dispose_ok[OF assms(1,2)] assms(2) q by (auto simp: task_completed_def)
  next
    case (Some c)
    obtain n where n: "conns s c = Some n" "conn_request n = Some (ctx_request k)" by (rule owned_request[OF o q(1) Some])
    then have n': "0 \<le> fd n \<or> conn_request n \<noteq> None" by simp
    obtain cs rs where "client_ok n" by (rule ok_client_cases[OF assms(1) n(1) n'])
    then have fd: "0 \<le> fd n" by (simp add: client_ok_def)
    show ?thesis
    proof (cases "run (current_handler k)")
      case (Complete response)
      then have "response_ok response" using assms(3) unfolding run_ok_def by blast
      then obtain s2 where s2: "start_send_http_response env c response s = Some s2" "ok s2" "keeps s s2"
        using start_send_ok[OF assms(1) n(1) fd] by blast
      then have "contexts s2 x = Some k" using assms(2) by (simp add: keeps_def)
      then obtain s3 where "http_request_context_dispose x s2 = Some s3" "ok s3" "conns s3 = conns s2"
        "contexts s3 = (contexts s2)(x := None)"
        using context_dispose_ok[OF s2(2)] by blast
      then show ?thesis using s2 assms(2) q(1) Some Complete by (auto simp: task_completed_def keeps_def)
    next
      case (Pending h)
      have "ok (s\<lparr>contexts := (contexts s)(x \<mapsto> k\<lparr>current_handler := h\<rparr>)\<rparr>)"
        by (rule update_context_ok[OF assms(1,2)]) simp
      then show ?thesis using assms(2) q(1) Some Pending by (auto simp: task_completed_def request_conn_def)
    qed
  qed
qed

lemma reap_connections_reaps:
  assumes "lists s cs rs" "owned s"
  shows "\<exists>s'. reap_connections s = Some s' \<and> lists s' cs [] \<and> owned s' \<and> contexts s' = contexts s \<and> requests s' = requests s"
  using assms
proof (induction rs arbitrary: s)
  case Nil
  then have "retired_clients s = None" by (simp add: lists_def)
  then have "reap_connections s = Some s" by (subst reap_connections.simps) simp
  then show ?case using Nil by auto
next
  case (Cons c rs)
  obtain n where n: "retired_clients s = Some c" "conns s c = Some n" "conn_request n = None"
    "retired (conns s) (retired_next n) rs" using Cons.prems(1) by (auto simp: lists_def)
  obtain b where b: "segment (conns s) None (clients s) cs b None" "distinct (cs @ c # rs)"
    using Cons.prems(1) by (auto simp: lists_def)
  let ?s = "s\<lparr>retired_clients := retired_next n, conns := (conns s)(c := None)\<rparr>"
  have "segment (conns ?s) None (clients ?s) cs b None" "retired (conns ?s) (retired_clients ?s) rs"
    using n(4) b by simp_all
  moreover have "dom (conns ?s) = set (cs @ rs)" "distinct (cs @ rs)"
    using Cons.prems(1) b(2) by (auto simp: lists_def)
  ultimately have l: "lists ?s cs rs" by (auto simp: lists_def)
  have o: "owned ?s"
  proof (rule owned_intro)
    fix d t
    have "conn_req ?s d = conn_req s d" using n by (simp add: conn_req_def)
    then show "conn_req ?s d = Some t \<longleftrightarrow> request_conn ?s t = Some d" using Cons.prems(2) by (simp add: owned_def request_conn_def)
  qed (use Cons.prems(2) in \<open>auto simp: owned_def context_request_def request_context_def\<close>)
  have "reap_connections s = reap_connections ?s" using n(1,2) by (subst reap_connections.simps) simp
  then show ?case using Cons.IH[OF l o] by simp
qed

lemma remove_clients_removes:
  assumes "lists s cs rs" "owned s"
  shows "\<exists>s' rs'. remove_clients s = Some s' \<and> lists s' [] rs' \<and> owned s' \<and> contexts s' = contexts s"
  using assms
proof (induction cs arbitrary: s rs)
  case Nil
  then have "clients s = None" by (auto simp: lists_def)
  then have "remove_clients s = Some s" by (subst remove_clients.simps) simp
  then show ?case using Nil by auto
next
  case (Cons c cs)
  obtain s1 where s1: "remove_connection c s = Some s1" "lists s1 cs (c # rs)" "owned s1" "contexts s1 = contexts s"
    using remove_client[OF Cons.prems, of c] by auto
  have "clients s = Some c" using Cons.prems(1) by (auto simp: lists_def)
  then have "remove_clients s = remove_clients s1" using s1(1) by (subst remove_clients.simps) simp
  then show ?case using Cons.IH[OF s1(2,3)] s1(4) by auto
qed

text \<open>Without clients no request has a connection, and the delivery of a task releases its context.\<close>

lemma no_clients:
  assumes "lists s [] rs" "owned s" "requests s r = Some q"
  shows "req_conn q = None"
proof (cases "req_conn q")
  case (Some c)
  obtain n where n: "conns s c = Some n" "conn_request n = Some r" by (rule owned_request[OF assms(2,3) Some])
  then have "c \<in> set rs" using assms(1) by (auto simp: lists_def)
  then show ?thesis using assms(1) n retired_node[of "conns s" "retired_clients s" rs c] by (auto simp: lists_def)
qed

lemma deliver_tasks_delivers:
  assumes "lists s [] rs" "owned s" "distinct xs" "set xs \<subseteq> dom (contexts s)"
  shows "\<exists>s'. deliver_tasks run env xs s = Some s' \<and> lists s' [] rs \<and> owned s' \<and>
    dom (contexts s') = dom (contexts s) - set xs"
  using assms
proof (induction xs arbitrary: s)
  case (Cons x xs)
  obtain k where k: "contexts s x = Some k" using Cons.prems(4) by auto
  obtain q where q: "requests s (ctx_request k) = Some q" "req_context q = Some x"
    by (rule owned_context[OF Cons.prems(2) k])
  have n: "req_conn q = None" by (rule no_clients[OF Cons.prems(1,2) q(1)])
  let ?s = "s\<lparr>requests := (requests s)(ctx_request k := None), contexts := (contexts s)(x := None)\<rparr>"
  have "http_request_context_dispose x s = Some ?s"
    using k q n by (simp add: http_request_context_dispose_def http_request_dispose_def Let_def)
  then have t: "task_completed run env x s = Some ?s" using k q(1) n by (simp add: task_completed_def)
  have "ok s" using Cons.prems(1,2) by (rule ok_intro)
  from context_dispose_ok[OF this k] have o: "owned ?s"
    using \<open>http_request_context_dispose x s = Some ?s\<close> by (simp add: ok_def)
  have l: "lists ?s [] rs" by (rule lists_same[OF Cons.prems(1)]) simp_all
  have sub: "set xs \<subseteq> dom (contexts ?s)" "distinct xs" using Cons.prems(3,4) by auto
  obtain s' where "deliver_tasks run env xs ?s = Some s'" "lists s' [] rs" "owned s'"
    "dom (contexts s') = dom (contexts ?s) - set xs"
    using Cons.IH[OF l o sub(2,1)] by blast
  then show ?case using t by auto
qed simp

section \<open>The event loop\<close>

text \<open>
  The server between two events, and the connections that the last \<open>epoll_wait\<close> has reported and
  the loop still refers to.
\<close>

record 'h event_loop =
  srv :: "'h server"
  reported :: "addr set"

inductive loop_step :: "'h route list \<Rightarrow> 'h event_loop \<Rightarrow> 'h event_loop \<Rightarrow> bool" for routes where
  wait: "\<forall>c \<in> B. \<exists>n. conns (srv t) c = Some n \<and> 0 \<le> fd n \<Longrightarrow> loop_step routes t (t\<lparr>reported := B\<rparr>)"
| accept: "conns (srv t) c = None \<Longrightarrow> 0 \<le> client_fd \<Longrightarrow> accept_client c client_fd (srv t) = Some s \<Longrightarrow>
     loop_step routes t (t\<lparr>srv := s\<rparr>)"
| client: "c \<in> reported t \<Longrightarrow> env_ok (srv t) env \<Longrightarrow> client_ready routes ev env c (srv t) = Some s \<Longrightarrow>
     loop_step routes t (t\<lparr>srv := s\<rparr>)"
| completed: "run_ok run \<Longrightarrow> task_completed run env x (srv t) = Some s \<Longrightarrow> loop_step routes t (t\<lparr>srv := s\<rparr>)"
| reap: "reap_connections (srv t) = Some s \<Longrightarrow> loop_step routes t (t\<lparr>srv := s, reported := {}\<rparr>)"

inductive loop_reachable :: "'h route list \<Rightarrow> 'h event_loop \<Rightarrow> bool" for routes where
  start: "loop_reachable routes \<lparr>srv = create_server, reported = {}\<rparr>"
| step: "loop_reachable routes t \<Longrightarrow> loop_step routes t t' \<Longrightarrow> loop_reachable routes t'"

lemma reap_ok:
  assumes "ok s"
  shows "\<exists>s'. reap_connections s = Some s' \<and> ok s'"
proof -
  obtain cs rs where "lists s cs rs" "owned s" using assms by (auto simp: ok_def)
  from reap_connections_reaps[OF this] show ?thesis using ok_intro by blast
qed

lemma loop_reachable_ok: "loop_reachable routes t \<Longrightarrow> ok (srv t) \<and> reported t \<subseteq> dom (conns (srv t))"
proof (induction rule: loop_reachable.induct)
  case start
  have "lists create_server [] []" "owned create_server"
    by (simp_all add: lists_def create_server_def owned_def conn_req_def request_conn_def context_request_def request_context_def)
  then show ?case using ok_intro by auto
next
  case (step t t')
  note o = conjunct1[OF step.IH] and sub = conjunct2[OF step.IH]
  from step.hyps(2) show ?case
  proof cases
    case (wait B)
    then show ?thesis using o by auto
  next
    case (accept c client_fd s)
    then show ?thesis using accept_client_ok[OF o accept(2,3)] sub by auto
  next
    case (client c env ev s)
    then have "c \<in> dom (conns (srv t))" using sub by blast
    then show ?thesis using client_ready_ok[OF o _ client(3), of c routes ev] client sub by auto
  next
    case (completed run env x s)
    then obtain k where "contexts (srv t) x = Some k" by (auto simp: task_completed_def bind_eq_Some_conv)
    then show ?thesis using task_completed_ok[OF o _ completed(2), of x k env] completed sub by auto
  next
    case (reap s)
    then show ?thesis using reap_ok[OF o] by auto
  qed
qed

text \<open>
  C6.  The server never touches a released object and releases none twice: in every reachable
  state each event for a connection that \<open>epoll_wait\<close> reported is handled, also when another event
  of the same batch has removed the connection; so are the completion of any pending context, a new
  connection and the reaping.  The client list stays doubly linked, and a request is allocated
  exactly as long as its connection or its context holds it.
\<close>

theorem server_memory_safe:
  assumes "loop_reachable routes t"
  shows "(\<exists>cs rs. lists (srv t) cs rs) \<and> owned (srv t) \<and>
    (\<forall>c ev env. c \<in> reported t \<longrightarrow> env_ok (srv t) env \<longrightarrow> client_ready routes ev env c (srv t) \<noteq> None) \<and>
    (\<forall>x run env. contexts (srv t) x \<noteq> None \<longrightarrow> run_ok run \<longrightarrow> task_completed run env x (srv t) \<noteq> None) \<and>
    (\<forall>c client_fd. conns (srv t) c = None \<longrightarrow> 0 \<le> client_fd \<longrightarrow> accept_client c client_fd (srv t) \<noteq> None) \<and>
    reap_connections (srv t) \<noteq> None"
proof -
  have o: "ok (srv t)" and sub: "reported t \<subseteq> dom (conns (srv t))" using loop_reachable_ok[OF assms] by auto
  have "client_ready routes ev env c (srv t) \<noteq> None" if "c \<in> reported t" "env_ok (srv t) env" for c ev env
    using client_ready_ok[OF o _ that(2), of c routes ev] that(1) sub by auto
  moreover have "task_completed run env x (srv t) \<noteq> None" if "contexts (srv t) x \<noteq> None" "run_ok run" for x run env
    using task_completed_ok[OF o _ that(2), of x _ env] that(1) by auto
  moreover have "accept_client c client_fd (srv t) \<noteq> None" if "conns (srv t) c = None" "0 \<le> client_fd" for c client_fd
    using accept_client_ok[OF o that] by auto
  ultimately show ?thesis using o reap_ok[OF o] by (auto simp: ok_def)
qed

text \<open>
  C8.  \<open>destroy_server\<close> terminates and leaves nothing allocated: when the workers, once stopped,
  have handed back every pending context once, no connection, request or context remains.
\<close>

theorem destroy_server_releases_all:
  assumes "loop_reachable routes t" "distinct (jobs @ tasks)" "set (jobs @ tasks) = dom (contexts (srv t))"
  shows "\<exists>s. destroy_server run env jobs tasks (srv t) = Some s \<and>
    conns s = Map.empty \<and> requests s = Map.empty \<and> contexts s = Map.empty"
proof -
  obtain cs rs where "lists (srv t) cs rs" "owned (srv t)"
    using loop_reachable_ok[OF assms(1)] by (auto simp: ok_def)
  from remove_clients_removes[OF this] obtain s1 rs1 where
    s1: "remove_clients (srv t) = Some s1" "lists s1 [] rs1" "owned s1" "contexts s1 = contexts (srv t)" by blast
  obtain s2 where s2: "deliver_tasks run env jobs s1 = Some s2" "lists s2 [] rs1" "owned s2"
    "dom (contexts s2) = dom (contexts s1) - set jobs"
    using deliver_tasks_delivers[OF s1(2,3), of jobs run env] assms(2,3) s1(4) by auto
  have rest: "distinct tasks" "set tasks \<subseteq> dom (contexts s2)" using assms(2,3) s1(4) s2(4) by auto
  obtain s3 where s3: "deliver_tasks run env tasks s2 = Some s3" "lists s3 [] rs1" "owned s3"
    "dom (contexts s3) = dom (contexts s2) - set tasks"
    using deliver_tasks_delivers[OF s2(2,3) rest, of run env] by auto
  obtain s4 where s4: "reap_connections s3 = Some s4" "lists s4 [] []" "owned s4" "contexts s4 = contexts s3"
    using reap_connections_reaps[OF s3(2,3)] by blast
  have c: "dom (contexts s4) = {}" using s1(4) s2(4) s3(4) s4(4) assms(3) by auto
  have "requests s4 r = None" for r
  proof (cases "requests s4 r")
    case (Some q)
    have n: "req_conn q = None" by (rule no_clients[OF s4(2,3) Some])
    then have "req_context q \<noteq> None" using s4(3) Some unfolding owned_def by blast
    then obtain x where "req_context q = Some x" by auto
    then have "request_context s4 r = Some x" using Some by (simp add: request_context_def)
    then have "context_request s4 x = Some r" using s4(3) by (simp add: owned_def)
    then show ?thesis using c by (auto simp: context_request_def)
  qed
  then have "requests s4 = Map.empty" by (rule ext)
  moreover have "conns s4 = Map.empty" using s4(2) by (simp add: lists_def)
  moreover have "contexts s4 = Map.empty" using c by simp
  ultimately show ?thesis
    using s1(1) s2(1) s3(1) s4(1) by (auto simp: destroy_server_def)
qed

text \<open>A server with one client, and then with its request and the pending context of the request.\<close>

definition example_routes :: "nat route list" where
  "example_routes = [\<lparr>route_method = HTTP_METHOD_GET, route_path = ''/hello'', route_handler = 0\<rparr>]"

definition example_send :: send_env where
  "example_send = \<lparr>header_mem = True, writes = [], epoll_ok = True\<rparr>"

definition example_env :: "nat client_env" where
  "example_env = \<lparr>peek_ends = False, req_mem = Some 4, parsed_method = HTTP_METHOD_GET, parsed_uri = ''/hello'',
     parse_error = None, run_handler = (\<lambda>h. Pending (h + 1)), ctx_mem = Some 7, client_send = example_send\<rparr>"

definition one_client :: "nat server" where
  "one_client = the (accept_client 3 5 create_server)"

definition one_context :: "nat server" where
  "one_context = the (client_ready example_routes Event_in example_env 3 one_client)"

lemma one_client_reachable: "loop_reachable example_routes \<lparr>srv = one_client, reported = {3}\<rparr>"
proof -
  have s: "accept_client 3 5 create_server = Some one_client"
    by (simp add: one_client_def accept_client_def create_server_def)
  let ?t = "\<lparr>srv = create_server, reported = {}\<rparr> :: nat event_loop"
  have "loop_reachable example_routes (?t\<lparr>srv := one_client\<rparr>)"
    by (rule loop_reachable.step[OF loop_reachable.start loop_step.accept[of ?t 3 5]])
      (use s in \<open>simp_all add: create_server_def\<close>)
  then have "loop_reachable example_routes (?t\<lparr>srv := one_client\<rparr>\<lparr>reported := {3}\<rparr>)"
    by (rule loop_reachable.step[OF _ loop_step.wait])
      (simp add: one_client_def accept_client_def create_server_def)
  then show ?thesis by simp
qed

lemma example_env_ok: "env_ok one_client example_env"
  by (simp add: env_ok_def example_env_def run_ok_def one_client_def accept_client_def create_server_def)

lemma one_client_node: "\<exists>n. conns one_client 3 = Some n \<and> fd n = 5 \<and> conn_request n = None"
  by (simp add: one_client_def accept_client_def create_server_def)

lemma one_context_contexts: "client_ready example_routes Event_in example_env 3 one_client = Some one_context \<and>
   contexts one_context = [7 \<mapsto> \<lparr>ctx_request = 4, current_handler = 1\<rparr>]"
proof -
  obtain n where n: "conns one_client 3 = Some n" "fd n = 5" "conn_request n = None" using one_client_node by blast
  have c: "contexts one_client = Map.empty" by (simp add: one_client_def accept_client_def create_server_def)
  have f: "find_route example_routes HTTP_METHOD_GET ''/hello'' = Some 0" by code_simp
  show ?thesis
    by (simp add: one_context_def client_ready_def client_handler_def n c upd_conn_def http_server_handle_request_def
        example_env_def f Let_def)
qed

lemma one_context_reachable: "loop_reachable example_routes \<lparr>srv = one_context, reported = {3}\<rparr>"
proof -
  let ?t = "\<lparr>srv = one_client, reported = {3}\<rparr>"
  have "loop_step example_routes ?t (?t\<lparr>srv := one_context\<rparr>)"
    by (rule loop_step.client[where c = 3 and env = example_env and ev = Event_in])
      (use one_context_contexts example_env_ok in simp_all)
  then show ?thesis using loop_reachable.step[OF one_client_reachable] by simp
qed

theorem server_memory_safe_witness:
  "client_ready example_routes Event_in example_env 3 one_client \<noteq> None \<and>
   task_completed (\<lambda>h. Pending (h + 1)) example_send 7 one_context \<noteq> None"
proof -
  have "run_ok (\<lambda>h :: nat. Pending (h + 1))" by (simp add: run_ok_def)
  then show ?thesis
    using server_memory_safe[OF one_client_reachable] server_memory_safe[OF one_context_reachable]
      example_env_ok one_context_contexts by auto
qed

theorem destroy_server_releases_all_witness:
  "\<exists>s. destroy_server (\<lambda>h. Pending (h + 1)) example_send [] [7] one_context = Some s \<and>
     conns s = Map.empty \<and> requests s = Map.empty \<and> contexts s = Map.empty"
  using destroy_server_releases_all[OF one_context_reachable, of "[]" "[7]" "\<lambda>h. Pending (h + 1)" example_send]
    one_context_contexts by simp

text \<open>
  C18.  Routing is exact: a request goes to the first route whose method is the one of the request
  and whose path is, byte for byte, its whole target; a context is created for it, and any other
  request is answered with 404 without a context.
\<close>

theorem handle_request_routes:
  assumes "\<forall>route \<in> set routes. no_nul (route_path route)" "requests s r = Some q"
  shows "http_server_handle_request routes run (Some x) r s =
    (case find (\<lambda>route. route_method route = req_method q \<and> route_path route = req_uri q) routes of
       None \<Rightarrow> Some (Some not_found, s)
     | Some route \<Rightarrow>
         (let attach = (\<lambda>h. s\<lparr>requests := (requests s)(r \<mapsto> q\<lparr>req_context := Some x\<rparr>),
                contexts := (contexts s)(x \<mapsto> \<lparr>ctx_request = r, current_handler = h\<rparr>)\<rparr>) in
          case run (route_handler route) of
            Pending h \<Rightarrow> Some (None, attach h)
          | Complete response \<Rightarrow>
              map_option (\<lambda>s. (Some response, s)) (http_request_context_dispose x (attach (route_handler route)))))"
  by (simp add: http_server_handle_request_def assms find_route_exact Let_def map_option_case
      split: option.splits outcome.splits)

theorem handle_request_routes_witness:
  "\<exists>s r q. requests s r = Some q \<and> req_uri q = ''/hello/'' \<and>
     http_server_handle_request example_routes (\<lambda>h. Pending h) (Some 9) r s = Some (Some not_found, s)"
proof -
  let ?q = "\<lparr>req_conn = None, req_context = None, req_method = HTTP_METHOD_GET, req_uri = ''/hello/''\<rparr>"
  let ?s = "create_server\<lparr>requests := [1 \<mapsto> ?q]\<rparr> :: nat server"
  have r: "\<forall>route \<in> set example_routes. no_nul (route_path route)" by (simp add: example_routes_def)
  have q: "requests ?s 1 = Some ?q" by simp
  have "http_server_handle_request example_routes (\<lambda>h. Pending h) (Some 9) 1 ?s = Some (Some not_found, ?s)"
    using handle_request_routes[OF r q, of "\<lambda>h. Pending h" 9] by (simp add: example_routes_def)
  then show ?thesis using q by fastforce
qed

end
