(* ===== verification/App.thy ===== *)
theory App
  imports HandlerAnswer Contest Connection "HOL-Library.Sublist"
begin

text \<open>
  The application: the chains of handlers and the routes that \<open>src/src/main.c\<close> sets up, the calls of
  the handlers, and the life of a request from its first call through the completions of what its
  handlers submit.
\<close>

section \<open>The handlers\<close>

fun run_plain :: "handler \<Rightarrow> env \<Rightarrow> event \<Rightarrow> http_context \<Rightarrow> step option" where
  "run_plain H_root env ev = handle_root env"
| "run_plain H_hello_1 env ev = handle_hello_1 env"
| "run_plain H_hello_2 env ev = handle_hello_2 env ev"
| "run_plain H_get_challenges_1 env ev = handle_get_challenges_1 env"
| "run_plain H_get_challenges_2 env ev = handle_get_challenges_2 env ev"
| "run_plain H_get_own_challenges_1 env ev = handle_get_own_challenges_1 env"
| "run_plain H_get_own_challenges_2 env ev = handle_get_own_challenges_2 env ev"
| "run_plain H_post_challenges_1 env ev = handle_post_challenges_1 env"
| "run_plain H_post_challenges_2 env ev = handle_post_challenges_2 env ev"
| "run_plain H_put_challenges_1 env ev = handle_put_challenges_1 env"
| "run_plain H_put_challenges_2 env ev = handle_put_challenges_2 env ev"
| "run_plain H_put_challenges_3 env ev = handle_put_challenges_3 env ev"
| "run_plain H_put_challenges_4 env ev = handle_put_challenges_4 env ev"
| "run_plain H_delete_challenges_1 env ev = handle_delete_challenges_1 env"
| "run_plain H_delete_challenges_2 env ev = handle_delete_challenges_2 env ev"
| "run_plain H_delete_challenges_3 env ev = handle_delete_challenges_3 env ev"
| "run_plain H_delete_challenges_4 env ev = handle_delete_challenges_4 env ev"
| "run_plain H_post_answers_1 env ev = handle_post_answers_1 env"
| "run_plain H_post_answers_2 env ev = handle_post_answers_2 env ev"
| "run_plain H_post_answers_3 env ev = handle_post_answers_3 env ev"
| "run_plain H_post_answers_4 env ev = handle_post_answers_4 env ev"
| "run_plain H_post_answers_5 env ev = handle_post_answers_5 env ev"
| "run_plain H_get_answers_1 env ev = handle_get_answers_1 env"
| "run_plain H_get_answers_2 env ev = handle_get_answers_2 env ev"
| "run_plain H_get_answers_3 env ev = handle_get_answers_3 env ev"
| "run_plain H_get_own_answers_1 env ev = handle_get_own_answers_1 env"
| "run_plain H_get_own_answers_2 env ev = handle_get_own_answers_2 env ev"
| "run_plain H_get_own_answers_3 env ev = handle_get_own_answers_3 env ev"
| "run_plain H_get_users_1 env ev = handle_get_users_1 env"
| "run_plain H_get_users_2 env ev = handle_get_users_2 env ev"
| "run_plain H_get_users_3 env ev = handle_get_users_3 env ev"
| "run_plain H_signup_1 env ev = handle_signup_1 env"
| "run_plain H_signup_2 env ev = handle_signup_2 env ev"
| "run_plain H_signup_3 env ev = handle_signup_3 env ev"
| "run_plain H_signup_4 env ev = handle_signup_4 env ev"
| "run_plain H_signup_5 env ev = handle_signup_5 env ev"
| "run_plain H_login_1 env ev = handle_login_1 env"
| "run_plain H_login_2 env ev = handle_login_2 env ev"
| "run_plain H_login_3 env ev = handle_login_3 env ev"
| "run_plain H_login_4 env ev = handle_login_4 env ev"
| "run_plain H_login_5 env ev = handle_login_5 env ev"
| "run_plain H_auth_1 env ev = handle_auth_1 env"
| "run_plain H_auth_2 env ev = (\<lambda>ctx. None)"
| "run_plain H_logout_1 env ev = handle_logout_1 env"
| "run_plain H_logout_2 env ev = handle_logout_2 env ev"

text \<open>
  The call of the current handler.  Behind \<open>handle_auth_2\<close>, which calls its successor itself, there
  is no second \<open>handle_auth_2\<close> in any chain.
\<close>

definition run_handler :: "env \<Rightarrow> event \<Rightarrow> http_context \<Rightarrow> step option" where
  "run_handler env ev ctx =
     (case chain ctx of
        [] \<Rightarrow> None
      | h # _ \<Rightarrow>
          if h = H_auth_2 then
            handle_auth_2 (\<lambda>ctx. case chain ctx of [] \<Rightarrow> None | h # _ \<Rightarrow> run_plain h env Start ctx) env ev ctx
          else run_plain h env ev ctx)"

section \<open>The routes\<close>

definition auth_chain :: "handler list" where "auth_chain = [H_auth_1, H_auth_2]"

definition own_challenges_chain :: "handler list" where
  "own_challenges_chain = auth_chain @ [H_get_own_challenges_1, H_get_own_challenges_2]"

definition post_challenges_chain :: "handler list" where
  "post_challenges_chain = auth_chain @ [H_post_challenges_1, H_post_challenges_2]"

definition put_challenges_chain :: "handler list" where
  "put_challenges_chain = auth_chain @ [H_put_challenges_1, H_put_challenges_2, H_put_challenges_3, H_put_challenges_4]"

definition delete_challenges_chain :: "handler list" where
  "delete_challenges_chain =
     auth_chain @ [H_delete_challenges_1, H_delete_challenges_2, H_delete_challenges_3, H_delete_challenges_4]"

definition post_answers_chain :: "handler list" where
  "post_answers_chain =
     auth_chain @ [H_post_answers_1, H_post_answers_2, H_post_answers_3, H_post_answers_4, H_post_answers_5]"

definition own_answers_chain :: "handler list" where
  "own_answers_chain = auth_chain @ [H_get_own_answers_1, H_get_own_answers_2, H_get_own_answers_3]"

definition logout_chain :: "handler list" where "logout_chain = auth_chain @ [H_logout_1, H_logout_2]"

definition signup_chain :: "handler list" where
  "signup_chain = [H_signup_1, H_signup_2, H_signup_3, H_signup_4, H_signup_5]"

definition login_chain :: "handler list" where
  "login_chain = [H_login_1, H_login_2, H_login_3, H_login_4, H_login_5]"

definition answers_chain :: "handler list" where "answers_chain = [H_get_answers_1, H_get_answers_2, H_get_answers_3]"

definition users_chain :: "handler list" where "users_chain = [H_get_users_1, H_get_users_2, H_get_users_3]"

definition server_routes :: "handler list route list" where
  "server_routes = fold (\<lambda>(meth, path, handlers). http_server_add_route meth path handlers)
     [(HTTP_METHOD_GET, ''/'', [H_root]),
      (HTTP_METHOD_GET, ''/hello'', [H_hello_1, H_hello_2]),
      (HTTP_METHOD_GET, ''/challenges'', [H_get_challenges_1, H_get_challenges_2]),
      (HTTP_METHOD_GET, ''/challenges/me'', own_challenges_chain),
      (HTTP_METHOD_POST, ''/challenges'', post_challenges_chain),
      (HTTP_METHOD_PUT, ''/challenges'', put_challenges_chain),
      (HTTP_METHOD_DELETE, ''/challenges'', delete_challenges_chain),
      (HTTP_METHOD_POST, ''/answers'', post_answers_chain),
      (HTTP_METHOD_GET, ''/answers'', answers_chain),
      (HTTP_METHOD_GET, ''/answers/me'', own_answers_chain),
      (HTTP_METHOD_POST, ''/signup'', signup_chain),
      (HTTP_METHOD_POST, ''/login'', login_chain),
      (HTTP_METHOD_POST, ''/logout'', logout_chain),
      (HTTP_METHOD_GET, ''/users'', users_chain)] []"

text \<open>
  The settings that \<open>main\<close> reads; \<open>None\<close> when it ends with an error before it creates the server.
\<close>

definition startup ::
  "libs \<Rightarrow> (string \<Rightarrow> string option) \<Rightarrow> string \<Rightarrow> (auth_runtime \<times> auth_config) option" where
  "startup L environment random_bytes =
     (let start_setting = environment ''CONTEST_START_AT'';
          (start_ok, start_at) = contest_time_parse start_setting;
          end_setting = environment ''CONTEST_END_AT'';
          end_enabled = (end_setting \<noteq> None \<and> cstr (the end_setting) \<noteq> []);
          (end_ok, end_at) = contest_time_parse end_setting in
      if \<not> start_ok then None
      else if \<not> end_ok then None
      else if start_setting \<noteq> None \<and> cstr (the start_setting) \<noteq> [] \<and> end_enabled \<and> end_at \<le> start_at then None
      else
        let (r, config) = auth_init_from_env L environment random_bytes in
        if r \<noteq> AUTH_OK then None
        else Some (\<lparr>rt_config = Some config, contest_start_at = start_at, contest_end_at = end_at,
                    contest_end_enabled = end_enabled, rt_worker = True\<rparr>, config))"

section \<open>The life of a request\<close>

text \<open>The completion that belongs to a submission.\<close>

fun completes :: "submission \<Rightarrow> event \<Rightarrow> bool" where
  "completes (Query q) (Db_done task) \<longleftrightarrow> True"
| "completes (Param_query q ps) (Db_done task) \<longleftrightarrow>
     length (task_params task) = length ps \<and> bind_params (strings task) (task_params task) = Some (map Db.param_value ps)"
| "completes (Password op pw h) (Password_done s c hash) \<longleftrightarrow> True"
| "completes _ _ \<longleftrightarrow> False"

definition fresh_context :: "handler list \<Rightarrow> http_context \<Rightarrow> bool" where
  "fresh_context ch ctx \<longleftrightarrow> chain ctx = ch \<and> identity ctx = None \<and> app ctx = No_data"

text \<open>
  A call of a request: its environment, what it was called with and what it submitted.
  \<open>life rt ch calls ctx\<close>: a request whose chain is \<open>ch\<close> has had these calls, and waits with the
  context \<open>ctx\<close> for the completion of the last submission.  \<open>answered rt ch calls env ev ctx r\<close>: the
  call in \<open>env\<close> with \<open>ev\<close> then replies with \<open>r\<close>.  \<open>rt\<close> are the settings of the server.
\<close>

type_synonym call = "env \<times> event \<times> submission"

definition submitted :: "call \<Rightarrow> submission" where "submitted c = snd (snd c)"

inductive life :: "auth_runtime option \<Rightarrow> handler list \<Rightarrow> call list \<Rightarrow> http_context \<Rightarrow> bool" for rt ch where
  first: "fresh_context ch ctx \<Longrightarrow> runtime env = rt \<Longrightarrow> run_handler env Start ctx = Some (Await s ctx') \<Longrightarrow>
     life rt ch [(env, Start, s)] ctx'"
| later: "life rt ch calls ctx \<Longrightarrow> completes (submitted (last calls)) ev \<Longrightarrow> runtime env = rt \<Longrightarrow>
     run_handler env ev ctx = Some (Await s ctx') \<Longrightarrow> life rt ch (calls @ [(env, ev, s)]) ctx'"

inductive answered ::
  "auth_runtime option \<Rightarrow> handler list \<Rightarrow> call list \<Rightarrow> env \<Rightarrow> event \<Rightarrow> http_context \<Rightarrow> http_response \<Rightarrow> bool" for rt ch where
  at_once: "fresh_context ch ctx \<Longrightarrow> runtime env = rt \<Longrightarrow> run_handler env Start ctx = Some (Reply r) \<Longrightarrow>
     answered rt ch [] env Start ctx r"
| at_last: "life rt ch calls ctx \<Longrightarrow> completes (submitted (last calls)) ev \<Longrightarrow> runtime env = rt \<Longrightarrow>
     run_handler env ev ctx = Some (Reply r) \<Longrightarrow> answered rt ch calls env ev ctx r"

end
