(* ===== verification/AppSafety.thy ===== *)
theory AppSafety
  imports App
begin

text \<open>
  What holds along the life of every request: which handler waits for which submission with which
  data, that behind the authentication every call is made for a verified identity, and the calls
  that lead to the statements that matter.
\<close>

section \<open>What a handler leaves behind\<close>

text \<open>\<open>post r P\<close>: when the call goes on with a submission, it and the context satisfy \<open>P\<close>.\<close>

definition post :: "step option \<Rightarrow> (submission \<Rightarrow> http_context \<Rightarrow> bool) \<Rightarrow> bool" where
  "post r P \<longleftrightarrow> (\<forall>s ctx. r = Some (Await s ctx) \<longrightarrow> P s ctx)"

lemma post_simps [simp]:
  "post None P" "post (Some (Reply x)) P" "post (Some (Await s ctx)) P \<longleftrightarrow> P s ctx"
  "post (map_option Reply y) P"
  by (auto simp: post_def)

lemma post_mono: "post r P \<Longrightarrow> (\<And>s ctx. P s ctx \<Longrightarrow> Q s ctx) \<Longrightarrow> post r Q"
  by (simp add: post_def)

lemma post_submit [simp]: "post (submit env s ctx x) P \<longleftrightarrow> (accepts env s \<longrightarrow> P s ctx)"
  by (simp add: submit_def)

lemma post_bind [simp]: "post (Option.bind x f) P \<longleftrightarrow> (\<forall>y. x = Some y \<longrightarrow> post (f y) P)"
  by (auto simp: post_def bind_eq_Some_conv)

lemma post_states [simp]:
  "post (with_auth_state ctx f) P \<longleftrightarrow> (\<forall>st. app ctx = Auth_data st \<longrightarrow> post (f st) P)"
  "post (with_write_state ctx g) P \<longleftrightarrow> (\<forall>st. app ctx = Write_data st \<longrightarrow> post (g st) P)"
  "post (with_submit_state ctx h) P \<longleftrightarrow> (\<forall>st. app ctx = Submit_data st \<longrightarrow> post (h st) P)"
  "post (with_list_state ctx k) P \<longleftrightarrow> (\<forall>i. app ctx = List_data i \<longrightarrow> post (k i) P)"
  "post (with_user_list ctx l) P \<longleftrightarrow> (\<forall>us. app ctx = Users_data us \<longrightarrow> post (l us) P)"
  by (auto simp: with_auth_state_def with_write_state_def with_submit_state_def with_list_state_def
      with_user_list_def split: app_data.splits)

lemma post_submit_password [simp]:
  "post (Some (submit_password env ctx st op hash)) P \<longleftrightarrow>
    (submit_result env op (auth_password (st_input st)) hash = PASSWORD_QUEUED \<longrightarrow>
     P (Password op (auth_password (st_input st)) hash)
       (next_handler (ctx\<lparr>app := Auth_data (st\<lparr>st_input := (st_input st)\<lparr>auth_password := None\<rparr>\<rparr>)\<rparr>)))"
  by (simp add: submit_password_def Let_def)

lemma post_select_owners [simp]:
  "post (select_challenge_owners env ctx) P \<longleftrightarrow>
    (has_next ctx \<longrightarrow> accepts env (Query SELECT_OWNERS) \<longrightarrow> P (Query SELECT_OWNERS) (next_handler ctx))"
  by (simp add: select_challenge_owners_def)

lemma post_answers_reply [simp]: "post (answers_reply env as v) P"
  by (simp add: answers_reply_def)

lemma next_handler_simps [simp]:
  "chain (next_handler ctx) = tl (chain ctx)" "app (next_handler ctx) = app ctx"
  "identity (next_handler ctx) = identity ctx" "req_body (next_handler ctx) = req_body ctx"
  "req_params (next_handler ctx) = req_params ctx" "req_headers (next_handler ctx) = req_headers ctx"
  by (simp_all add: next_handler_def)

lemmas handler_defs = handle_root_def handle_hello_1_def handle_hello_2_def handle_get_challenges_1_def
  handle_get_challenges_2_def handle_get_own_challenges_1_def handle_get_own_challenges_2_def
  handle_post_challenges_1_def handle_post_challenges_2_def handle_put_challenges_1_def
  handle_put_challenges_2_def handle_put_challenges_3_def handle_put_challenges_4_def
  handle_delete_challenges_1_def handle_delete_challenges_2_def handle_delete_challenges_3_def
  handle_delete_challenges_4_def handle_post_answers_1_def handle_post_answers_2_def
  handle_post_answers_3_def handle_post_answers_4_def handle_post_answers_5_def
  handle_get_answers_1_def handle_get_answers_2_def handle_get_answers_3_def
  handle_get_own_answers_1_def handle_get_own_answers_2_def handle_get_own_answers_3_def
  handle_get_users_1_def handle_get_users_2_def handle_get_users_3_def handle_signup_1_def
  handle_signup_2_def handle_signup_3_def handle_signup_4_def handle_signup_5_def handle_login_1_def
  handle_login_2_def handle_login_3_def handle_login_4_def handle_login_5_def handle_logout_1_def
  handle_logout_2_def

text \<open>A handler leaves the request and its identity, and goes on with a successor.\<close>

definition same_request :: "http_context \<Rightarrow> http_context \<Rightarrow> bool" where
  "same_request ctx ctx' \<longleftrightarrow> identity ctx' = identity ctx \<and> req_body ctx' = req_body ctx \<and>
     req_params ctx' = req_params ctx \<and> req_headers ctx' = req_headers ctx"

lemma run_plain_frame:
  assumes "h \<noteq> H_auth_1"
  shows "post (run_plain h env ev ctx) (\<lambda>s ctx'. same_request ctx ctx' \<and>
     (chain ctx' = tl (chain ctx) \<or> chain ctx' = tl (tl (chain ctx))))"
  using assms
  by (cases h) (simp_all add: handler_defs Let_def same_request_def print_response_def
      split: option.split sum.split event.split auth_result.split prod.split)

section \<open>The chains\<close>

text \<open>The handlers behind a handler, where the chains of the server agree on them.\<close>

fun tail_of :: "handler \<Rightarrow> handler list" where
  "tail_of H_hello_1 = [H_hello_2]"
| "tail_of H_get_challenges_1 = [H_get_challenges_2]"
| "tail_of H_get_own_challenges_1 = [H_get_own_challenges_2]"
| "tail_of H_post_challenges_1 = [H_post_challenges_2]"
| "tail_of H_put_challenges_1 = [H_put_challenges_2, H_put_challenges_3, H_put_challenges_4]"
| "tail_of H_put_challenges_2 = [H_put_challenges_3, H_put_challenges_4]"
| "tail_of H_put_challenges_3 = [H_put_challenges_4]"
| "tail_of H_delete_challenges_1 = [H_delete_challenges_2, H_delete_challenges_3, H_delete_challenges_4]"
| "tail_of H_delete_challenges_2 = [H_delete_challenges_3, H_delete_challenges_4]"
| "tail_of H_delete_challenges_3 = [H_delete_challenges_4]"
| "tail_of H_post_answers_1 = [H_post_answers_2, H_post_answers_3, H_post_answers_4, H_post_answers_5]"
| "tail_of H_post_answers_2 = [H_post_answers_3, H_post_answers_4, H_post_answers_5]"
| "tail_of H_post_answers_3 = [H_post_answers_4, H_post_answers_5]"
| "tail_of H_post_answers_4 = [H_post_answers_5]"
| "tail_of H_get_answers_1 = [H_get_answers_2, H_get_answers_3]"
| "tail_of H_get_answers_2 = [H_get_answers_3]"
| "tail_of H_get_own_answers_1 = [H_get_own_answers_2, H_get_own_answers_3]"
| "tail_of H_get_own_answers_2 = [H_get_own_answers_3]"
| "tail_of H_get_users_1 = [H_get_users_2, H_get_users_3]"
| "tail_of H_get_users_2 = [H_get_users_3]"
| "tail_of H_signup_1 = [H_signup_2, H_signup_3, H_signup_4, H_signup_5]"
| "tail_of H_signup_2 = [H_signup_3, H_signup_4, H_signup_5]"
| "tail_of H_signup_3 = [H_signup_4, H_signup_5]"
| "tail_of H_signup_4 = [H_signup_5]"
| "tail_of H_login_1 = [H_login_2, H_login_3, H_login_4, H_login_5]"
| "tail_of H_login_2 = [H_login_3, H_login_4, H_login_5]"
| "tail_of H_login_3 = [H_login_4, H_login_5]"
| "tail_of H_login_4 = [H_login_5]"
| "tail_of H_logout_1 = [H_logout_2]"
| "tail_of h = []"

text \<open>The first handlers of the routes, or those behind the authentication.\<close>

fun entry :: "handler \<Rightarrow> bool" where
  "entry H_root = True" | "entry H_hello_1 = True" | "entry H_get_challenges_1 = True"
| "entry H_get_own_challenges_1 = True" | "entry H_post_challenges_1 = True" | "entry H_put_challenges_1 = True"
| "entry H_delete_challenges_1 = True" | "entry H_post_answers_1 = True" | "entry H_get_answers_1 = True"
| "entry H_get_own_answers_1 = True" | "entry H_get_users_1 = True" | "entry H_signup_1 = True"
| "entry H_login_1 = True" | "entry H_logout_1 = True" | "entry h = False"

fun guarded :: "handler \<Rightarrow> bool" where
  "guarded H_get_own_challenges_1 = True" | "guarded H_post_challenges_1 = True" | "guarded H_put_challenges_1 = True"
| "guarded H_delete_challenges_1 = True" | "guarded H_post_answers_1 = True" | "guarded H_get_own_answers_1 = True"
| "guarded H_logout_1 = True" | "guarded h = False"

text \<open>A chain of the server is a handler with its successors, behind the authentication or not.\<close>

definition chain_shape :: "handler list \<Rightarrow> bool" where
  "chain_shape ch \<longleftrightarrow> (\<exists>h. entry h \<and> ch = (if guarded h then [H_auth_1, H_auth_2] else []) @ h # tail_of h)"

lemmas chain_defs = auth_chain_def own_challenges_chain_def post_challenges_chain_def put_challenges_chain_def
  delete_challenges_chain_def post_answers_chain_def own_answers_chain_def logout_chain_def signup_chain_def
  login_chain_def answers_chain_def users_chain_def

lemma server_routes_list:
  "map (\<lambda>r. (route_method r, route_path r, route_handler r)) server_routes =
     [(HTTP_METHOD_GET, ''/'', [H_root]),
      (HTTP_METHOD_GET, ''/hello'', [H_hello_1, H_hello_2]),
      (HTTP_METHOD_GET, ''/challenges'', [H_get_challenges_1, H_get_challenges_2]),
      (HTTP_METHOD_GET, ''/challenges/me'', own_challenges_chain),
      (HTTP_METHOD_POST, ''/challenges'', post_challenges_chain),
      (HTTP_METHOD_PUT, ''/challenges'', put_challenges_chain),
      (HTTP_METHOD_DELETE, ''/challenges'', delete_challenges_chain),
      (HTTP_METHOD_POST, ''/answers'', post_answers_chain),
      (HTTP_METHOD_GET, ''/answers'', answers_chain),
      (HTTP_METHOD_GET, ''/answers/me'', own_answers_chain),
      (HTTP_METHOD_POST, ''/signup'', signup_chain),
      (HTTP_METHOD_POST, ''/login'', login_chain),
      (HTTP_METHOD_POST, ''/logout'', logout_chain),
      (HTTP_METHOD_GET, ''/users'', users_chain)]"
  by code_simp

lemma server_chains: "r \<in> set server_routes \<Longrightarrow> chain_shape (route_handler r)"
proof -
  assume "r \<in> set server_routes"
  then have "(route_method r, route_path r, route_handler r) \<in>
      set (map (\<lambda>r. (route_method r, route_path r, route_handler r)) server_routes)" by auto
  then have "route_handler r \<in> {[H_root], [H_hello_1, H_hello_2], [H_get_challenges_1, H_get_challenges_2],
      own_challenges_chain, post_challenges_chain, put_challenges_chain, delete_challenges_chain, post_answers_chain,
      answers_chain, own_answers_chain, signup_chain, login_chain, logout_chain, users_chain}"
    unfolding server_routes_list by auto
  moreover have "\<forall>ch \<in> {[H_root], [H_hello_1, H_hello_2], [H_get_challenges_1, H_get_challenges_2],
      own_challenges_chain, post_challenges_chain, put_challenges_chain, delete_challenges_chain, post_answers_chain,
      answers_chain, own_answers_chain, signup_chain, login_chain, logout_chain, users_chain}. \<exists>h \<in> set ch.
      entry h \<and> ch = (if guarded h then [H_auth_1, H_auth_2] else []) @ h # tail_of h"
    by (simp add: chain_defs)
  ultimately show ?thesis unfolding chain_shape_def by blast
qed

section \<open>Submissions and data\<close>

text \<open>What a handler waits for, and the data it then finds.\<close>

fun sends :: "handler \<Rightarrow> submission \<Rightarrow> bool" where
  "sends H_get_challenges_2 s \<longleftrightarrow> s = Query SELECT_PUBLIC"
| "sends H_get_own_challenges_2 s \<longleftrightarrow> s = Query SELECT_CHALLENGES"
| "sends H_post_challenges_2 s \<longleftrightarrow> (\<exists>c n d f g. s = Param_query INSERT_CHALLENGE
     [string_param c, string_param n, string_param d, string_param f, DB_PARAM_INT64 g])"
| "sends H_put_challenges_2 s \<longleftrightarrow> s = Query SELECT_OWNERS"
| "sends H_put_challenges_3 s \<longleftrightarrow> (\<exists>ps. s = Param_query UPDATE_CHALLENGE ps)"
| "sends H_put_challenges_4 s \<longleftrightarrow> s = Query SELECT_OWNERS"
| "sends H_delete_challenges_2 s \<longleftrightarrow> s = Query SELECT_OWNERS"
| "sends H_delete_challenges_3 s \<longleftrightarrow> (\<exists>ps. s = Param_query DELETE_CHALLENGE ps)"
| "sends H_delete_challenges_4 s \<longleftrightarrow> s = Query SELECT_OWNERS"
| "sends H_post_answers_2 s \<longleftrightarrow> s = Query SELECT_CHALLENGES"
| "sends H_post_answers_3 s \<longleftrightarrow> (\<exists>ps. s = Param_query INSERT_ANSWER ps)"
| "sends H_post_answers_4 s \<longleftrightarrow> s = Query SELECT_ANSWERS"
| "sends H_post_answers_5 s \<longleftrightarrow> s = Query SELECT_CHALLENGES"
| "sends H_get_answers_2 s \<longleftrightarrow> s = Query SELECT_CHALLENGES"
| "sends H_get_answers_3 s \<longleftrightarrow> s = Query SELECT_ANSWERS"
| "sends H_get_own_answers_2 s \<longleftrightarrow> s = Query SELECT_CHALLENGES"
| "sends H_get_own_answers_3 s \<longleftrightarrow> s = Query SELECT_ANSWERS"
| "sends H_get_users_2 s \<longleftrightarrow> s = Query SELECT_USERS"
| "sends H_get_users_3 s \<longleftrightarrow> s = Query SELECT_SCORES"
| "sends H_signup_2 s \<longleftrightarrow> s = Query USERS_QUERY"
| "sends H_signup_3 s \<longleftrightarrow> (\<exists>pw. s = Password PASSWORD_HASH pw None)"
| "sends H_signup_4 s \<longleftrightarrow> (\<exists>ps. s = Param_query INSERT_USER ps)"
| "sends H_signup_5 s \<longleftrightarrow> s = Query USERS_QUERY"
| "sends H_login_2 s \<longleftrightarrow> s = Query USERS_QUERY"
| "sends H_login_3 s \<longleftrightarrow> (\<exists>pw h. s = Password PASSWORD_VERIFY pw h)"
| "sends H_login_4 s \<longleftrightarrow> s = Param_query DELETE_EXPIRED []"
| "sends H_login_5 s \<longleftrightarrow> (\<exists>ps. s = Param_query INSERT_SESSION ps)"
| "sends H_auth_2 s \<longleftrightarrow> s = Query AUTH_SESSIONS_QUERY"
| "sends H_logout_2 s \<longleftrightarrow> (\<exists>ps. s = Param_query DELETE_SESSION ps)"
| "sends H_hello_2 s \<longleftrightarrow> s = Query ''SELECT * FROM challenges;''"
| "sends h s \<longleftrightarrow> False"

definition auth_data :: "app_data \<Rightarrow> bool" where
  "auth_data d \<longleftrightarrow> (\<exists>st. d = Auth_data st \<and> auth_username (st_input st) \<noteq> None)"

definition write_data :: "app_data \<Rightarrow> bool" where
  "write_data d \<longleftrightarrow> (\<exists>st. d = Write_data st \<and> 0 \<le> write_id st)"

fun finds :: "handler \<Rightarrow> app_data \<Rightarrow> bool" where
  "finds H_put_challenges_2 d \<longleftrightarrow> write_data d"
| "finds H_put_challenges_3 d \<longleftrightarrow> write_data d"
| "finds H_put_challenges_4 d \<longleftrightarrow> write_data d"
| "finds H_delete_challenges_2 d \<longleftrightarrow> (\<exists>st. d = Write_data st)"
| "finds H_delete_challenges_3 d \<longleftrightarrow> (\<exists>st. d = Write_data st)"
| "finds H_delete_challenges_4 d \<longleftrightarrow> (\<exists>st. d = Write_data st)"
| "finds H_post_answers_2 d \<longleftrightarrow> (\<exists>st. d = Submit_data st)"
| "finds H_post_answers_3 d \<longleftrightarrow> (\<exists>st. d = Submit_data st)"
| "finds H_post_answers_4 d \<longleftrightarrow> (\<exists>st. d = Submit_data st)"
| "finds H_post_answers_5 d \<longleftrightarrow> (\<exists>st. d = Submit_data st)"
| "finds H_get_answers_2 d \<longleftrightarrow> (\<exists>i. d = List_data i)"
| "finds H_get_answers_3 d \<longleftrightarrow> (\<exists>i. d = List_data i)"
| "finds H_get_own_answers_2 d \<longleftrightarrow> (\<exists>i. d = List_data i)"
| "finds H_get_own_answers_3 d \<longleftrightarrow> (\<exists>i. d = List_data i)"
| "finds H_get_users_2 d \<longleftrightarrow> (\<exists>us. d = Users_data us)"
| "finds H_get_users_3 d \<longleftrightarrow> (\<exists>us. d = Users_data us)"
| "finds H_signup_2 d \<longleftrightarrow> auth_data d"
| "finds H_signup_3 d \<longleftrightarrow> auth_data d"
| "finds H_signup_4 d \<longleftrightarrow> auth_data d"
| "finds H_signup_5 d \<longleftrightarrow> auth_data d"
| "finds H_login_2 d \<longleftrightarrow> auth_data d"
| "finds H_login_3 d \<longleftrightarrow> auth_data d"
| "finds H_login_4 d \<longleftrightarrow> auth_data d"
| "finds H_login_5 d \<longleftrightarrow> auth_data d"
| "finds h d \<longleftrightarrow> True"

lemma json_to_auth_request_username:
  "json_to_auth_request m b = Some (0, input) \<Longrightarrow> auth_username input \<noteq> None"
  using json_to_auth_request_cases[of m b] by auto

definition configured :: "auth_runtime option \<Rightarrow> bool" where
  "configured rt \<longleftrightarrow> (\<exists>r config. rt = Some r \<and> rt_config r = Some config)"

lemma read_credentials_state:
  "read_credentials env ctx = Some (Inr st) \<Longrightarrow>
    \<not> found_user st \<and> json_to_auth_request (parse_mem env) (req_body ctx) = Some (0, st_input st) \<and>
    auth_username (st_input st) \<noteq> None \<and> configured (runtime env)"
  using json_to_auth_request_username
  by (auto simp: read_credentials_def zero_auth_state_def configured_def bind_eq_Some_conv split: option.splits if_splits)

lemma number_nonneg: "0 \<le> v \<Longrightarrow> 0 \<le> number v s"
  using number_ge[of v s] by simp

lemma read_challenge_id_nonneg:
  "read_challenge_id ps found = Some i \<Longrightarrow> (\<forall>j. found = Some j \<longrightarrow> 0 \<le> j) \<Longrightarrow> 0 \<le> i"
  by (induction ps found rule: read_challenge_id.induct)
    (auto simp: parse_challenge_id_def bounded_loop_correct number_nonneg split: if_splits option.splits)

lemma new_challenge_write_state_data:
  "new_challenge_write_state env ctx = Inr st \<Longrightarrow> write_data (Write_data (st\<lparr>write_input := x\<rparr>))"
  using read_challenge_id_nonneg[of "req_params ctx" None]
  by (auto simp: new_challenge_write_state_def write_data_def split: option.splits if_splits)

lemma run_plain_post:
  assumes "chain ctx = h # tail_of h" "finds h (app ctx)" "h \<noteq> H_auth_1"
  shows "post (run_plain h env ev ctx) (\<lambda>s ctx'. (\<exists>h'. chain ctx' = h' # tail_of h' \<and> \<not> entry h' \<and> h' \<notin> {H_auth_1, H_auth_2} \<and>
     sends h' s \<and> finds h' (app ctx')))"
  using assms
  by (cases h) (auto simp: handler_defs Let_def print_response_def auth_data_def has_next_def dest: read_credentials_state
      intro: new_challenge_write_state_data
      split: option.split sum.split event.split auth_result.split prod.split)

section \<open>The calls so far\<close>

text \<open>
  The first two calls of a login: the credentials were read from the body, and the password was
  handed to the worker with the hash of the user of this name, or with none.
\<close>

definition password_asked :: "call \<Rightarrow> call \<Rightarrow> http_context \<Rightarrow> auth_state \<Rightarrow> bool" where
  "password_asked c1 c2 ctx st \<longleftrightarrow> (\<exists>env1 ev1 env2 task cred users.
     c1 = (env1, ev1, Query USERS_QUERY) \<and> json_to_auth_request (parse_mem env1) (req_body ctx) = Some (0, cred) \<and>
     bind_users (bind_mem env2) (Some (task_result task)) = Some users \<and>
     auth_username (st_input st) = auth_username cred \<and>
     (let found = find (\<lambda>u. Some (usr_name u) = auth_username cred) users in
      found_user st = (found \<noteq> None) \<and> (found \<noteq> None \<longrightarrow> st_user_id st = usr_id (the found)) \<and>
      c2 = (env2, Db_done task, Password PASSWORD_VERIFY (auth_password cred) (map_option usr_hash found))))"

text \<open>The fourth call: a token was issued and its session is being stored.\<close>

definition session_submitted :: "auth_runtime option \<Rightarrow> call \<Rightarrow> auth_state \<Rightarrow> bool" where
  "session_submitted rt c st \<longleftrightarrow> (\<exists>r config env task i tok.
     rt = Some r \<and> rt_config r = Some config \<and>
     auth_token_issue (e_libs env) config (Some (cstr (st_user_id st))) (Some (cstr i)) (now env) = (AUTH_OK, Some tok) \<and>
     st_response st = take (AUTH_TOKEN_MAX + 63) (login_text tok) @ [CHR 0x00] \<and> response_len st = length (login_text tok) \<and>
     c = (env, Db_done task, Param_query INSERT_SESSION [DB_PARAM_STRING (Some i) AUTH_ID_LENGTH,
       DB_PARAM_STRING (Some (st_user_id st)) AUTH_ID_LENGTH, DB_PARAM_INT64 (now env), DB_PARAM_INT64 (now env + ttl config)]))"

text \<open>The call that changes a challenge: its owner is the user, by the rows that the call before it selected.\<close>

definition owner_checked :: "call \<Rightarrow> http_context \<Rightarrow> challenge_write_state \<Rightarrow> submission \<Rightarrow> bool" where
  "owner_checked c ctx st s \<longleftrightarrow> (\<exists>env task. c = (env, Db_done task, s) \<and>
     challenge_write_access (Some (task_result task)) (write_id st) (auth_request_user ctx) = HTTP_STATUS_OK)"

definition update_submission :: "http_context \<Rightarrow> challenge_write_state \<Rightarrow> submission" where
  "update_submission ctx st = Param_query UPDATE_CHALLENGE [string_param (req_name (write_input st)),
     string_param (req_description (write_input st)), string_param (req_flag (write_input st)),
     DB_PARAM_INT64 (int_of_genre (req_genre (write_input st))), DB_PARAM_INT64 (write_id st), user_param (auth_request_user ctx)]"

definition delete_submission :: "http_context \<Rightarrow> challenge_write_state \<Rightarrow> submission" where
  "delete_submission ctx st =
     Param_query DELETE_CHALLENGE [DB_PARAM_INT64 (write_id st), user_param (auth_request_user ctx)]"

text \<open>The number and, for an update, the new values are those of the request.\<close>

definition write_requested :: "bool \<Rightarrow> env \<Rightarrow> http_context \<Rightarrow> challenge_write_state \<Rightarrow> bool" where
  "write_requested input env ctx st \<longleftrightarrow> read_challenge_id (req_params ctx) None = Some (write_id st) \<and>
     (input \<longrightarrow> json_to_create_challenge_request (parse_mem env) (req_body ctx) = (0, write_input st))"

text \<open>The call that records an answer: it was compared with the flag of the selected challenge.\<close>

definition answer_compared :: "call \<Rightarrow> http_context \<Rightarrow> submit_answer_request \<Rightarrow> bool" where
  "answer_compared c ctx rq \<longleftrightarrow> (\<exists>env task correct cs ch.
     c = (env, Db_done task, Param_query INSERT_ANSWER [DB_PARAM_INT64 (int (sub_challenge_id rq)),
       user_param (auth_request_user ctx), string_param (sub_answer rq), DB_PARAM_INT64 correct]) \<and>
     bind_challenges (bind_mem env) (Some (task_result task)) = Some cs \<and>
     find (\<lambda>c. ch_id c = int (sub_challenge_id rq)) cs = Some ch \<and>
     json_string_equal_decoded (Some (flag ch)) (Some (sub_answer rq)) = correct \<and> 0 \<le> correct)"

fun trail :: "auth_runtime option \<Rightarrow> call list \<Rightarrow> http_context \<Rightarrow> handler \<Rightarrow> bool" where
  "trail rt calls ctx H_login_1 \<longleftrightarrow> calls = []"
| "trail rt calls ctx H_login_2 \<longleftrightarrow> configured rt \<and> (\<exists>env ev st. calls = [(env, ev, Query USERS_QUERY)] \<and> app ctx = Auth_data st \<and>
     \<not> found_user st \<and> json_to_auth_request (parse_mem env) (req_body ctx) = Some (0, st_input st))"
| "trail rt calls ctx H_login_3 \<longleftrightarrow> configured rt \<and> (\<exists>c1 c2 st. calls = [c1, c2] \<and> app ctx = Auth_data st \<and> password_asked c1 c2 ctx st)"
| "trail rt calls ctx H_login_4 \<longleftrightarrow> configured rt \<and> (\<exists>c1 c2 env h st.
     calls = [c1, c2, (env, Password_done AUTH_OK False h, Param_query DELETE_EXPIRED [])] \<and>
     app ctx = Auth_data st \<and> found_user st \<and> password_asked c1 c2 ctx st)"
| "trail rt calls ctx H_login_5 \<longleftrightarrow> (\<exists>c1 c2 c4 env h st.
     calls = [c1, c2, (env, Password_done AUTH_OK False h, Param_query DELETE_EXPIRED []), c4] \<and>
     app ctx = Auth_data st \<and> found_user st \<and> password_asked c1 c2 ctx st \<and> session_submitted rt c4 st)"
| "trail rt calls ctx H_put_challenges_1 \<longleftrightarrow> (\<exists>c. calls = [c])"
| "trail rt calls ctx H_put_challenges_2 \<longleftrightarrow> (\<exists>c env ev st. calls = [c, (env, ev, Query SELECT_OWNERS)] \<and>
     app ctx = Write_data st \<and> write_requested True env ctx st)"
| "trail rt calls ctx H_put_challenges_3 \<longleftrightarrow> (\<exists>c env ev c3 st. calls = [c, (env, ev, Query SELECT_OWNERS), c3] \<and>
     app ctx = Write_data st \<and> write_requested True env ctx st \<and> owner_checked c3 ctx st (update_submission ctx st))"
| "trail rt calls ctx H_delete_challenges_1 \<longleftrightarrow> (\<exists>c. calls = [c])"
| "trail rt calls ctx H_delete_challenges_2 \<longleftrightarrow> (\<exists>c env ev st. calls = [c, (env, ev, Query SELECT_OWNERS)] \<and>
     app ctx = Write_data st \<and> write_requested False env ctx st)"
| "trail rt calls ctx H_delete_challenges_3 \<longleftrightarrow> (\<exists>c env ev c3 st. calls = [c, (env, ev, Query SELECT_OWNERS), c3] \<and>
     app ctx = Write_data st \<and> write_requested False env ctx st \<and> owner_checked c3 ctx st (delete_submission ctx st))"
| "trail rt calls ctx H_post_answers_1 \<longleftrightarrow> (\<exists>c. calls = [c])"
| "trail rt calls ctx H_post_answers_2 \<longleftrightarrow> (\<exists>c env ev st. calls = [c, (env, ev, Query SELECT_CHALLENGES)] \<and>
     app ctx = Submit_data st \<and> json_to_submit_answer_request (parse_mem env) (req_body ctx) = (0, submit_input st))"
| "trail rt calls ctx H_post_answers_3 \<longleftrightarrow> (\<exists>c env ev c3 st. calls = [c, (env, ev, Query SELECT_CHALLENGES), c3] \<and>
     app ctx = Submit_data st \<and> json_to_submit_answer_request (parse_mem env) (req_body ctx) = (0, submit_input st) \<and>
     answer_compared c3 ctx (submit_input st))"
| "trail rt calls ctx h \<longleftrightarrow> True"

lemma auth_request_user_app [simp]: "auth_request_user (next_handler (ctx\<lparr>app := d\<rparr>)) = auth_request_user ctx"
  "auth_request_user (next_handler ctx) = auth_request_user ctx" "auth_request_user (ctx\<lparr>app := d\<rparr>) = auth_request_user ctx"
  by (simp_all add: auth_request_user_def)

lemma db_result_of_Some: "db_result_of ev = Some r \<longleftrightarrow> (\<exists>task. ev = Db_done task \<and> r = task_result task)"
  by (auto simp: db_result_of_def split: event.splits)

text \<open>Only a finished task brings a result.\<close>

lemma bound_event:
  "bind_users b (db_result_of ev) = Some users \<longleftrightarrow> (\<exists>task. ev = Db_done task \<and> bind_users b (Some (task_result task)) = Some users)"
  "bind_challenges b (db_result_of ev) = Some cs \<longleftrightarrow>
    (\<exists>task. ev = Db_done task \<and> bind_challenges b (Some (task_result task)) = Some cs)"
  "bind_auth_sessions b (db_result_of ev) = Some ss \<longleftrightarrow>
    (\<exists>task. ev = Db_done task \<and> bind_auth_sessions b (Some (task_result task)) = Some ss)"
  "challenge_write_access (db_result_of ev) n u = HTTP_STATUS_OK \<longleftrightarrow>
    (\<exists>task. ev = Db_done task \<and> challenge_write_access (Some (task_result task)) n u = HTTP_STATUS_OK)"
  by (auto simp: db_result_of_def bind_users_def bind_challenges_def bind_challenges_impl_def bind_auth_sessions_def
      bind_result_def challenge_write_access_def split: event.splits)

lemma db_result_of_done [simp]: "db_result_of (Db_done task) = Some (task_result task)"
  by (simp add: db_result_of_def)

definition extends ::
  "auth_runtime option \<Rightarrow> call list \<Rightarrow> env \<Rightarrow> event \<Rightarrow> submission \<Rightarrow> http_context \<Rightarrow> bool" where
  "extends rt calls env ev s ctx \<longleftrightarrow> trail rt (calls @ [(env, ev, s)]) ctx (hd (chain ctx))"

lemma login_trail:
  assumes "trail rt calls ctx h" "chain ctx = h # tail_of h" "runtime env = rt" "h \<in> {H_login_1, H_login_2, H_login_3, H_login_4}"
    and "h = H_login_1 \<or> ev = ev'"
  shows "post (run_plain h env ev ctx) (extends rt calls env ev')"
proof -
  consider "h = H_login_1" | "h = H_login_2" "ev = ev'" | "h = H_login_3" "ev = ev'" | "h = H_login_4" "ev = ev'"
    using assms(4,5) by blast
  then show ?thesis
  proof cases
    case 1
    then show ?thesis using assms
      by (auto simp: handler_defs extends_def zero_auth_state_def dest!: read_credentials_state split: sum.split)
  next
    case 2
    then obtain env1 ev1 st where c: "calls = [(env1, ev1, Query USERS_QUERY)]" "app ctx = Auth_data st" "\<not> found_user st"
      "json_to_auth_request (parse_mem env1) (req_body ctx) = Some (0, st_input st)"
      and conf: "configured rt"
      using assms(1) by auto
    have n: "same_name st = (\<lambda>u. Some (usr_name u) = auth_username (st_input st))" by (auto simp: same_name_def)
    have "extends rt calls env ev' (Password PASSWORD_VERIFY (auth_password (st_input st)) (map_option usr_hash found))
        (next_handler (ctx\<lparr>app := Auth_data (st'\<lparr>st_input := (st_input st')\<lparr>auth_password := None\<rparr>\<rparr>)\<rparr>))"
      if "bind_users (bind_mem env) (db_result_of ev) = Some users" "find (same_name st) users = found"
        "st' = (case found of None \<Rightarrow> st | Some u \<Rightarrow> st\<lparr>st_user_id := usr_id u, found_user := True\<rparr>)" for users found st'
    proof -
      from that(1)[unfolded bound_event(1)] obtain task where t: "ev = Db_done task" by blast
      have "password_asked (env1, ev1, Query USERS_QUERY)
          (env, ev, Password PASSWORD_VERIFY (auth_password (st_input st)) (map_option usr_hash found)) ctx
          (st'\<lparr>st_input := (st_input st')\<lparr>auth_password := None\<rparr>\<rparr>)"
        unfolding password_asked_def
        by (intro exI[of _ env1] exI[of _ ev1] exI[of _ env] exI[of _ task] exI[of _ "st_input st"] exI[of _ users])
          (use c(3,4) that t n in \<open>simp split: option.split\<close>)
      then show ?thesis using 2 c conf assms(2) by (simp add: extends_def password_asked_def)
    qed
    then show ?thesis using 2 c(2)
      by (simp add: handler_defs split: option.split) fastforce
  next
    case 3
    then show ?thesis using assms
      by (auto simp: handler_defs Let_def extends_def password_asked_def split: event.split)
  next
    case 4
    then show ?thesis using assms
      by (auto simp: handler_defs Let_def extends_def password_asked_def session_submitted_def print_response_def
          db_result_of_Some split: option.split_asm option.split auth_result.split prod.split)
  qed
qed

lemma challenge_trail:
  assumes "trail rt calls ctx h" "chain ctx = h # tail_of h"
    and "h \<in> {H_put_challenges_1, H_put_challenges_2, H_delete_challenges_1, H_delete_challenges_2}" "entry h \<or> ev = ev'"
  shows "post (run_plain h env ev ctx) (extends rt calls env ev')"
proof -
  consider "h = H_put_challenges_1" | "h = H_delete_challenges_1" | "h = H_put_challenges_2" "ev = ev'" |
    "h = H_delete_challenges_2" "ev = ev'"
    using assms(3,4) by auto
  then show ?thesis
  proof cases
    case 1
    then show ?thesis using assms(1,2)
      by (auto simp: handler_defs extends_def new_challenge_write_state_def write_requested_def split: option.splits if_splits prod.split)
  next
    case 2
    then show ?thesis using assms(1,2)
      by (auto simp: handler_defs extends_def new_challenge_write_state_def write_requested_def split: option.splits if_splits)
  next
    case 3
    then show ?thesis using assms(1,2)
      by (auto simp: handler_defs Let_def extends_def owner_checked_def update_submission_def write_requested_def
          bound_event(4))
  next
    case 4
    then show ?thesis using assms(1,2)
      by (auto simp: handler_defs Let_def extends_def owner_checked_def delete_submission_def write_requested_def
          bound_event(4))
  qed
qed

lemma answer_trail:
  assumes "trail rt calls ctx h" "chain ctx = h # tail_of h"
    and "h \<in> {H_post_answers_1, H_post_answers_2}" "entry h \<or> ev = ev'"
  shows "post (run_plain h env ev ctx) (extends rt calls env ev')"
proof -
  consider "h = H_post_answers_1" | "h = H_post_answers_2" "ev = ev'"
    using assms(3,4) by auto
  then show ?thesis
  proof cases
    case 1
    then show ?thesis using assms(1,2)
      by (auto simp: handler_defs extends_def split: prod.split)
  next
    case 2
    then show ?thesis using assms(1,2)
      by (auto simp: handler_defs extends_def answer_compared_def answer_correct_def bound_challenges_def
          bound_event(2) not_less split: option.split prod.split)
  qed
qed

lemma run_plain_trail:
  assumes "trail rt calls ctx h" "chain ctx = h # tail_of h" "runtime env = rt" "h \<noteq> H_auth_1" "entry h \<or> ev = ev'"
  shows "post (run_plain h env ev ctx) (extends rt calls env ev')"
proof -
  consider "h \<in> {H_login_1, H_login_2, H_login_3, H_login_4}"
    | "h \<in> {H_put_challenges_1, H_put_challenges_2, H_delete_challenges_1, H_delete_challenges_2}"
    | "h \<in> {H_post_answers_1, H_post_answers_2}"
    | "h \<notin> {H_login_1, H_login_2, H_login_3, H_login_4, H_put_challenges_1, H_put_challenges_2, H_delete_challenges_1,
        H_delete_challenges_2, H_post_answers_1, H_post_answers_2}" by blast
  then show ?thesis
  proof cases
    case 1
    moreover have "h = H_login_1 \<or> ev = ev'" using 1 assms(5) by auto
    ultimately show ?thesis using login_trail assms by blast
  next
    case 2
    then show ?thesis using challenge_trail assms by blast
  next
    case 3
    then show ?thesis using answer_trail assms by blast
  next
    case 4
    then show ?thesis using assms(2,4)
      by (cases h) (simp_all add: handler_defs Let_def extends_def
          split: option.split sum.split event.split auth_result.split prod.split)
  qed
qed

section \<open>Authentication\<close>

text \<open>A first call accepts the token that the request presents, and a second finds its session.\<close>

definition token_accepted :: "auth_runtime option \<Rightarrow> env \<Rightarrow> http_context \<Rightarrow> auth_claims \<Rightarrow> bool" where
  "token_accepted rt env ctx c \<longleftrightarrow> (\<exists>r config tok. rt = Some r \<and> rt_config r = Some config \<and>
     presented_token ctx = Some tok \<and> auth_token_verify (e_libs env) config (Some tok) (now env) = (AUTH_OK, c))"

definition session_confirmed :: "env \<Rightarrow> db_task \<Rightarrow> auth_claims \<Rightarrow> bool" where
  "session_confirmed env task c \<longleftrightarrow> (\<exists>sessions.
     bind_auth_sessions (bind_mem env) (Some (task_result task)) = Some sessions \<and> list_ex (session_matches c) sessions \<and>
     0 \<le> now env \<and> now env < expires_at c + AUTH_CLOCK_SKEW \<and> not_before c \<le> now env + AUTH_CLOCK_SKEW)"

definition authenticated :: "auth_runtime option \<Rightarrow> call list \<Rightarrow> http_context \<Rightarrow> auth_claims \<Rightarrow> bool" where
  "authenticated rt calls ctx c \<longleftrightarrow> (\<exists>env1 env2 task s rest.
     calls = (env1, Start, Query AUTH_SESSIONS_QUERY) # (env2, Db_done task, s) # rest \<and>
     token_accepted rt env1 ctx c \<and> session_confirmed env2 task c \<and>
     identity ctx = Some \<lparr>claims = c, verified = True\<rparr>)"

lemma authenticated_later:
  "authenticated rt calls ctx c \<Longrightarrow> same_request ctx ctx' \<Longrightarrow> authenticated rt (calls @ [x]) ctx' c"
  by (auto simp: authenticated_def same_request_def token_accepted_def presented_token_def)

lemma token_accepted_request:
  "token_accepted rt env ctx c \<Longrightarrow> req_headers ctx' = req_headers ctx \<Longrightarrow> token_accepted rt env ctx' c"
  by (simp add: token_accepted_def presented_token_def)

lemma auth_1_post:
  assumes "runtime env = rt"
  shows "post (handle_auth_1 env ctx) (\<lambda>s ctx'. s = Query AUTH_SESSIONS_QUERY \<and> chain ctx' = tl (chain ctx) \<and>
    (\<exists>c. identity ctx' = Some \<lparr>claims = c, verified = False\<rparr> \<and> token_accepted rt env ctx' c))"
  using assms
  by (auto simp: handle_auth_1_def token_accepted_def presented_token_def split: option.split auth_result.split prod.split)

lemma auth_2_post:
  assumes "identity ctx = Some i"
    "\<And>task. ev = Db_done task \<Longrightarrow> session_confirmed env task (claims i) \<Longrightarrow>
      post (run (next_handler (ctx\<lparr>identity := Some (i\<lparr>verified := True\<rparr>)\<rparr>))) P"
  shows "post (handle_auth_2 run env ev ctx) P"
  using assms by (auto simp: handle_auth_2_def bound_event(3) Let_def session_confirmed_def split: option.split)

section \<open>The invariant of a life\<close>

definition waits_for_session :: "auth_runtime option \<Rightarrow> call list \<Rightarrow> http_context \<Rightarrow> bool" where
  "waits_for_session rt calls ctx \<longleftrightarrow> (\<exists>env c h. calls = [(env, Start, Query AUTH_SESSIONS_QUERY)] \<and>
     chain ctx = H_auth_2 # h # tail_of h \<and> entry h \<and> guarded h \<and>
     token_accepted rt env ctx c \<and> identity ctx = Some \<lparr>claims = c, verified = False\<rparr>)"

definition waits_in_chain :: "auth_runtime option \<Rightarrow> call list \<Rightarrow> http_context \<Rightarrow> bool" where
  "waits_in_chain rt calls ctx \<longleftrightarrow> (\<exists>h. chain ctx = h # tail_of h \<and> \<not> entry h \<and> h \<notin> {H_auth_1, H_auth_2} \<and> calls \<noteq> [] \<and>
     sends h (submitted (last calls)) \<and> finds h (app ctx) \<and> trail rt calls ctx h)"

definition waiting :: "auth_runtime option \<Rightarrow> handler list \<Rightarrow> call list \<Rightarrow> http_context \<Rightarrow> bool" where
  "waiting rt ch calls ctx \<longleftrightarrow> suffix (chain ctx) ch \<and> length calls + length (chain ctx) \<le> length ch \<and>
     (waits_for_session rt calls ctx \<or>
      waits_in_chain rt calls ctx \<and> (take 2 ch = [H_auth_1, H_auth_2] \<longrightarrow> (\<exists>c. authenticated rt calls ctx c)))"

lemma suffix_successors: "suffix (tl xs) xs" "suffix (tl (tl xs)) xs"
  by (cases xs; cases "tl xs"; auto simp: suffix_Cons)+

lemma run_plain_step:
  assumes "chain ctx = h # tail_of h" "finds h (app ctx)" "trail rt calls ctx h" "runtime env = rt" "h \<noteq> H_auth_1"
    "entry h \<or> ev = ev'"
  shows "post (run_plain h env ev ctx) (\<lambda>s ctx'. waits_in_chain rt (calls @ [(env, ev', s)]) ctx' \<and> same_request ctx ctx' \<and>
     suffix (chain ctx') (chain ctx) \<and> length (chain ctx') < length (chain ctx))"
  unfolding post_def
proof (intro allI impI)
  fix s ctx'
  assume r: "run_plain h env ev ctx = Some (Await s ctx')"
  have f: "same_request ctx ctx'" "chain ctx' = tl (chain ctx) \<or> chain ctx' = tl (tl (chain ctx))"
    using run_plain_frame[OF assms(5), of env ev ctx] r by (simp_all add: post_def)
  have p: "\<exists>h'. chain ctx' = h' # tail_of h' \<and> \<not> entry h' \<and> h' \<notin> {H_auth_1, H_auth_2} \<and> sends h' s \<and> finds h' (app ctx')"
    using run_plain_post[OF assms(1,2,5), of env ev] r by (simp add: post_def)
  have t: "extends rt calls env ev' s ctx'"
    using run_plain_trail[OF assms(3,1,4,5,6)] r by (simp add: post_def)
  have "waits_in_chain rt (calls @ [(env, ev', s)]) ctx'"
    using p t by (auto simp: waits_in_chain_def extends_def submitted_def)
  moreover have "suffix (chain ctx') (chain ctx)" using f(2) suffix_successors[of "chain ctx"] by auto
  moreover have "length (chain ctx') < length (chain ctx)" using f(2) assms(1) by auto
  ultimately show "waits_in_chain rt (calls @ [(env, ev', s)]) ctx' \<and> same_request ctx ctx' \<and>
     suffix (chain ctx') (chain ctx) \<and> length (chain ctx') < length (chain ctx)" using f(1) by blast
qed

lemma entry_finds: "entry h \<Longrightarrow> finds h d"
  by (cases h) simp_all

lemma entry_auth: "entry h \<Longrightarrow> h \<notin> {H_auth_1, H_auth_2}"
  by auto

lemma entry_trail: "entry h \<Longrightarrow> trail rt (if guarded h then [c] else []) ctx h"
  by (cases c; cases h) simp_all

lemma life_waiting:
  assumes "life rt ch calls ctx" "chain_shape ch"
  shows "waiting rt ch calls ctx"
  using assms
proof (induction rule: life.induct)
  case (first ctx env s ctx')
  obtain h where h: "entry h" "ch = (if guarded h then [H_auth_1, H_auth_2] else []) @ h # tail_of h"
    using first.prems by (auto simp: chain_shape_def)
  have c: "chain ctx = ch" using first.hyps(1) by (simp add: fresh_context_def)
  show ?case
  proof (cases "guarded h")
    case True
    then have "handle_auth_1 env ctx = Some (Await s ctx')" using first.hyps(3) c h(2) by (simp add: run_handler_def)
    then have "s = Query AUTH_SESSIONS_QUERY" "chain ctx' = tl ch"
      "\<exists>c. identity ctx' = Some \<lparr>claims = c, verified = False\<rparr> \<and> token_accepted rt env ctx' c"
      using auth_1_post[OF first.hyps(2), of ctx] c by (simp_all add: post_def)
    then show ?thesis using h True by (auto simp: waiting_def waits_for_session_def suffix_def)
  next
    case False
    note e = entry_finds[OF h(1)] entry_auth[OF h(1)] entry_trail[OF h(1)]
    have "run_plain h env Start ctx = Some (Await s ctx')" "chain ctx = h # tail_of h"
      using first.hyps(3) c h(2) False e(2) by (simp_all add: run_handler_def)
    then have "waits_in_chain rt [(env, Start, s)] ctx'" "suffix (chain ctx') ch" "length (chain ctx') < length ch"
      using run_plain_step[of ctx h rt "[]" env Start Start] e False first.hyps(2) c by (simp_all add: post_def)
    moreover have "take 2 ch \<noteq> [H_auth_1, H_auth_2]" using h(2) e(2) False by auto
    ultimately show ?thesis by (simp add: waiting_def)
  qed
next
  case (later calls ctx ev env s ctx')
  note w = later.IH[OF later.prems]
  show ?case
  proof (cases "waits_for_session rt calls ctx")
    case True
    then obtain env1 c h where t: "calls = [(env1, Start, Query AUTH_SESSIONS_QUERY)]" "chain ctx = H_auth_2 # h # tail_of h"
      "entry h" "guarded h" "token_accepted rt env1 ctx c" "identity ctx = Some \<lparr>claims = c, verified = False\<rparr>"
      by (auto simp: waits_for_session_def)
    let ?ctx = "next_handler (ctx\<lparr>identity := Some \<lparr>claims = c, verified = True\<rparr>\<rparr>)"
    let ?run = "\<lambda>ctx. case chain ctx of [] \<Rightarrow> None | h # _ \<Rightarrow> run_plain h env Start ctx"
    have r: "handle_auth_2 ?run env ev ctx = Some (Await s ctx')" using later.hyps(4) t(2) by (simp add: run_handler_def)
    note e = entry_finds[OF t(3)] entry_auth[OF t(3)] entry_trail[OF t(3), of rt "(env1, Start, Query AUTH_SESSIONS_QUERY)"]
    have "post (handle_auth_2 ?run env ev ctx) (\<lambda>s ctx'. waits_in_chain rt (calls @ [(env, ev, s)]) ctx' \<and>
        suffix (chain ctx') (chain ctx) \<and> length (chain ctx') < length (chain ctx) \<and> authenticated rt (calls @ [(env, ev, s)]) ctx' c)"
    proof (rule auth_2_post[OF t(6)], unfold auth_identity.simps)
      fix task
      assume d: "ev = Db_done task" "session_confirmed env task c"
      have p: "post (run_plain h env Start ?ctx) (\<lambda>s ctx'. waits_in_chain rt (calls @ [(env, ev, s)]) ctx' \<and> same_request ?ctx ctx' \<and>
          suffix (chain ctx') (chain ?ctx) \<and> length (chain ctx') < length (chain ?ctx))"
        by (rule run_plain_step) (use t e later.hyps(3) in simp_all)
      have q: "authenticated rt (calls @ [(env, ev, s)]) ctx' c" if "same_request ?ctx ctx'" for s ctx'
      proof -
        have "token_accepted rt env1 ctx' c" by (rule token_accepted_request[OF t(5)]) (use that in \<open>simp add: same_request_def\<close>)
        moreover have "identity ctx' = Some \<lparr>claims = c, verified = True\<rparr>" using that by (simp add: same_request_def)
        ultimately show ?thesis unfolding authenticated_def t(1) d(1) using d(2) by auto
      qed
      have f: "suffix (chain ?ctx) (chain ctx)" "length (chain ?ctx) < length (chain ctx)"
        by (simp_all add: t(2) suffix_Cons)
      have r: "?run ?ctx = run_plain h env Start ?ctx" by (simp add: t(2))
      show "post (?run ?ctx) (\<lambda>s ctx'. waits_in_chain rt (calls @ [(env, ev, s)]) ctx' \<and>
          suffix (chain ctx') (chain ctx) \<and> length (chain ctx') < length (chain ctx) \<and> authenticated rt (calls @ [(env, ev, s)]) ctx' c)"
        unfolding r by (rule post_mono[OF p]) (use q f suffix_order.trans[OF _ f(1)] in auto)
    qed
    then have n: "waits_in_chain rt (calls @ [(env, ev, s)]) ctx'" "suffix (chain ctx') (chain ctx)"
      "length (chain ctx') < length (chain ctx)" "authenticated rt (calls @ [(env, ev, s)]) ctx' c"
      using r by (simp_all add: post_def)
    have "suffix (chain ctx) ch" "length calls + length (chain ctx) \<le> length ch" using w by (simp_all add: waiting_def)
    then show ?thesis using n(1,3,4) suffix_order.trans[OF n(2)] unfolding waiting_def by auto
  next
    case False
    then obtain h where t: "chain ctx = h # tail_of h" "h \<notin> {H_auth_1, H_auth_2}" "finds h (app ctx)" "trail rt calls ctx h"
      using w by (auto simp: waiting_def waits_in_chain_def)
    have "run_plain h env ev ctx = Some (Await s ctx')" using later.hyps(4) t(1,2) by (simp add: run_handler_def)
    then have "waits_in_chain rt (calls @ [(env, ev, s)]) ctx'" "same_request ctx ctx'" "suffix (chain ctx') (chain ctx)"
      "length (chain ctx') < length (chain ctx)"
      using run_plain_step[OF t(1,3,4) later.hyps(3), of ev ev] t(2) by (simp_all add: post_def)
    note n = this
    have "suffix (chain ctx) ch" "length calls + length (chain ctx) \<le> length ch"
      "take 2 ch = [H_auth_1, H_auth_2] \<longrightarrow> (\<exists>c. authenticated rt calls ctx c)"
      using w False by (simp_all add: waiting_def)
    moreover have "\<exists>c. authenticated rt calls ctx c \<Longrightarrow> \<exists>c. authenticated rt (calls @ [(env, ev, s)]) ctx' c"
      using authenticated_later[OF _ n(2)] by blast
    ultimately show ?thesis using n suffix_order.trans[OF n(3)] unfolding waiting_def by simp
  qed
qed

end
