(* ===== verification/AppCorrect.thy ===== *)
theory AppCorrect
  imports AppSafety
begin

text \<open>
  The properties of the application as a whole: every request is answered, nothing is done for an
  unauthenticated request, and a change of the stored data is what the request asked for.
\<close>

section \<open>No handler fails\<close>

text \<open>
  The challenges that the database returns have no number \<open>INT_MIN\<close>, whose sign cannot be
  changed; their column is numbered automatically from 1.
\<close>

definition printable_rows :: "event \<Rightarrow> bool" where
  "printable_rows ev \<longleftrightarrow> (\<forall>task rs row i fields. ev = Db_done task \<longrightarrow> res_set (task_result task) = Some rs \<longrightarrow>
     row \<in> set (res_rows rs) \<longrightarrow> row = Some i # fields \<longrightarrow> to_int (strtol i) \<noteq> - int INT_MAX - 1)"

lemma challenge_of_row_id:
  "challenge_of_row f row = Some c \<Longrightarrow> \<exists>i fields. row = Some i # fields \<and> ch_id c = to_int (strtol i)"
  by (induction f row rule: challenge_of_row.induct) auto

lemma bind_challenges_printable:
  assumes "bind_challenges_impl a (db_result_of ev) f = Some cs" "printable_rows ev"
  shows "cs \<noteq> []" "\<forall>c \<in> set cs. printable_id c"
proof -
  obtain task rs where t: "ev = Db_done task" "res_set (task_result task) = Some rs" "num_rows rs \<noteq> 0"
    "bind_rows (challenge_of_row f) (num_rows rs) (res_rows rs) = Some cs"
    using assms(1) by (auto simp: bind_challenges_impl_def db_result_of_def split: event.splits option.splits if_splits)
  have l: "num_rows rs \<le> length (res_rows rs)" "list_all2 (\<lambda>row c. challenge_of_row f row = Some c) (take (num_rows rs) (res_rows rs)) cs"
    using t(4) by (simp_all add: bind_rows_Some)
  show "cs \<noteq> []" using l t(3) list_all2_lengthD[OF l(2)] by auto
  show "\<forall>c \<in> set cs. printable_id c"
  proof
    fix c
    assume "c \<in> set cs"
    then obtain k where k: "k < length cs" "c = cs ! k" by (auto simp: in_set_conv_nth)
    then have "challenge_of_row f (take (num_rows rs) (res_rows rs) ! k) = Some c" "k < length (take (num_rows rs) (res_rows rs))"
      using list_all2_nthD2[OF l(2)] list_all2_lengthD[OF l(2)] by simp_all
    then obtain row where "row \<in> set (take (num_rows rs) (res_rows rs))" "challenge_of_row f row = Some c"
      using nth_mem by blast
    then show "printable_id c"
      using challenge_of_row_id[of f row c] in_set_takeD[of row] assms(2) t(1,2)
      unfolding printable_rows_def printable_id_def by metis
  qed
qed

lemma read_credentials_defined: "read_credentials env ctx \<noteq> None"
  using json_to_auth_request_cases[of "parse_mem env" "req_body ctx"]
  by (auto simp: read_credentials_def split: option.split)

lemma answer_to_json_defined: "answer_to_json a x \<noteq> None"
  by (simp add: answer_to_json_def printed_length_def emit_def Let_def)

lemma public_users_to_json_defined: "public_users_to_json a us n \<noteq> None"
proof -
  have some: "public_users_to_json a (Some xs) n \<noteq> None" for xs
  proof -
    have t: "take (length (take n xs)) (take n xs) = take n xs" by (rule take_all) simp
    have "public_users_to_json a (Some xs) n = public_users_to_json a (Some (take n xs)) (length (take n xs))"
      unfolding public_users_to_json_def option.case t by simp
    then show ?thesis by (simp add: public_users_to_json_text Let_def del: length_take)
  qed
  have "public_users_to_json a None n = Some (None, 0) \<or> public_users_to_json a None n = public_users_to_json a (Some []) n"
    by (simp add: public_users_to_json_def)
  then show ?thesis using some[of "[]"] some by (cases us) auto
qed

lemma answers_reply_defined: "answers_reply env as v \<noteq> None"
  by (simp add: answers_reply_def answers_to_json_text Let_def split: option.split prod.split)

lemma binding_string:
  "bind_params b qs = Some bs \<Longrightarrow> i < length qs \<Longrightarrow> binding_of b (qs ! i) = Some (bs ! i)"
proof (induction qs arbitrary: bs i)
  case (Cons q qs)
  then show ?case by (cases i) (auto simp: bind_eq_Some_conv)
qed simp

lemma task_values:
  assumes "bind_params (strings task) (task_params task) = Some bs" "i < length (task_params task)"
  shows "bs ! i = BIND_STRING x \<Longrightarrow> task_string task i = Some x" "bs ! i = BIND_LONGLONG v \<Longrightarrow> task_integer task i = Some v"
  using binding_string[OF assms] assms(2)
  by (cases "task_params task ! i"; auto simp: task_string_def task_integer_def rd_def)+

lemma submit_defined: "submit env q ctx r \<noteq> None"
  by (simp add: submit_def)

lemma updated_challenge_response_defined:
  "0 \<le> write_id st \<Longrightarrow> updated_challenge_response env st u \<noteq> None"
  using challenge_to_json_defined[of "\<lparr>ch_id = write_id st, creator_id = (case u of None \<Rightarrow> [] | Some u \<Rightarrow> u),
    ch_name = req_name (write_input st), description = req_description (write_input st), flag = req_flag (write_input st),
    genre = req_genre (write_input st)\<rparr>" "json_mem env 0" True]
  by (auto simp: updated_challenge_response_def challenge_to_json_def printable_id_def Let_def)

lemmas defined_facts = submit_defined updated_challenge_response_defined answers_reply_defined public_users_to_json_defined
  answer_to_json_defined read_credentials_defined

lemma handle_post_challenges_2_defined:
  assumes "chain ctx = [H_post_challenges_2]" "sends H_post_challenges_2 s" "completes s ev"
  shows "handle_post_challenges_2 env ev ctx \<noteq> None"
proof -
  obtain c n d f g where s: "s = Param_query INSERT_CHALLENGE
     [string_param c, string_param n, string_param d, string_param f, DB_PARAM_INT64 g]" using assms(2) by auto
  then obtain task where t: "ev = Db_done task" using assms(3) by (cases ev) auto
  have l: "length (task_params task) = 5" and b: "bind_params (strings task) (task_params task) =
      Some [BIND_STRING c, BIND_STRING n, BIND_STRING d, BIND_STRING f, BIND_LONGLONG g]"
    using assms(3) s t by (simp_all add: string_param_def)
  have v: "task_string task 0 = Some c" "task_string task 1 = Some n" "task_string task 2 = Some d"
    "task_string task 3 = Some f" "task_integer task 4 = Some g"
    using task_values[OF b] l by simp_all
  show ?thesis
    using challenge_to_json_defined[of "\<lparr>ch_id = int (insert_id (task_result task)), creator_id = c, ch_name = n,
      description = d, flag = f, genre = genre_of_int g\<rparr>" "json_mem env 0" True] t v assms(1)
    by (auto simp: handle_post_challenges_2_def has_next_def challenge_to_json_def printable_id_def Let_def)
qed

lemma handle_get_challenges_2_defined:
  assumes "chain ctx = [H_get_challenges_2]" "ev = Db_done task" "printable_rows ev"
  shows "handle_get_challenges_2 env ev ctx \<noteq> None"
proof (cases "bind_challenges_without_flag (bind_mem env) (db_result_of ev)")
  case None
  then show ?thesis using assms(1,2) by (simp add: handle_get_challenges_2_def has_next_def)
next
  case (Some cs)
  then have "challenges_to_json_without_flag (json_mem env) (Some cs) False (None, 0) \<noteq> None"
    using bind_challenges_printable[of "bind_mem env" ev False cs] assms(3)
    by (simp add: bind_challenges_without_flag_def challenges_to_json_without_flag_def challenges_to_json_impl_defined)
  then show ?thesis using Some assms(1,2) by (auto simp: handle_get_challenges_2_def has_next_def)
qed

lemma handle_get_own_challenges_2_defined:
  assumes "printable_rows ev"
  shows "handle_get_own_challenges_2 env ev ctx \<noteq> None"
proof -
  have d: "\<exists>y. Option.bind (challenges_to_json (json_mem env) (Some (filter p cs)) False (None, 0)) (\<lambda>(ptr, len). Some (g ptr len)) = Some y"
    if "bound_challenges env ev = Some cs" "filter p cs \<noteq> []" for cs p and g :: "string option \<Rightarrow> nat \<Rightarrow> step"
  proof -
    have "\<forall>c \<in> set cs. printable_id c"
      using bind_challenges_printable[of "bind_mem env" ev True cs] assms that(1)
      by (simp add: bound_challenges_def bind_challenges_def)
    then have "challenges_to_json (json_mem env) (Some (filter p cs)) False (None, 0) \<noteq> None" unfolding challenges_to_json_def
      by (intro challenges_to_json_impl_defined) (use that(2) in auto)
    then show ?thesis by auto
  qed
  show ?thesis
    by (simp add: handle_get_own_challenges_2_def Let_def d split: option.split)
qed

lemma completes_query: "completes (Query q) ev \<Longrightarrow> \<exists>task. ev = Db_done task"
  by (cases ev) simp_all

lemma bind_defined: "x \<noteq> None \<Longrightarrow> (\<And>y. f y \<noteq> None) \<Longrightarrow> Option.bind x f \<noteq> None"
  by (cases x) simp_all

lemmas with_state_defs = with_auth_state_def with_write_state_def with_submit_state_def with_list_state_def with_user_list_def

lemma run_plain_defined:
  assumes "chain ctx = h # tail_of h" "h \<notin> {H_auth_1, H_auth_2}" "finds h (app ctx)" "trail rt calls ctx h" "runtime env = rt"
    "entry h \<or> sends h s \<and> completes s ev" "printable_rows ev"
  shows "run_plain h env ev ctx \<noteq> None"
proof -
  note d = defined_facts[simplified not_None_eq] submit_password_def
  consider "h = H_post_challenges_2" | "h = H_get_challenges_2" | "h = H_get_own_challenges_2" | "h = H_logout_1"
    | "h \<in> {H_signup_1, H_login_1}" | "h \<in> {H_get_users_3, H_post_answers_4}"
    | "h \<notin> {H_post_challenges_2, H_get_challenges_2, H_get_own_challenges_2, H_logout_1, H_signup_1, H_login_1, H_get_users_3,
        H_post_answers_4}" by blast
  then show ?thesis
  proof cases
    case 1
    then show ?thesis using handle_post_challenges_2_defined[of ctx s ev env] assms(1,6) by simp
  next
    case 2
    then obtain task where "ev = Db_done task" using assms(6) completes_query by auto
    then show ?thesis using handle_get_challenges_2_defined[of ctx ev task env] assms(1,7) 2 by simp
  next
    case 3
    then show ?thesis using handle_get_own_challenges_2_defined[OF assms(7)] by simp
  next
    case 4
    then show ?thesis by (auto simp: handler_defs auth_request_user_def d split: option.split)
  next
    case 5
    obtain y where "read_credentials env ctx = Some y" using read_credentials_defined by blast
    then show ?thesis using 5 by (cases y) (auto simp: handler_defs d)
  next
    case 6
    then show ?thesis using assms(3) d(4,5)
      by (auto simp: handler_defs with_state_defs Let_def intro!: bind_defined[simplified not_None_eq] split: option.split prod.split)
  next
    case 7
    then show ?thesis using assms(1-6)
      by (cases h) (auto simp: handler_defs with_state_defs d has_next_def Let_def auth_data_def write_data_def configured_def
          select_challenge_owners_def split: option.split sum.split event.split auth_result.split prod.split)
  qed
qed

lemma run_handler_first_defined:
  assumes "chain_shape ch" "fresh_context ch ctx"
  shows "run_handler env Start ctx \<noteq> None"
proof -
  obtain h where h: "entry h" "ch = (if guarded h then [H_auth_1, H_auth_2] else []) @ h # tail_of h"
    using assms(1) by (auto simp: chain_shape_def)
  have c: "chain ctx = ch" using assms(2) by (simp add: fresh_context_def)
  show ?thesis
  proof (cases "guarded h")
    case True
    then show ?thesis using c h(2)
      by (auto simp: run_handler_def handle_auth_1_def submit_def split: option.split prod.split auth_result.split)
  next
    case False
    have "run_plain h env Start ctx \<noteq> None"
      by (rule run_plain_defined[where rt = "runtime env" and calls = "[]"])
        (use c h False entry_finds entry_auth entry_trail[OF h(1), of "runtime env" undefined ctx] in
          \<open>simp_all add: printable_rows_def\<close>)
    then show ?thesis using c h False entry_auth[OF h(1)] by (simp add: run_handler_def)
  qed
qed

lemma run_handler_defined:
  assumes "waiting rt ch calls ctx" "completes (submitted (last calls)) ev" "runtime env = rt" "printable_rows ev"
  shows "run_handler env ev ctx \<noteq> None"
proof (cases "waits_for_session rt calls ctx")
  case True
  then obtain env1 c h where t: "calls = [(env1, Start, Query AUTH_SESSIONS_QUERY)]" "chain ctx = H_auth_2 # h # tail_of h"
    "entry h" "guarded h" "identity ctx = Some \<lparr>claims = c, verified = False\<rparr>"
    by (auto simp: waits_for_session_def)
  let ?ctx = "next_handler (ctx\<lparr>identity := Some \<lparr>claims = c, verified = True\<rparr>\<rparr>)"
  have "run_plain h env Start ?ctx \<noteq> None"
    by (rule run_plain_defined[where rt = rt and calls = calls])
      (use t assms(3) entry_finds entry_auth entry_trail[OF t(3), of rt "hd calls" ?ctx] in \<open>simp_all add: printable_rows_def\<close>)
  then show ?thesis using t by (auto simp: run_handler_def handle_auth_2_def Let_def split: option.split)
next
  case False
  then obtain h where t: "chain ctx = h # tail_of h" "h \<notin> {H_auth_1, H_auth_2}" "sends h (submitted (last calls))"
    "finds h (app ctx)" "trail rt calls ctx h"
    using assms(1) by (auto simp: waiting_def waits_in_chain_def)
  have "run_plain h env ev ctx \<noteq> None"
    using run_plain_defined[OF t(1,2,4,5) assms(3) _ assms(4)] t(3) assms(2) by blast
  then show ?thesis using t(1,2) by (simp add: run_handler_def)
qed

section \<open>Where the statements that change data come from\<close>

lemma statements_distinct: "distinct [INSERT_CHALLENGE, UPDATE_CHALLENGE, DELETE_CHALLENGE, INSERT_ANSWER, INSERT_USER,
    DELETE_EXPIRED, INSERT_SESSION, DELETE_SESSION]"
  by code_simp

lemma sends_update: "sends h (Param_query UPDATE_CHALLENGE ps) \<longleftrightarrow> h = H_put_challenges_3"
  using statements_distinct by (cases h) auto

lemma sends_delete: "sends h (Param_query DELETE_CHALLENGE ps) \<longleftrightarrow> h = H_delete_challenges_3"
  using statements_distinct by (cases h) auto

lemma sends_answer: "sends h (Param_query INSERT_ANSWER ps) \<longleftrightarrow> h = H_post_answers_3"
  using statements_distinct by (cases h) auto

text \<open>These handlers stand behind the authentication.\<close>

lemma guarded_chain:
  assumes "chain_shape ch" "suffix (h # t) ch" "h \<in> {H_put_challenges_3, H_delete_challenges_3, H_post_answers_3}"
  shows "take 2 ch = [H_auth_1, H_auth_2]"
proof -
  obtain e where e: "entry e" "ch = (if guarded e then [H_auth_1, H_auth_2] else []) @ e # tail_of e"
    using assms(1) by (auto simp: chain_shape_def)
  have "h \<in> set ch" using assms(2) by (auto simp: suffix_def)
  then have "guarded e" using e assms(3) by (cases e) (auto split: if_splits)
  then show ?thesis using e(2) by simp
qed

text \<open>The life of a request whose last submission is such a statement.\<close>

lemma life_statement:
  assumes "r \<in> set server_routes" "life rt (route_handler r) calls ctx" "submitted (last calls) = s"
    "\<And>h. sends h s \<longleftrightarrow> h = h0" "h0 \<in> {H_put_challenges_3, H_delete_challenges_3, H_post_answers_3}"
  shows "trail rt calls ctx h0 \<and> (\<exists>c. authenticated rt calls ctx c)"
proof -
  note sh = server_chains[OF assms(1)]
  have w: "waiting rt (route_handler r) calls ctx" by (rule life_waiting[OF assms(2) sh])
  have "\<not> waits_for_session rt calls ctx"
  proof
    assume "waits_for_session rt calls ctx"
    then have "s = Query AUTH_SESSIONS_QUERY" using assms(3) by (auto simp: waits_for_session_def submitted_def)
    then show False using assms(4)[of H_auth_2] assms(5) by auto
  qed
  then obtain h where h: "chain ctx = h # tail_of h" "sends h (submitted (last calls))" "trail rt calls ctx h"
    and a: "take 2 (route_handler r) = [H_auth_1, H_auth_2] \<longrightarrow> (\<exists>c. authenticated rt calls ctx c)"
    and f: "suffix (chain ctx) (route_handler r)"
    using w by (auto simp: waiting_def waits_in_chain_def)
  then have "h = h0" using assms(3,4) by simp
  then show ?thesis using a h guarded_chain[OF sh] f assms(5) by auto
qed

lemma authenticated_user:
  "authenticated rt calls ctx c \<Longrightarrow> auth_request_user ctx = Some (cstr (user_id c))"
  by (auto simp: authenticated_def auth_request_user_def)

lemma owner_loop_row:
  "owner_loop rows n u = HTTP_STATUS_OK \<Longrightarrow> \<exists>i. [i, Some u] \<in> set rows \<and> parse_challenge_id i = Some n"
proof (induction rows)
  case (Cons row rows)
  then show ?case by (fastforce split: list.splits option.splits if_splits)
qed simp

lemma equal_decoded:
  "0 \<le> json_string_equal_decoded (Some a) (Some b) \<Longrightarrow>
    \<exists>x y. codepoints a = Some x \<and> codepoints b = Some y \<and> json_string_equal_decoded (Some a) (Some b) = (if x = y then 1 else 0)"
  by (auto simp: json_string_equal_decoded_def equal_loop_codepoints split: option.splits if_splits)

section \<open>The reply of a login\<close>

text \<open>\<open>replies r Q\<close>: when the call replies, the response satisfies \<open>Q\<close>.\<close>

definition replies :: "step option \<Rightarrow> (http_response \<Rightarrow> bool) \<Rightarrow> bool" where
  "replies r Q \<longleftrightarrow> (\<forall>x. r = Some (Reply x) \<longrightarrow> Q x)"

lemma replies_simps [simp]:
  "replies None Q" "replies (Some (Reply x)) Q \<longleftrightarrow> Q x" "replies (Some (Await s ctx)) Q"
  "replies (submit env s ctx x) Q \<longleftrightarrow> (\<not> accepts env s \<longrightarrow> Q x)"
  "replies (Option.bind y f) Q \<longleftrightarrow> (\<forall>z. y = Some z \<longrightarrow> replies (f z) Q)"
  "replies (with_auth_state ctx g) Q \<longleftrightarrow> (\<forall>st. app ctx = Auth_data st \<longrightarrow> replies (g st) Q)"
  by (auto simp: replies_def submit_def bind_eq_Some_conv with_auth_state_def split: app_data.splits)

lemma read_credentials_reply:
  "read_credentials env ctx = Some (Inl r) \<Longrightarrow> resp_status r \<noteq> HTTP_STATUS_OK"
  by (auto simp: read_credentials_def private_status_def response_status_def bind_eq_Some_conv split: option.splits if_splits)

lemma login_early_replies:
  "h \<in> {H_login_1, H_login_2, H_login_3, H_login_4} \<Longrightarrow>
    replies (run_plain h env ev ctx) (\<lambda>r. resp_status r \<noteq> HTTP_STATUS_OK)"
  by (auto simp: handler_defs submit_password_def private_status_def response_status_def auth_unauthorized_def Let_def
      dest: read_credentials_reply split: sum.split option.split event.split auth_result.split prod.split)

lemma login_early_reply:
  "run_plain h env ev ctx = Some (Reply r) \<Longrightarrow> h \<in> {H_login_1, H_login_2, H_login_3, H_login_4} \<Longrightarrow>
    resp_status r \<noteq> HTTP_STATUS_OK"
  using login_early_replies[of h env ev ctx] by (simp add: replies_def)

text \<open>A reply with status 200 comes from the last handler.\<close>

lemma login_reply:
  assumes "answered rt login_chain calls env ev ctx r" "resp_status r = HTTP_STATUS_OK"
  shows "trail rt calls ctx H_login_5 \<and> handle_login_5 env ev ctx = Some (Reply r)"
proof -
  have sh: "chain_shape login_chain" unfolding chain_shape_def login_chain_def by (rule exI[of _ H_login_1]) simp
  show ?thesis using assms
  proof cases
    case at_once
    then have "run_plain H_login_1 env Start ctx = Some (Reply r)"
      by (simp add: run_handler_def fresh_context_def login_chain_def)
    then show ?thesis using login_early_reply assms(2) by blast
  next
    case at_last
    have w: "waiting rt login_chain calls ctx" by (rule life_waiting[OF at_last(1) sh])
    have "\<not> waits_for_session rt calls ctx" using w by (auto simp: waiting_def waits_for_session_def login_chain_def suffix_Cons)
    then obtain h where h: "chain ctx = h # tail_of h" "h \<notin> {H_auth_1, H_auth_2}" "\<not> entry h" "trail rt calls ctx h"
      "suffix (h # tail_of h) login_chain" using w by (auto simp: waiting_def waits_in_chain_def)
    have "h \<in> {H_login_2, H_login_3, H_login_4, H_login_5}" using h(3,5) by (auto simp: login_chain_def suffix_Cons)
    moreover have "run_plain h env ev ctx = Some (Reply r)" using at_last(4) h(1,2) by (simp add: run_handler_def)
    ultimately have "h = H_login_5" using login_early_reply assms(2) by blast
    then show ?thesis using h(4) \<open>run_plain h env ev ctx = Some (Reply r)\<close> by simp
  qed
qed

section \<open>Replies to strangers\<close>

text \<open>What the two calls of the authentication, and the handler behind them, reply at once is an error.\<close>

definition is_error :: "http_response \<Rightarrow> bool" where
  "is_error r \<longleftrightarrow> is_error_status (resp_status r)"

lemma is_error_simps [simp]:
  "is_error auth_unauthorized" "is_error error_response"
  "is_error (response_status st) \<longleftrightarrow> is_error_status st" "is_error (private_status st) \<longleftrightarrow> is_error_status st"
  "is_error_status HTTP_STATUS_BAD_REQUEST" "is_error_status HTTP_STATUS_UNAUTHORIZED"
  "is_error_status HTTP_STATUS_INTERNAL_SERVER_ERROR" "\<not> is_error_status HTTP_STATUS_OK"
  "is_error_status (parse_status n)"
  by (simp_all add: is_error_def auth_unauthorized_def error_response_def response_status_def private_status_def
      is_error_status_def parse_status_def)

lemma write_state_error: "new_challenge_write_state env ctx = Inl r \<Longrightarrow> is_error r"
  by (auto simp: new_challenge_write_state_def split: if_splits option.splits)

lemma auth_1_replies: "replies (handle_auth_1 env ctx) is_error"
  by (simp add: handle_auth_1_def split: option.split prod.split auth_result.split)

lemma guarded_replies: "guarded h \<Longrightarrow> replies (run_plain h env Start ctx) is_error"
  by (cases h) (auto simp: handler_defs select_challenge_owners_def Let_def write_state_error
      split: option.split sum.split prod.split)

lemma auth_2_replies:
  "(\<And>ctx. replies (run ctx) is_error) \<Longrightarrow> replies (handle_auth_2 run env ev ctx) is_error"
  by (simp add: handle_auth_2_def Let_def split: option.split)

text \<open>A reply that is no error comes after the authentication.\<close>

lemma success_authenticated:
  assumes "chain_shape ch" "take 2 ch = [H_auth_1, H_auth_2]" "answered rt ch calls env ev ctx r" "\<not> is_error r"
  shows "\<exists>c. authenticated rt calls ctx c"
  using assms(3)
proof cases
  case at_once
  have "chain ctx = H_auth_1 # tl ch" using at_once(3) assms(2) by (cases ch) (auto simp: fresh_context_def)
  then have "handle_auth_1 env ctx = Some (Reply r)" using at_once by (simp add: run_handler_def)
  then show ?thesis using auth_1_replies[of env ctx] assms(4) by simp
next
  case at_last
  have "\<not> waits_for_session rt calls ctx"
  proof
    assume "waits_for_session rt calls ctx"
    then obtain h where h: "chain ctx = H_auth_2 # h # tail_of h" "guarded h" by (auto simp: waits_for_session_def)
    let ?run = "\<lambda>ctx'. case chain ctx' of [] \<Rightarrow> None | h # _ \<Rightarrow> run_plain h env Start ctx'"
    show False using at_last(4) h assms(4) guarded_replies[OF h(2), of env] 
      by (auto simp: run_handler_def handle_auth_2_def Let_def next_handler_def replies_def split: option.splits if_splits)
  qed
  then show ?thesis using life_waiting[OF at_last(1) assms(1)] assms(2) by (auto simp: waiting_def)
qed

lemma find_Some: "find P xs = Some x \<Longrightarrow> x \<in> set xs \<and> P x"
  by (auto simp: find_Some_iff)

lemma issued_token_length: "auth_token_issue L config u i t = (AUTH_OK, Some tok) \<Longrightarrow> length tok \<le> AUTH_TOKEN_MAX"
  by (auto simp: auth_token_issue_def split: if_splits option.splits)

lemma login_text_fits: "length tok \<le> AUTH_TOKEN_MAX \<Longrightarrow> length (login_text tok) \<le> AUTH_TOKEN_MAX + 63"
  using length_cstr[of tok] by (simp add: login_text_def)

section \<open>Example requests\<close>

text \<open>The calls of a request, computed; \<open>None\<close> when it does not wait after each of them.\<close>

fun drive :: "call list \<Rightarrow> http_context \<Rightarrow> (env \<times> event) list \<Rightarrow> (call list \<times> http_context) option" where
  "drive calls ctx [] = Some (calls, ctx)"
| "drive calls ctx ((env, ev) # es) =
     (if (case calls of [] \<Rightarrow> (case ev of Start \<Rightarrow> True | _ \<Rightarrow> False) | _ \<Rightarrow> completes (submitted (last calls)) ev) then
        (case run_handler env ev ctx of
           Some (Await s ctx') \<Rightarrow> drive (calls @ [(env, ev, s)]) ctx' es
         | _ \<Rightarrow> None)
      else None)"

definition done_rows :: "nat \<Rightarrow> mysql_row list \<Rightarrow> event" where
  "done_rows nf rows = Db_done \<lparr>task_query = [], query_len = 0, is_param_query = False, param_count = 0, task_params = [],
     strings = [], task_data = 0, task_result = zero_result\<lparr>success := True, res_set := Some \<lparr>num_fields = nf,
       num_rows = length rows, res_rows = rows\<rparr>\<rparr>\<rparr>"

definition example_runtime :: auth_runtime where
  "example_runtime = \<lparr>rt_config = Some example_config, contest_start_at = 0, contest_end_at = 0, contest_end_enabled = False,
     rt_worker = True\<rparr>"

definition example_env :: env where
  "example_env = \<lparr>runtime = Some example_runtime, now = 2000, e_libs = example_libs, random = Some (Some (replicate 16 (CHR ''r''))),
     system_random = [], accepts = (\<lambda>s. True), submit_result = (\<lambda>op pw h. PASSWORD_QUEUED), parse_mem = 50, bind_mem = True,
     state_mem = True, select_mem = True, json_mem = (\<lambda>n. True), qsort_users = insertion_sort, qsort_answers = insertion_sort\<rparr>"

definition example_request :: "handler list \<Rightarrow> (string \<times> string option) list \<Rightarrow> string \<Rightarrow> http_context" where
  "example_request ch ps b = \<lparr>req_body = Some b, req_params = ps, req_headers = [(''authorization'', ''Bearer h.p.s'')],
     identity = None, app = No_data, chain = ch\<rparr>"

definition example_session :: event where
  "example_session = done_rows 4 [[Some example_id, Some example_id, Some ''1000'', Some ''4600'']]"

lemma drive_later:
  "drive calls0 ctx0 es = Some (calls, ctx) \<Longrightarrow> life rt ch calls0 ctx0 \<Longrightarrow> \<forall>x \<in> set es. runtime (fst x) = rt \<Longrightarrow>
    life rt ch calls ctx"
proof (induction calls0 ctx0 es rule: drive.induct)
  case (2 calls0 ctx0 env ev es)
  have "calls0 \<noteq> []" using 2(3) by (cases rule: life.cases) simp_all
  then have c: "completes (submitted (last calls0)) ev" using 2(2) by (auto split: list.splits if_splits)
  obtain s ctx1 where s: "run_handler env ev ctx0 = Some (Await s ctx1)" "drive (calls0 @ [(env, ev, s)]) ctx1 es = Some (calls, ctx)"
    using 2(2) by (auto split: if_splits option.splits step.splits)
  have "life rt ch (calls0 @ [(env, ev, s)]) ctx1" by (rule life.later[OF 2(3) c _ s(1)]) (use 2(4) in simp)
  then show ?case using 2(1)[OF _ s(1) refl s(2)] 2(2,4) by (auto split: if_splits)
qed simp

lemma drive_life:
  assumes "drive [] ctx0 ((env, Start) # es) = Some (calls, ctx)" "fresh_context ch ctx0" "\<forall>x \<in> set ((env, Start) # es). runtime (fst x) = rt"
  shows "life rt ch calls ctx"
proof -
  obtain s ctx1 where s: "run_handler env Start ctx0 = Some (Await s ctx1)" "drive [(env, Start, s)] ctx1 es = Some (calls, ctx)"
    using assms(1) by (auto split: option.splits step.splits)
  show ?thesis by (rule drive_later[OF s(2) life.first[OF assms(2) _ s(1)]]) (use assms(3) in auto)
qed

lemma example_runtimes: "runtime example_env = Some example_runtime"
  by (simp add: example_env_def)

lemma example_fresh: "fresh_context ch (example_request ch ps b)"
  by (simp add: fresh_context_def example_request_def)

definition example_update :: "(call list \<times> http_context) option" where
  "example_update = drive [] (example_request put_challenges_chain [(''id'', Some ''7'')]
       ''{\"name\":\"n\",\"description\":\"d\",\"flag\":\"f\",\"genre\":\"web\"}'')
     [(example_env, Start), (example_env, example_session), (example_env, done_rows 2 [[Some ''7'', Some example_id]])]"

lemma example_update_submits:
  "map_option (\<lambda>(calls, ctx). (length calls, submitted (last calls))) example_update = Some (3, Param_query UPDATE_CHALLENGE
    [string_param ''n'', string_param ''d'', string_param ''f'', DB_PARAM_INT64 0, DB_PARAM_INT64 7, string_param example_id])"
  by code_simp

lemma example_update_life:
  assumes "example_update = Some (calls, ctx)"
  shows "life (Some example_runtime) put_challenges_chain calls ctx"
  using assms unfolding example_update_def
  by (rule drive_life[OF _ example_fresh]) (simp add: example_runtimes)

lemma example_update_exists:
  obtains calls ctx where "life (Some example_runtime) put_challenges_chain calls ctx" "length calls = 3"
    "submitted (last calls) = Param_query UPDATE_CHALLENGE
      [string_param ''n'', string_param ''d'', string_param ''f'', DB_PARAM_INT64 0, DB_PARAM_INT64 7, string_param example_id]"
  using example_update_submits example_update_life by fastforce

definition put_route :: "handler list route" where
  "put_route = \<lparr>route_method = HTTP_METHOD_PUT, route_path = ''/challenges'', route_handler = put_challenges_chain\<rparr>"

definition answers_route :: "handler list route" where
  "answers_route = \<lparr>route_method = HTTP_METHOD_POST, route_path = ''/answers'', route_handler = post_answers_chain\<rparr>"

lemma example_routes: "put_route \<in> set server_routes" "answers_route \<in> set server_routes"
  by code_simp+

definition example_answer :: "(call list \<times> http_context) option" where
  "example_answer = drive [] (example_request post_answers_chain []
       ''{\"challenge_id\":7,\"answer\":\"CTF\"}'')
     [(example_env, Start), (example_env, example_session), (example_env, done_rows 6 [[Some ''7'', Some example_id, Some ''n'',
       Some ''d'', Some (CHR 0x5C # ''u0043TF''), Some ''2'']])]"

lemma example_answer_submits:
  "map_option (\<lambda>(calls, ctx). submitted (last calls)) example_answer = Some (Param_query INSERT_ANSWER
    [DB_PARAM_INT64 7, string_param example_id, string_param ''CTF'', DB_PARAM_INT64 1])"
  by code_simp

lemma example_answer_exists:
  obtains calls ctx where "life (Some example_runtime) post_answers_chain calls ctx"
    "submitted (last calls) = Param_query INSERT_ANSWER
      [DB_PARAM_INT64 7, string_param example_id, string_param ''CTF'', DB_PARAM_INT64 1]"
proof -
  obtain calls ctx where e: "example_answer = Some (calls, ctx)" "submitted (last calls) = Param_query INSERT_ANSWER
      [DB_PARAM_INT64 7, string_param example_id, string_param ''CTF'', DB_PARAM_INT64 1]"
    using example_answer_submits by fastforce
  have "life (Some example_runtime) post_answers_chain calls ctx"
    using e(1) unfolding example_answer_def by (rule drive_life[OF _ example_fresh]) (simp add: example_runtimes)
  then show thesis using that e(2) by blast
qed

definition done_statement :: "string \<Rightarrow> nat db_param list \<Rightarrow> event" where
  "done_statement b ps = Db_done \<lparr>task_query = [], query_len = 0, is_param_query = True, param_count = length ps, task_params = ps,
     strings = b, task_data = 0, task_result = zero_result\<lparr>success := True, affected := 1\<rparr>\<rparr>"

definition logout_route :: "handler list route" where
  "logout_route = \<lparr>route_method = HTTP_METHOD_POST, route_path = ''/logout'', route_handler = logout_chain\<rparr>"

definition logout_done :: event where
  "logout_done = done_statement (example_id @ example_id) [DB_PARAM_STRING 0 32, DB_PARAM_STRING 32 32]"

definition example_logout :: "(call list \<times> http_context) option" where
  "example_logout = drive [] (example_request logout_chain [] []) [(example_env, Start), (example_env, example_session)]"

lemma example_logout_replies:
  "case example_logout of None \<Rightarrow> False | Some (calls, ctx) \<Rightarrow>
     completes (submitted (last calls)) logout_done \<and>
     (case run_handler example_env logout_done ctx of Some (Reply r) \<Rightarrow> resp_status r = HTTP_STATUS_OK | _ \<Rightarrow> False)"
  by code_simp

lemma example_logout_exists:
  obtains calls ctx r where "answered (Some example_runtime) logout_chain calls example_env logout_done ctx r"
    "resp_status r = HTTP_STATUS_OK"
proof -
  obtain calls ctx r where e: "example_logout = Some (calls, ctx)" "completes (submitted (last calls)) logout_done"
    "run_handler example_env logout_done ctx = Some (Reply r)" "resp_status r = HTTP_STATUS_OK"
  proof -
    obtain calls ctx where e: "example_logout = Some (calls, ctx)" using example_logout_replies by (auto split: option.splits)
    note r = example_logout_replies[unfolded e option.case prod.case]
    then obtain x where "run_handler example_env logout_done ctx = Some x" by (auto split: option.splits)
    then show thesis using that[OF e] r by (cases x) auto
  qed
  have "life (Some example_runtime) logout_chain calls ctx"
    using e(1) unfolding example_logout_def by (rule drive_life[OF _ example_fresh]) (simp add: example_runtimes)
  then show thesis using that answered.at_last[OF _ e(2) example_runtimes e(3)] e(4) by blast
qed

definition login_env :: env where
  "login_env = example_env\<lparr>e_libs := example_libs\<lparr>bin2hex := (\<lambda>s. example_id)\<rparr>\<rparr>"

definition example_credentials :: auth_request where
  "example_credentials = \<lparr>auth_username = Some ''bob'', auth_password = Some ''password''\<rparr>"

definition login_request :: http_context where
  "login_request = example_request login_chain [] ''{\"username\":\"bob\",\"password\":\"password\"}''"

definition login_rows :: event where
  "login_rows = done_rows 3 [[Some example_id, Some ''bob'', Some ''$argon2id$x'']]"

lemma login_computes:
  "json_to_auth_request (parse_mem login_env) (req_body login_request) = Some (0, example_credentials)"
  "bind_users (bind_mem login_env) (db_result_of login_rows) = Some [\<lparr>usr_id = example_id, usr_name = ''bob'', usr_hash = ''$argon2id$x''\<rparr>]"
  "auth_generate_id (e_libs login_env) (random login_env) (system_random login_env) = (AUTH_OK, example_id)"
  "auth_token_issue (e_libs login_env) example_config (Some (cstr example_id)) (Some (cstr example_id)) (now login_env) =
     (AUTH_OK, Some ''h.p.s'')"
  by code_simp+

lemma login_env_facts:
  "runtime login_env = Some example_runtime" "rt_config example_runtime = Some example_config" "rt_worker example_runtime"
  "state_mem login_env" "accepts login_env q" "submit_result login_env op pw h = PASSWORD_QUEUED"
  by (simp_all add: login_env_def example_env_def example_runtime_def)

definition login_insert :: event where
  "login_insert = done_statement (example_id @ example_id) [DB_PARAM_STRING 0 32, DB_PARAM_STRING 32 32, DB_PARAM_INT64 2000,
     DB_PARAM_INT64 (2000 + ttl example_config)]"

lemma login_events:
  "completes (Query q) login_rows" "completes (Param_query q []) (done_statement [] [])"
  "completes (Password op pw h) (Password_done AUTH_OK False [])"
  "db_result_of (done_statement b ps) = Some (zero_result\<lparr>success := True, affected := 1\<rparr>)"
  by (simp_all add: login_rows_def done_rows_def done_statement_def)

lemma login_insert_completes:
  "completes (Param_query q [DB_PARAM_STRING (Some example_id) AUTH_ID_LENGTH, DB_PARAM_STRING (Some example_id) AUTH_ID_LENGTH,
     DB_PARAM_INT64 (now login_env), DB_PARAM_INT64 (now login_env + ttl example_config)]) login_insert"
  by code_simp

lemma login_run:
  "\<exists>calls ctx r. answered (Some example_runtime) login_chain calls login_env login_insert ctx r \<and> resp_status r = HTTP_STATUS_OK"
proof -
  let ?st1 = "zero_auth_state\<lparr>st_input := example_credentials\<rparr>"
  let ?st2 = "?st1\<lparr>st_user_id := example_id, found_user := True, st_input := example_credentials\<lparr>auth_password := None\<rparr>\<rparr>"
  let ?st4 = "print_response (login_text ''h.p.s'') (?st2\<lparr>st_issued_at := now login_env, st_session_id := example_id, token := Some ''h.p.s''\<rparr>)"
  let ?ctx1 = "login_request\<lparr>app := Auth_data ?st1, chain := tl login_chain\<rparr>"
  let ?ctx2 = "login_request\<lparr>app := Auth_data ?st2, chain := tl (tl login_chain)\<rparr>"
  let ?ctx3 = "login_request\<lparr>app := Auth_data ?st2, chain := tl (tl (tl login_chain))\<rparr>"
  let ?ctx4 = "login_request\<lparr>app := Auth_data ?st4, chain := tl (tl (tl (tl login_chain)))\<rparr>"
  let ?s2 = "Password PASSWORD_VERIFY (Some ''password'') (Some ''$argon2id$x'')"
  let ?s4 = "Param_query INSERT_SESSION [DB_PARAM_STRING (Some example_id) AUTH_ID_LENGTH,
      DB_PARAM_STRING (Some (st_user_id ?st4)) AUTH_ID_LENGTH, DB_PARAM_INT64 (now login_env), DB_PARAM_INT64 (now login_env + ttl example_config)]"
  note d = run_handler_def login_chain_def handler_defs with_state_defs login_env_facts submit_def next_handler_def submit_password_def
    read_credentials_def
  have c0: "chain login_request = login_chain" "app login_request = No_data" by (simp_all add: login_request_def example_request_def)
  have 1: "run_handler login_env Start login_request = Some (Await (Query USERS_QUERY) ?ctx1)"
    using login_computes(1) by (simp add: d c0)
  have 2: "run_handler login_env login_rows ?ctx1 = Some (Await ?s2 ?ctx2)"
    using login_computes(2) by (simp add: d same_name_def example_credentials_def)
  have 3: "run_handler login_env (Password_done AUTH_OK False []) ?ctx2 = Some (Await (Param_query DELETE_EXPIRED []) ?ctx3)"
    by (simp add: d Let_def)
  have 4: "run_handler login_env (done_statement [] []) ?ctx3 = Some (Await ?s4 ?ctx4)"
    using login_computes(3,4) by (simp add: d login_events(4) Let_def)
  have 5: "run_handler login_env login_insert ?ctx4 = Some (Reply (json_response ?st4 HTTP_STATUS_OK))"
    by (simp add: d login_insert_def login_events(4))
  have "life (Some example_runtime) login_chain [(login_env, Start, Query USERS_QUERY)] ?ctx1"
    by (rule life.first[OF _ _ 1]) (simp_all add: fresh_context_def login_request_def example_request_def login_env_facts)
  note life.later[OF this _ login_env_facts(1) 2]
  then have "life (Some example_runtime) login_chain ([(login_env, Start, Query USERS_QUERY)] @ [(login_env, login_rows, ?s2)]) ?ctx2"
    using login_events(1) by (simp add: submitted_def)
  note life.later[OF this _ login_env_facts(1) 3]
  then have l3: "life (Some example_runtime) login_chain (([(login_env, Start, Query USERS_QUERY)] @ [(login_env, login_rows, ?s2)]) @
      [(login_env, Password_done AUTH_OK False [], Param_query DELETE_EXPIRED [])]) ?ctx3"
    using login_events(3) by (simp add: submitted_def)
  have l4: "life (Some example_runtime) login_chain ((([(login_env, Start, Query USERS_QUERY)] @ [(login_env, login_rows, ?s2)]) @
      [(login_env, Password_done AUTH_OK False [], Param_query DELETE_EXPIRED [])]) @ [(login_env, done_statement [] [], ?s4)]) ?ctx4"
    by (rule life.later[OF l3 _ login_env_facts(1) 4]) (simp add: submitted_def login_events(2))
  have "answered (Some example_runtime) login_chain ((([(login_env, Start, Query USERS_QUERY)] @ [(login_env, login_rows, ?s2)]) @
      [(login_env, Password_done AUTH_OK False [], Param_query DELETE_EXPIRED [])]) @ [(login_env, done_statement [] [], ?s4)])
      login_env login_insert ?ctx4 (json_response ?st4 HTTP_STATUS_OK)"
    by (rule answered.at_last[OF l4 _ login_env_facts(1) 5]) (simp add: submitted_def print_response_def login_insert_completes)
  moreover have "resp_status (json_response ?st4 HTTP_STATUS_OK) = HTTP_STATUS_OK"
    by (simp add: json_response_def json_reply_def response_text_def response_status_def)
  ultimately show ?thesis by blast
qed

section \<open>The properties of the application\<close>

text \<open>The routes that need an account.\<close>

definition protected_route :: "handler list route \<Rightarrow> bool" where
  "protected_route r \<longleftrightarrow> (route_method r \<noteq> HTTP_METHOD_GET \<and> route_path r \<notin> {''/signup'', ''/login''}) \<or>
     route_path r \<in> {''/challenges/me'', ''/answers/me''}"

lemma protected_chains:
  assumes "r \<in> set server_routes" "protected_route r"
  shows "take 2 (route_handler r) = [H_auth_1, H_auth_2]"
proof -
  have "(route_method r, route_path r, route_handler r) \<in>
      set (map (\<lambda>r. (route_method r, route_path r, route_handler r)) server_routes)" using assms(1) by auto
  then show ?thesis using assms(2) unfolding server_routes_list protected_route_def by (auto simp: chain_defs)
qed

text \<open>
  C1.  Every request is answered: for every route that \<open>main\<close> registers, whatever the request, the
  database, the password worker, the clock, the random source and the allocator do, no call of a
  handler violates an assertion, misreads the data of the request or leaves a buffer, and a request
  waits fewer times than its chain has handlers.  The only assumption on the stored data is that no
  challenge has the number \<open>INT_MIN\<close>.
\<close>

theorem requests_are_answered:
  assumes "r \<in> set server_routes"
  shows "(\<forall>env ctx. fresh_context (route_handler r) ctx \<longrightarrow> run_handler env Start ctx \<noteq> None) \<and>
    (\<forall>calls ctx. life rt (route_handler r) calls ctx \<longrightarrow> length calls < length (route_handler r) \<and>
      (\<forall>env ev. completes (submitted (last calls)) ev \<and> runtime env = rt \<and> printable_rows ev \<longrightarrow>
         run_handler env ev ctx \<noteq> None))"
proof (intro conjI allI impI)
  note sh = server_chains[OF assms]
  fix env :: env and ctx :: http_context
  show "fresh_context (route_handler r) ctx \<Longrightarrow> run_handler env Start ctx \<noteq> None"
    by (rule run_handler_first_defined[OF sh])
  fix calls :: "call list" and ctx :: http_context
  assume l: "life rt (route_handler r) calls ctx"
  note w = life_waiting[OF l sh]
  then have "chain ctx \<noteq> []" by (auto simp: waiting_def waits_for_session_def waits_in_chain_def)
  then show "length calls < length (route_handler r)" using w by (cases "chain ctx") (auto simp: waiting_def)
  fix env :: env and ev :: event
  assume "completes (submitted (last calls)) ev \<and> runtime env = rt \<and> printable_rows ev"
  then show "run_handler env ev ctx \<noteq> None" using run_handler_defined[OF w] by blast
qed

theorem requests_are_answered_witness:
  "\<exists>calls ctx. life (Some example_runtime) put_challenges_chain calls ctx \<and> length calls = 3 \<and>
     run_handler example_env Start (example_request put_challenges_chain [] []) \<noteq> None"
proof -
  obtain calls ctx where "life (Some example_runtime) put_challenges_chain calls ctx" "length calls = 3"
    using example_update_exists by blast
  then show ?thesis
    using requests_are_answered[OF example_routes(1), of "Some example_runtime"] example_fresh[of put_challenges_chain "[]" "[]"]
    by (auto simp: put_route_def)
qed

text \<open>
  C2.  Nothing is done for a stranger: on every route that changes data, except signup and login,
  and on the two private listings, the first submission is the query for the sessions, and every
  later one is made with an identity whose token was accepted at the first call and whose session
  was found, unexpired, among the stored ones at the second.  A reply whose status is not an error
  is given only with such an identity, too.
\<close>

theorem protected_requests_authenticated:
  assumes "r \<in> set server_routes" "protected_route r"
  shows "(\<forall>calls ctx. life rt (route_handler r) calls ctx \<longrightarrow>
      (\<exists>env. calls = [(env, Start, Query AUTH_SESSIONS_QUERY)]) \<or> (\<exists>c. authenticated rt calls ctx c)) \<and>
    (\<forall>calls env ev ctx resp. answered rt (route_handler r) calls env ev ctx resp \<longrightarrow>
      \<not> is_error_status (resp_status resp) \<longrightarrow> (\<exists>c. authenticated rt calls ctx c))"
proof (intro conjI allI impI)
  note sh = server_chains[OF assms(1)] and p = protected_chains[OF assms]
  show "(\<exists>env. calls = [(env, Start, Query AUTH_SESSIONS_QUERY)]) \<or> (\<exists>c. authenticated rt calls ctx c)"
    if "life rt (route_handler r) calls ctx" for calls ctx
    using life_waiting[OF that sh] p by (auto simp: waiting_def waits_for_session_def)
  show "\<exists>c. authenticated rt calls ctx c"
    if "answered rt (route_handler r) calls env ev ctx resp" "\<not> is_error_status (resp_status resp)" for calls env ev ctx resp
    using success_authenticated[OF sh p that(1)] that(2) by (simp add: is_error_def)
qed

theorem protected_requests_authenticated_witness:
  "\<exists>calls ctx c r. answered (Some example_runtime) logout_chain calls example_env logout_done ctx r \<and>
     resp_status r = HTTP_STATUS_OK \<and> authenticated (Some example_runtime) calls ctx c"
proof -
  obtain calls ctx r where a: "answered (Some example_runtime) logout_chain calls example_env logout_done ctx r"
    "resp_status r = HTTP_STATUS_OK" using example_logout_exists by blast
  have "protected_route logout_route" "logout_route \<in> set server_routes"
    by (simp add: protected_route_def logout_route_def) code_simp
  from protected_requests_authenticated[OF this(2,1), of "Some example_runtime"] show ?thesis
    using a by (fastforce simp: logout_route_def is_error_status_def)
qed

text \<open>
  C3.  Only its owner changes a challenge: on any route, an \<open>UPDATE\<close> or \<open>DELETE\<close> of a challenge is
  submitted only for an authenticated user, after the selected owners had a row with the number of
  the request and this user, and its parameters are this number, this user and, for an update, the
  values of the body.
\<close>

theorem challenge_write_by_owner:
  assumes "r \<in> set server_routes" "life rt (route_handler r) calls ctx"
    "submitted (last calls) = Param_query q ps" "q \<in> {UPDATE_CHALLENGE, DELETE_CHALLENGE}"
  shows "\<exists>c st env task rs i. authenticated rt calls ctx c \<and>
    last calls = (env, Db_done task, Param_query q ps) \<and> submitted (calls ! 1) = Query SELECT_OWNERS \<and> length calls = 3 \<and>
    read_challenge_id (req_params ctx) None = Some (write_id st) \<and>
    res_set (task_result task) = Some rs \<and> [i, Some (cstr (user_id c))] \<in> set (res_rows rs) \<and>
    parse_challenge_id i = Some (write_id st) \<and>
    (if q = UPDATE_CHALLENGE then Param_query q ps = update_submission ctx st \<and>
       json_to_create_challenge_request (parse_mem (fst (calls ! 1))) (req_body ctx) = (0, write_input st)
     else ps = [DB_PARAM_INT64 (write_id st), DB_PARAM_STRING (Some (cstr (user_id c))) (length (cstr (user_id c)))])"
proof -
  have neq: "UPDATE_CHALLENGE \<noteq> DELETE_CHALLENGE" using statements_distinct by auto
  have "\<exists>h0 \<in> {H_put_challenges_3, H_delete_challenges_3}. (\<forall>h. sends h (Param_query q ps) \<longleftrightarrow> h = h0) \<and>
      (h0 = H_put_challenges_3 \<longleftrightarrow> q = UPDATE_CHALLENGE)"
    using assms(4) sends_update sends_delete neq by auto
  then obtain h0 where h0: "h0 \<in> {H_put_challenges_3, H_delete_challenges_3}" "\<And>h. sends h (Param_query q ps) \<longleftrightarrow> h = h0"
    "h0 = H_put_challenges_3 \<longleftrightarrow> q = UPDATE_CHALLENGE" by blast
  have t: "trail rt calls ctx h0" "\<exists>c. authenticated rt calls ctx c"
    using life_statement[OF assms(1-3) h0(2)] h0(1) by blast+
  obtain c where c: "authenticated rt calls ctx c" using t(2) by blast
  note u = authenticated_user[OF c]
  obtain c1 env2 ev2 env task st where k: "calls = [c1, (env2, ev2, Query SELECT_OWNERS), (env, Db_done task, Param_query q ps)]"
    "write_requested (q = UPDATE_CHALLENGE) env2 ctx st"
    "challenge_write_access (Some (task_result task)) (write_id st) (auth_request_user ctx) = HTTP_STATUS_OK"
    "Param_query q ps = (if q = UPDATE_CHALLENGE then update_submission ctx st else delete_submission ctx st)"
    using t(1) h0(1,3) assms(3) by (auto simp: owner_checked_def submitted_def)
  obtain rs where rs: "res_set (task_result task) = Some rs" "owner_loop (res_rows rs) (write_id st) (cstr (user_id c)) = HTTP_STATUS_OK"
    using k(3) u by (auto simp: challenge_write_access_def split: if_splits option.splits)
  obtain i where i: "[i, Some (cstr (user_id c))] \<in> set (res_rows rs)" "parse_challenge_id i = Some (write_id st)"
    using owner_loop_row[OF rs(2)] by blast
  show ?thesis
    by (rule exI[of _ c], rule exI[of _ st], rule exI[of _ env], rule exI[of _ task], rule exI[of _ rs], rule exI[of _ i])
      (use c k rs(1) i u in \<open>auto simp: submitted_def write_requested_def delete_submission_def user_param_def split: if_splits\<close>)
qed

theorem challenge_write_by_owner_witness:
  "\<exists>calls ctx c. life (Some example_runtime) put_challenges_chain calls ctx \<and> authenticated (Some example_runtime) calls ctx c \<and>
     submitted (last calls) = Param_query UPDATE_CHALLENGE
       [string_param ''n'', string_param ''d'', string_param ''f'', DB_PARAM_INT64 0, DB_PARAM_INT64 7, string_param example_id]"
proof -
  obtain calls ctx where c: "life (Some example_runtime) put_challenges_chain calls ctx"
    "submitted (last calls) = Param_query UPDATE_CHALLENGE
       [string_param ''n'', string_param ''d'', string_param ''f'', DB_PARAM_INT64 0, DB_PARAM_INT64 7, string_param example_id]"
    using example_update_exists by blast
  then show ?thesis
    using challenge_write_by_owner[OF example_routes(1), of "Some example_runtime" calls ctx, OF _ c(2)]
    by (simp add: put_route_def) blast
qed

text \<open>
  C4.  A login succeeds only with the password: a reply with status 200 means that the credentials
  of the body name a stored user, that the password worker answered \<open>AUTH_OK\<close> for the password of the
  body and the hash of this user, that a token was then issued for the number of this user, that its
  session was inserted, and that the reply holds this token and must not be stored.
\<close>

theorem login_requires_password:
  assumes "answered rt login_chain calls env ev ctx r" "resp_status r = HTTP_STATUS_OK"
  shows "\<exists>config cred users u env1 ev1 env2 task2 env3 h env4 task4 i tok task body.
    configured rt \<and> rt_config (the rt) = Some config \<and>
    calls = [(env1, ev1, Query USERS_QUERY),
      (env2, Db_done task2, Password PASSWORD_VERIFY (auth_password cred) (Some (usr_hash u))),
      (env3, Password_done AUTH_OK False h, Param_query DELETE_EXPIRED []),
      (env4, Db_done task4, Param_query INSERT_SESSION [DB_PARAM_STRING (Some i) AUTH_ID_LENGTH,
         DB_PARAM_STRING (Some (usr_id u)) AUTH_ID_LENGTH, DB_PARAM_INT64 (now env4), DB_PARAM_INT64 (now env4 + ttl config)])] \<and>
    json_to_auth_request (parse_mem env1) (req_body ctx) = Some (0, cred) \<and>
    bind_users (bind_mem env2) (Some (task_result task2)) = Some users \<and>
    u \<in> set users \<and> auth_username cred = Some (usr_name u) \<and>
    auth_token_issue (e_libs env4) config (Some (cstr (usr_id u))) (Some (cstr i)) (now env4) = (AUTH_OK, Some tok) \<and>
    ev = Db_done task \<and> success (task_result task) \<and> affected (task_result task) = 1 \<and>
    no_store r \<and> resp_body r = Some body \<and> take (body_len r) body = login_text tok"
proof -
  have t: "trail rt calls ctx H_login_5" "handle_login_5 env ev ctx = Some (Reply r)" using login_reply[OF assms] by blast+
  obtain c1 c2 c4 env3 h st where k: "calls = [c1, c2, (env3, Password_done AUTH_OK False h, Param_query DELETE_EXPIRED []), c4]"
    "app ctx = Auth_data st" "found_user st" "password_asked c1 c2 ctx st" "session_submitted rt c4 st"
    using t(1) by auto
  obtain env1 ev1 env2 task2 cred users where p: "c1 = (env1, ev1, Query USERS_QUERY)"
    "json_to_auth_request (parse_mem env1) (req_body ctx) = Some (0, cred)"
    "bind_users (bind_mem env2) (Some (task_result task2)) = Some users"
    and f: "let found = find (\<lambda>u. Some (usr_name u) = auth_username cred) users in
      found_user st = (found \<noteq> None) \<and> (found \<noteq> None \<longrightarrow> st_user_id st = usr_id (the found)) \<and>
      c2 = (env2, Db_done task2, Password PASSWORD_VERIFY (auth_password cred) (map_option usr_hash found))"
    using k(4) unfolding password_asked_def by blast
  obtain u where u: "find (\<lambda>u. Some (usr_name u) = auth_username cred) users = Some u" using f k(3) by (auto simp: Let_def)
  have u': "u \<in> set users" "auth_username cred = Some (usr_name u)" using find_Some[OF u] by simp_all
  have c2: "st_user_id st = usr_id u" "c2 = (env2, Db_done task2, Password PASSWORD_VERIFY (auth_password cred) (Some (usr_hash u)))"
    using f u by (simp_all add: Let_def)
  obtain r0 config env4 task4 i tok where s: "rt = Some r0" "rt_config r0 = Some config"
    "auth_token_issue (e_libs env4) config (Some (cstr (usr_id u))) (Some (cstr i)) (now env4) = (AUTH_OK, Some tok)"
    "st_response st = take (AUTH_TOKEN_MAX + 63) (login_text tok) @ [CHR 0x00]" "response_len st = length (login_text tok)"
    "c4 = (env4, Db_done task4, Param_query INSERT_SESSION [DB_PARAM_STRING (Some i) AUTH_ID_LENGTH,
       DB_PARAM_STRING (Some (usr_id u)) AUTH_ID_LENGTH, DB_PARAM_INT64 (now env4), DB_PARAM_INT64 (now env4 + ttl config)])"
    using k(5) unfolding session_submitted_def c2(1) by blast
  obtain task where e: "ev = Db_done task" "success (task_result task)" "affected (task_result task) = 1"
    "r = json_response st HTTP_STATUS_OK"
    using t(2) assms(2) k(2)
    by (auto simp: handle_login_5_def with_auth_state_def db_result_of_def private_status_def response_status_def
        split: event.splits if_splits)
  have "length (login_text tok) \<le> AUTH_TOKEN_MAX + 63" using login_text_fits[OF issued_token_length[OF s(3)]] .
  then have "no_store r" "resp_body r = Some (st_response st)" "take (body_len r) (st_response st) = login_text tok"
    using s(4,5) by (simp_all add: e(4) json_response_def json_reply_def response_text_def response_status_def)
  then show ?thesis unfolding k(1) p(1) c2(2) s(6) e(1) s(1) configured_def
    using p(2,3) u' s(2,3) e(2,3) by (intro exI conjI) (rule refl s(2) | assumption | simp)+
qed

theorem login_requires_password_witness:
  "\<exists>calls ctx r body tok. answered (Some example_runtime) login_chain calls login_env login_insert ctx r \<and>
     resp_status r = HTTP_STATUS_OK \<and> resp_body r = Some body \<and> take (body_len r) body = login_text tok"
proof -
  obtain calls ctx r where a: "answered (Some example_runtime) login_chain calls login_env login_insert ctx r" "resp_status r = HTTP_STATUS_OK"
    using login_run by blast
  then show ?thesis using login_requires_password[OF a] by blast
qed

text \<open>
  C5.  Answers are recorded as they are: on any route, the statement that inserts an answer is
  submitted only for an authenticated user, with the number and the text of the body, and with
  \<open>is_correct\<close> 1 exactly when the text and the flag of the selected challenge with this number decode
  to the same code points, otherwise 0.
\<close>

theorem answer_recorded_truthfully:
  assumes "r \<in> set server_routes" "life rt (route_handler r) calls ctx"
    "submitted (last calls) = Param_query INSERT_ANSWER ps"
  shows "\<exists>c env task cs ch rq x y. authenticated rt calls ctx c \<and> length calls = 3 \<and>
    last calls = (env, Db_done task, Param_query INSERT_ANSWER ps) \<and> submitted (calls ! 1) = Query SELECT_CHALLENGES \<and>
    json_to_submit_answer_request (parse_mem (fst (calls ! 1))) (req_body ctx) = (0, rq) \<and>
    bind_challenges (bind_mem env) (Some (task_result task)) = Some cs \<and>
    find (\<lambda>c. ch_id c = int (sub_challenge_id rq)) cs = Some ch \<and>
    codepoints (flag ch) = Some x \<and> codepoints (sub_answer rq) = Some y \<and>
    ps = [DB_PARAM_INT64 (int (sub_challenge_id rq)), DB_PARAM_STRING (Some (cstr (user_id c))) (length (cstr (user_id c))),
      string_param (sub_answer rq), DB_PARAM_INT64 (if x = y then 1 else 0)]"
proof -
  have t: "trail rt calls ctx H_post_answers_3" "\<exists>c. authenticated rt calls ctx c"
    using life_statement[OF assms sends_answer] by blast+
  obtain c where c: "authenticated rt calls ctx c" using t(2) by blast
  note u = authenticated_user[OF c]
  obtain c1 env2 ev2 c3 and st :: answer_submit_state where k: "calls = [c1, (env2, ev2, Query SELECT_CHALLENGES), c3]"
    "json_to_submit_answer_request (parse_mem env2) (req_body ctx) = (0, submit_input st)"
    "answer_compared c3 ctx (submit_input st)"
    using t(1) by auto
  obtain env task correct cs ch where a: "c3 = (env, Db_done task, Param_query INSERT_ANSWER
      [DB_PARAM_INT64 (int (sub_challenge_id (submit_input st))), user_param (auth_request_user ctx),
       string_param (sub_answer (submit_input st)), DB_PARAM_INT64 correct])"
    "bind_challenges (bind_mem env) (Some (task_result task)) = Some cs"
    "find (\<lambda>c. ch_id c = int (sub_challenge_id (submit_input st))) cs = Some ch"
    "json_string_equal_decoded (Some (flag ch)) (Some (sub_answer (submit_input st))) = correct" "0 \<le> correct"
    using k(3) unfolding answer_compared_def by blast
  obtain x y where xy: "codepoints (flag ch) = Some x" "codepoints (sub_answer (submit_input st)) = Some y"
    "correct = (if x = y then 1 else 0)"
    using equal_decoded[of "flag ch" "sub_answer (submit_input st)"] a(4,5) by auto
  have ps: "ps = [DB_PARAM_INT64 (int (sub_challenge_id (submit_input st))),
      DB_PARAM_STRING (Some (cstr (user_id c))) (length (cstr (user_id c))),
      string_param (sub_answer (submit_input st)), DB_PARAM_INT64 (if x = y then 1 else 0)]"
    using assms(3) k(1) a(1) xy(3) u by (simp add: submitted_def user_param_def)
  show ?thesis
    by (rule exI[of _ c], rule exI[of _ env], rule exI[of _ task], rule exI[of _ cs], rule exI[of _ ch],
        rule exI[of _ "submit_input st"], rule exI[of _ x], rule exI[of _ y])
      (use c k(1,2) a(1,2,3) xy(1,2) ps assms(3) in \<open>simp add: submitted_def\<close>)
qed

theorem answer_recorded_truthfully_witness:
  "\<exists>calls ctx c. life (Some example_runtime) post_answers_chain calls ctx \<and> authenticated (Some example_runtime) calls ctx c \<and>
     submitted (last calls) = Param_query INSERT_ANSWER [DB_PARAM_INT64 7, string_param example_id, string_param ''CTF'', DB_PARAM_INT64 1]"
proof -
  obtain calls ctx where c: "life (Some example_runtime) post_answers_chain calls ctx"
    "submitted (last calls) = Param_query INSERT_ANSWER [DB_PARAM_INT64 7, string_param example_id, string_param ''CTF'', DB_PARAM_INT64 1]"
    using example_answer_exists by blast
  then show ?thesis
    using answer_recorded_truthfully[OF example_routes(2), of "Some example_runtime" calls ctx, OF _ c(2)]
    by (simp add: answers_route_def) blast
qed

end
