(* ===== verification/Spec2Isabelle.thy ===== *)
theory Spec2Isabelle
  imports ParserSplit JsonRead AppCorrect
begin

text \<open>
  Verification of the C server under \<open>src/src/\<close>: an HTTP server on one event loop, the worker threads
  of the database pool and of the password hashing, and on top of them the application of a
  capture-the-flag contest (accounts, challenges, answers, a score board).


  \<^bold>\<open>How the program works.\<close>  \<open>main.c\<close> reads the settings, creates the server and registers for each
  route a chain of handlers.  \<open>serve\<close> (\<open>server.c\<close>) waits for events.  A readable client gets a request
  object, which \<open>parse_http_request\<close> fills from the socket; \<open>http_server_handle_request\<close> looks up the
  route, allocates a context and calls the first handler of the chain.  A handler either answers or
  hands a query to the database pool (or a password to the password worker) together with the context
  and returns; when the task is completed the event loop calls the next handler with its result.  The
  response is rendered and sent through a scatter/gather vector, as the socket takes it.  A client may
  leave at any time, also while a task for its request is under way.


  \<^bold>\<open>Conventions.\<close>  A byte is a \<open>char\<close>, ordered by its unsigned code; a slice or a C string is a
  \<open>string\<close>.  An access outside an object, a failed assertion, a use of a released object or an overflow
  of a signed number is \<open>None\<close>, so a theorem that a routine returns \<open>Some\<close> states that it is safe; an
  error that the code handles is a value.  Integers are \<open>nat\<close> or \<open>int\<close> with the bounds and the
  wrap-around of the C type written out where they matter, and words where the code compares bit
  patterns.  Whether an allocation succeeds is an argument of the routine that asks for it.  Names are
  those of the source; loops have the name of their function with the suffix \<open>_loop\<close>.


  \<^bold>\<open>The HTTP server\<close>, from the bytes to the request and back.

  \<^item> \<open>HttpTypes\<close> (\<open>http.h\<close>, \<open>http.c\<close>, \<open>http_print.c\<close>, \<open>error.h\<close>, \<open>http_request.h\<close>): methods, versions,
    status codes and the request record.
  \<^item> \<open>UriPath\<close>, \<open>UriQuery\<close> (\<open>http_request_path.c\<close>): percent decoding, removal of dot segments, query
    parameters, normalisation of the target, all in place in the receive buffer.  Each routine refines
    a function on lists (\<open>percent_decode\<close>, \<open>resolve\<close>, \<open>query_part\<close>, \<open>uri_spec\<close>), the decoding accepts
    exactly the percent encodings (relation \<open>percent_encoding\<close>), and an accepted target has no empty,
    \<open>.\<close> or \<open>..\<close> segment.
  \<^item> \<open>RequestParser\<close> (\<open>http_request.c\<close>): the incremental parser, one definition for each of its states,
    the loop over a chunk and the receive loop.  \<open>ParserSafety\<close> has its invariant and the theorem that no
    input makes it leave its buffers; \<open>ParserSplit\<close> shows that the boundaries of the chunks do not matter.
  \<^item> \<open>Printing\<close>, \<open>Response\<close> (\<open>http_response.c\<close>): \<open>snprintf\<close> into a buffer and the rendering of a response,
    which fills the computed size exactly.
  \<^item> \<open>Send\<close> (\<open>server.c\<close>): the vector of a response and its partial writes.
  \<^item> \<open>Connection\<close> (\<open>server.c\<close>, \<open>server_connection.c\<close>, \<open>http_server.c\<close>, \<open>password_worker_http.c\<close>):
    connections, requests and contexts as heap objects with their pointers, routing, and every event
    that changes them.  \<open>loop_step\<close> is the event loop: a batch of reported connections, which may have
    been removed by an earlier event of the batch, completed tasks, new clients, reaping.  The invariant
    is that the client list is doubly linked (\<open>segment\<close>, \<open>lists\<close>) and that the pointers between the
    three kinds of objects are mutual (\<open>owned\<close>).


  \<^bold>\<open>The worker threads.\<close>

  \<^item> \<open>LinkQueue\<close> (\<open>db.c\<close>, \<open>password_worker.c\<close>): the four singly linked queues.  The locale \<open>fifo\<close> is what
    their clients rely on; each pair of a push and a pop is an interpretation of it.
  \<^item> \<open>PasswordWorker\<close> (\<open>password_worker.c\<close>): submission, the thread, completion, shutdown.  The state is
    the record of the worker with the job that the thread has taken; every section under the mutex is
    one step (\<open>worker_step\<close>), and the computation of a hash lies between two steps.  A job comes back
    with its context and with the result for its request (\<open>job_done\<close>), in the order of submission; a
    stop lets the cancelled jobs overtake the running one (\<open>one_overtaken\<close>).
  \<^item> \<open>Db\<close> (\<open>db.c\<close>): tasks with the copies of their parameters, the thread, completion, shutdown
    (\<open>pool_step\<close>); the program starts one thread.  Parameters reach the statement unchanged, and
    stopping the pool completes what was accepted.


  \<^bold>\<open>The application.\<close>

  \<^item> \<open>Model\<close> (\<open>app/model.h\<close>, \<open>model.c\<close>, \<open>str.c\<close>): the data.  \<open>Contest\<close> (\<open>app/contest.c\<close>): RFC 3339 times.
    \<open>Score\<close> (\<open>app/score.c\<close>): the score board; \<open>qsort\<close> is a parameter with the contract of the standard
    (locale \<open>qsort_contract\<close>), which two different sorts interpret.
  \<^item> \<open>JsonParser\<close>, \<open>JsonString\<close> (\<open>app/json_parser.c\<close>, \<open>json_string.c\<close>): the scanner and the decoding of
    strings, which accepts exactly the literals of RFC 8259 (relation \<open>json_literal\<close>).  \<open>JsonGrammar\<close> states the grammar of JSON and proves the scanner sound for it; the contract
    of a callback \<open>json_field_reader\<close> is the locale \<open>field_reader\<close>, interpreted by the field reader of each
    request body in \<open>JsonRequest\<close> (\<open>app/json_request.c\<close>, \<open>json_answer.c\<close>, \<open>json_auth.c\<close>).
  \<^item> \<open>JsonPrint\<close> (\<open>app/json.c\<close>, \<open>json_answer.c\<close>, \<open>json_user.c\<close>): the printers, whose text is JSON and fills
    the computed size.  \<open>JsonRead\<close> (\<open>app/json.c\<close>): the readers of challenges, which give back what was
    printed (a list only when the braces inside its strings are balanced).
  \<^item> \<open>Auth\<close> (\<open>app/auth.c\<close>): configuration, identifiers, tokens, passwords.
  \<^item> \<open>Repository\<close> (\<open>app/repository.c\<close>, \<open>repository_auth.c\<close>): from the rows of a result to data.
  \<^item> \<open>HandlerAuth\<close>, \<open>HandlerChallenge\<close>, \<open>HandlerAnswer\<close> (\<open>app/handler_auth.c\<close>, \<open>handler_challenge.c\<close>,
    \<open>handler_answer.c\<close>, \<open>handler_user.c\<close>, \<open>handler_health.c\<close>): every handler, as a function from the
    environment of the call (configuration, clock, libraries, random source, memory, answers of the pool
    and of the worker), the event and the context to a reply or to a submission with the context it waits
    with.  The submission names the SQL text and the parameters.
  \<^item> \<open>App\<close> (\<open>main.c\<close>): the settings, the chains and the routes.  \<open>life\<close> is the relation of a request to the
    calls that were made for it: a call is made at first, and then whenever a completion that belongs to
    the last submission arrives; \<open>answered\<close> adds the call that replies.
  \<^item> \<open>AppSafety\<close>: postconditions of the handlers (\<open>post\<close>), and the invariant of every life (\<open>waiting\<close>,
    preserved by \<open>life_waiting\<close>): which handler waits for which submission with which data (\<open>sends\<close>,
    \<open>finds\<close>), that behind the authentication the identity is verified (\<open>authenticated\<close>), and what the
    earlier calls have established (\<open>trail\<close>).
  \<^item> \<open>AppCorrect\<close>: the properties of the application as a whole, over the routes of \<open>main\<close>.


  \<^bold>\<open>What the theorems show.\<close>  On every route each request is answered, in fewer waits than its chain has
  handlers, whatever the database, the workers, the clock and the allocator do
  (\<open>requests_are_answered\<close>).  On a protected route nothing is submitted and no success is answered without
  an accepted token and a confirmed session; challenges are changed only by their owner; a token is issued only for the right
  password; an answer is recorded as correct exactly when it is the flag.  Below them: the event loop is
  memory safe and releases everything, the parser is safe and independent of the chunking, statements are
  executed with the parameters that were passed, responses are sent completely, tokens are accepted
  exactly when they are valid, jobs and tasks are conserved, shutdown terminates, times, strings and
  request bodies are read according to their grammars, and what is printed is JSON.


  \<^bold>\<open>Bounds and termination.\<close>  All loops over data are structural recursions or have a measure.
  \<open>read_value\<close> of the scanner recurses up to \<open>MAX_JSON_DEPTH\<close>, the limit of the code, and on shorter inputs
  within a level; \<open>read_value_sound\<close> includes that these bounds are never reached by themselves.  The loops
  that end only for well-formed heaps (\<open>reap_connections\<close>, \<open>remove_clients\<close>, \<open>cancel_loop\<close>, \<open>free_loop\<close>,
  \<open>finish_queue\<close>) are partial functions in the option monad, and the theorems on shutdown show that they
  return.  The receive loop and the sending are functions of the list of results of the system calls.
  The texts that the JSON printers write are taken to be shorter than 2^31 bytes, the limit of
  \<open>snprintf\<close>, and a score is not bounded to \<open>int64_t\<close>, which no list that fits in memory exceeds.


  \<^bold>\<open>Parameters.\<close>  libsodium, libjwt and jansson are the record \<open>libs\<close>, the MySQL client library is the
  record \<open>mysql\<close>; \<open>qsort\<close>, the clock and the random source are arguments.  What is assumed of them is
  stated at each theorem: that a token library decodes what it encodes (\<open>jwt_roundtrip\<close>), the contract of
  \<open>qsort\<close>, the length of a decoded hexadecimal text.  \<open>completes\<close> states what a completion has in common
  with the submission: the kind, and the parameters of the statement, as \<open>db_exec_query_param_correct\<close>
  and \<open>popped_job_answers\<close> prove of the pool and of the worker.  A call of a handler reads the clock and
  the random source once.


  \<^bold>\<open>Not modelled.\<close>  The system calls that set up sockets, signals and \<open>epoll\<close> (\<open>create_server\<close>,
  \<open>set_nonblocking\<close>, \<open>setup_shutdown\<close>, \<open>add_connection\<close>) and the event descriptors of the workers: the
  events that they cause are the steps of the model.  The routines that release data (\<open>free_*\<close>) and
  erase secrets, since values are not released in the model; the life of connections, requests,
  contexts, tasks and jobs is modelled.  Log output.  What the database does with a
  statement is not modelled: the theorems speak of the statements and of the rows that come back.
\<close>

end
